(* ===== verification/Prelude.thy ===== *)
theory Prelude
  imports Main "HOL-Library.Word"
begin

text \<open>
  The prelude of the development: names for the types every component uses, the pieces of the
  Go standard library several of them call (\<^verbatim>\<open>encoding/binary\<close> in big-endian order,
  \<^verbatim>\<open>strings.Cut\<close>, \<^verbatim>\<open>copy\<close> on byte slices), the interface of a component
  that keeps an invariant over its steps, and the hint collections.

  Go strings and byte slices are sequences of bytes; \<open>string\<close> (a list of 8-bit characters) is used
  for text and \<open>byte list\<close> for wire data.
\<close>

type_synonym byte = "8 word"
type_synonym u16 = "16 word"
type_synonym u32 = "32 word"
type_synonym u64 = "64 word"

named_theorems codec_simps \<open>round trips and lengths of the byte codecs\<close>
named_theorems queue_simps \<open>selectors and frames of the queue operations\<close>
named_theorems chan_simps \<open>selectors and frames of the channel operations\<close>
named_theorems pool_simps \<open>selectors and frames of the machine registry\<close>

subsection \<open>Lists\<close>

text \<open>The first element on which a partial function answers, and its answer.\<close>

fun first_some :: "('a \<Rightarrow> 'b option) \<Rightarrow> 'a list \<Rightarrow> 'b option" where
  "first_some f [] = None"
| "first_some f (x # xs) = (case f x of Some y \<Rightarrow> Some y | None \<Rightarrow> first_some f xs)"

lemma first_some_append:
  "first_some f (xs @ ys) = (case first_some f xs of Some y \<Rightarrow> Some y | None \<Rightarrow> first_some f ys)"
  by (induction xs) (auto split: option.splits)

lemma first_some_None_iff: "first_some f xs = None \<longleftrightarrow> (\<forall>x \<in> set xs. f x = None)"
  by (induction xs) (auto split: option.splits)

lemma first_some_SomeD: "first_some f xs = Some y \<Longrightarrow> \<exists>x \<in> set xs. f x = Some y"
  by (induction xs) (auto split: option.splits)

lemma first_some_SomeE:
  assumes "first_some f xs = Some y"
  obtains us x vs where "xs = us @ x # vs" "f x = Some y" "\<forall>u \<in> set us. f u = None"
  using assms
proof (induction xs arbitrary: thesis)
  case Nil
  then show ?case by simp
next
  case (Cons a xs)
  show ?case
  proof (cases "f a")
    case None
    with Cons.prems(2) have "first_some f xs = Some y" by simp
    then obtain us x vs where "xs = us @ x # vs" "f x = Some y" "\<forall>u \<in> set us. f u = None"
      using Cons.IH by blast
    with None show ?thesis using Cons.prems(1) [of "a # us" x vs] by auto
  next
    case (Some b)
    with Cons.prems show ?thesis using Cons.prems(1) [of "[]" a xs] by simp
  qed
qed

lemma filter_replace_length:
  "length (filter P (xs @ y # zs)) = length (filter P xs) + (if P y then 1 else 0) + length (filter P zs)"
  by simp

subsection \<open>Big-endian integers (encoding/binary)\<close>

fun be_bytes :: "nat \<Rightarrow> nat \<Rightarrow> byte list" where
  "be_bytes 0 n = []"
| "be_bytes (Suc k) n = be_bytes k (n div 256) @ [word_of_nat n]"

definition be_nat :: "byte list \<Rightarrow> nat" where
  "be_nat bs = foldl (\<lambda>n b. n * 256 + unat b) 0 bs"

lemma be_nat_Nil [simp]: "be_nat [] = 0"
  by (simp add: be_nat_def)

lemma be_nat_snoc [simp]: "be_nat (bs @ [b]) = be_nat bs * 256 + unat b"
  by (simp add: be_nat_def)

lemma length_be_bytes [simp, codec_simps]: "length (be_bytes k n) = k"
  by (induction k arbitrary: n) auto

lemma unat_byte_less: "unat (b :: byte) < 256"
  using unsigned_less [of b, where ?'a = nat] by simp

lemma be_nat_be_bytes [codec_simps]: "be_nat (be_bytes k n) = n mod 256 ^ k"
proof (induction k arbitrary: n)
  case 0
  then show ?case by simp
next
  case (Suc k)
  have "be_nat (be_bytes (Suc k) n) = (n div 256) mod 256 ^ k * 256 + n mod 256"
    by (simp add: Suc unat_of_nat)
  also have "\<dots> = n mod 256 ^ Suc k"
    by (simp add: mod_mult2_eq mult.commute)
  finally show ?case .
qed

lemma be_nat_less: "be_nat bs < 256 ^ length bs"
proof (induction bs rule: rev_induct)
  case Nil
  then show ?case by simp
next
  case (snoc b bs)
  then show ?case using unat_byte_less [of b] by simp
qed

lemma byte_256 [simp]: "(256 :: byte) = 0"
  by simp

lemma word_of_nat_byte: "(word_of_nat (n * 256 + unat b) :: byte) = b"
  by simp

lemma be_bytes_be_nat [codec_simps]: "be_bytes (length bs) (be_nat bs) = bs"
proof (induction bs rule: rev_induct)
  case Nil
  then show ?case by simp
next
  case (snoc b bs)
  then show ?case using unat_byte_less [of b] by simp
qed

text \<open>\<^verbatim>\<open>binary.BigEndian.Uint16/32/64\<close> read the first bytes of a slice the caller has
  already checked to be long enough, and \<^verbatim>\<open>PutUint\<close> writes them.\<close>

definition put_u16 :: "u16 \<Rightarrow> byte list" where
  "put_u16 w = be_bytes 2 (unat w)"

definition put_u32 :: "u32 \<Rightarrow> byte list" where
  "put_u32 w = be_bytes 4 (unat w)"

definition put_u64 :: "u64 \<Rightarrow> byte list" where
  "put_u64 w = be_bytes 8 (unat w)"

definition get_u16 :: "byte list \<Rightarrow> u16" where
  "get_u16 bs = word_of_nat (be_nat (take 2 bs))"

definition get_u32 :: "byte list \<Rightarrow> u32" where
  "get_u32 bs = word_of_nat (be_nat (take 4 bs))"

definition get_u64 :: "byte list \<Rightarrow> u64" where
  "get_u64 bs = word_of_nat (be_nat (take 8 bs))"

lemma length_put [simp, codec_simps]:
  "length (put_u16 a) = 2" "length (put_u32 b) = 4" "length (put_u64 c) = 8"
  by (simp_all add: put_u16_def put_u32_def put_u64_def)

lemma get_put_u16 [simp, codec_simps]: "get_u16 (put_u16 w @ rest) = w"
  using unsigned_less [of w, where ?'a = nat]
  by (simp add: get_u16_def put_u16_def be_nat_be_bytes)

lemma get_put_u32 [simp, codec_simps]: "get_u32 (put_u32 w @ rest) = w"
  using unsigned_less [of w, where ?'a = nat]
  by (simp add: get_u32_def put_u32_def be_nat_be_bytes)

lemma get_put_u64 [simp, codec_simps]: "get_u64 (put_u64 w @ rest) = w"
  using unsigned_less [of w, where ?'a = nat]
  by (simp add: get_u64_def put_u64_def be_nat_be_bytes)

subsection \<open>strings.Cut\<close>

text \<open>The text before and after the first occurrence of a separator character.\<close>

fun cut_at :: "char \<Rightarrow> string \<Rightarrow> (string \<times> string) option" where
  "cut_at c [] = None"
| "cut_at c (x # xs) =
     (if x = c then Some ([], xs)
      else (case cut_at c xs of None \<Rightarrow> None | Some (a, b) \<Rightarrow> Some (x # a, b)))"

lemma cut_at_None_iff: "cut_at c s = None \<longleftrightarrow> c \<notin> set s"
  by (induction s) (auto split: option.splits)

lemma cut_at_prefix: "c \<notin> set a \<Longrightarrow> cut_at c (a @ c # b) = Some (a, b)"
  by (induction a) auto

lemma cut_at_SomeD: "cut_at c s = Some (a, b) \<Longrightarrow> s = a @ c # b \<and> c \<notin> set a"
  by (induction s arbitrary: a) (auto split: if_splits option.splits)

subsection \<open>Components that keep an invariant\<close>

text \<open>
  The contract between a component and whoever reasons about its runs: a predicate that holds of
  the states it starts in and that each of its steps keeps. What holds of every reachable state is
  then proved once.
\<close>

locale invariant_system =
  fixes init :: "'s \<Rightarrow> bool"
    and step :: "'s \<Rightarrow> 's \<Rightarrow> bool"
    and inv :: "'s \<Rightarrow> bool"
  assumes init_inv: "init s \<Longrightarrow> inv s"
    and step_inv: "step s t \<Longrightarrow> inv s \<Longrightarrow> inv t"
begin

lemma steps_inv: "step\<^sup>*\<^sup>* s t \<Longrightarrow> inv s \<Longrightarrow> inv t"
  by (induction rule: rtranclp_induct) (auto intro: step_inv)

lemma reachable_inv: "init s \<Longrightarrow> step\<^sup>*\<^sup>* s t \<Longrightarrow> inv t"
  by (blast intro: steps_inv init_inv)

end

end
