(* ===== verification/Outcome.thy ===== *)
theory Outcome
  imports Prelude
begin

text \<open>
  \<^verbatim>\<open>internal/outcome/outcome.go\<close>, \<^verbatim>\<open>internal/retry/retry.go\<close> and
  \<^verbatim>\<open>internal/pipeline/attempts.go\<close>: how a step's error is classified for its hooks and for
  the process's exit status, and the retry loop every step's \<open>attempts:\<close> runs in.

  A Go \<open>error\<close> is a tree: a leaf value, a wrapper with text and one or more causes
  (\<^verbatim>\<open>fmt.Errorf\<close> with \<open>%w\<close>, \<^verbatim>\<open>errors.Join\<close>), or one of the three
  marker types these packages define. A nil error is \<open>None\<close>. A context is what its
  \<^verbatim>\<open>Err()\<close> answers.
\<close>

subsection \<open>Go error values\<close>

datatype sentinel =
    CtxCanceled \<comment> \<open>context.Canceled\<close>
  | CtxDeadlineExceeded \<comment> \<open>context.DeadlineExceeded\<close>
  | Msg string \<comment> \<open>any other leaf\<close>

datatype gerr =
    Leaf sentinel
  | Wrapf string "gerr list"
  | Failure gerr
  | Escalation gerr
  | StopError gerr

type_synonym go_error = "gerr option"

type_synonym go_ctx = "sentinel option" \<comment> \<open>ctx.Err(), \<open>None\<close> while the context is live\<close>

text \<open>
  \<^verbatim>\<open>errors.As\<close> tries the error itself, then what it unwraps to, depth first: the first
  node the matcher accepts answers.
\<close>

fun errors_as :: "(gerr \<Rightarrow> 'a option) \<Rightarrow> gerr \<Rightarrow> 'a option"
  and errors_as_any :: "(gerr \<Rightarrow> 'a option) \<Rightarrow> gerr list \<Rightarrow> 'a option" where
  "errors_as m (Leaf s) = m (Leaf s)"
| "errors_as m (Wrapf t es) =
     (case m (Wrapf t es) of Some x \<Rightarrow> Some x | None \<Rightarrow> errors_as_any m es)"
| "errors_as m (Failure e) =
     (case m (Failure e) of Some x \<Rightarrow> Some x | None \<Rightarrow> errors_as m e)"
| "errors_as m (Escalation e) =
     (case m (Escalation e) of Some x \<Rightarrow> Some x | None \<Rightarrow> errors_as m e)"
| "errors_as m (StopError e) =
     (case m (StopError e) of Some x \<Rightarrow> Some x | None \<Rightarrow> errors_as m e)"
| "errors_as_any m [] = None"
| "errors_as_any m (e # es) =
     (case errors_as m e of Some x \<Rightarrow> Some x | None \<Rightarrow> errors_as_any m es)"

text \<open>\<^verbatim>\<open>errors.Is\<close> against a sentinel value walks the same tree.\<close>

definition errors_is :: "gerr \<Rightarrow> sentinel \<Rightarrow> bool" where
  "errors_is e s = (errors_as (\<lambda>x. if x = Leaf s then Some () else None) e \<noteq> None)"

text \<open>The reference order of the walk: every node of the tree, a parent before its causes.\<close>

fun nodes :: "gerr \<Rightarrow> gerr list" and nodes_all :: "gerr list \<Rightarrow> gerr list" where
  "nodes (Leaf s) = [Leaf s]"
| "nodes (Wrapf t es) = Wrapf t es # nodes_all es"
| "nodes (Failure e) = Failure e # nodes e"
| "nodes (Escalation e) = Escalation e # nodes e"
| "nodes (StopError e) = StopError e # nodes e"
| "nodes_all [] = []"
| "nodes_all (e # es) = nodes e @ nodes_all es"

lemma errors_as_first:
  "errors_as m e = first_some m (nodes e)"
  "errors_as_any m es = first_some m (nodes_all es)"
  by (induction m e and m es rule: errors_as_errors_as_any.induct)
     (auto simp: first_some_append split: option.splits)

lemma errors_is_iff: "errors_is e s \<longleftrightarrow> Leaf s \<in> set (nodes e)"
  by (auto simp: errors_is_def errors_as_first first_some_None_iff split: if_splits)

subsection \<open>outcome.go\<close>

datatype outcome_class = Succeeded | Failed | Errored | Aborted

fun marked :: "gerr \<Rightarrow> outcome_class option" where
  "marked (Failure e) = Some Failed"
| "marked (Escalation e) = Some Errored"
| "marked _ = None"

definition Escalate :: "go_error \<Rightarrow> go_error" where
  "Escalate err = (case err of None \<Rightarrow> None | Some e \<Rightarrow> Some (Escalation e))"

definition markedClass :: "gerr \<Rightarrow> outcome_class option" where
  "markedClass e = errors_as marked e"

definition Fail :: "go_error \<Rightarrow> go_error" where
  "Fail err = (case err of None \<Rightarrow> None | Some e \<Rightarrow> Some (Failure e))"

definition FailOnDeadline :: "go_ctx \<Rightarrow> go_ctx \<Rightarrow> go_error \<Rightarrow> go_error" where
  "FailOnDeadline jobCtx attemptCtx err =
     (if err = None \<or> attemptCtx = None \<or> jobCtx \<noteq> None then err else Fail err)"

definition ExitOK :: nat where "ExitOK = 0"
definition ExitFailed :: nat where "ExitFailed = 1"
definition ExitErrored :: nat where "ExitErrored = 2"
definition ExitAborted :: nat where "ExitAborted = 130"

definition ExitCode :: "go_error \<Rightarrow> nat" where
  "ExitCode err =
     (case err of
        None \<Rightarrow> ExitOK
      | Some e \<Rightarrow>
          (if errors_is e CtxCanceled then ExitAborted
           else if markedClass e = Some Failed then ExitFailed
           else ExitErrored))"

definition Classify :: "go_ctx \<Rightarrow> go_error \<Rightarrow> outcome_class" where
  "Classify ctx err =
     (case err of
        None \<Rightarrow> Succeeded
      | Some e \<Rightarrow>
          (if ctx \<noteq> None then Aborted
           else (case markedClass e of Some c \<Rightarrow> c | None \<Rightarrow> Errored)))"

subsection \<open>retry.go\<close>

text \<open>Milliseconds.\<close>

definition backoffUnit :: nat where "backoffUnit = 500"

fun stop_cause :: "gerr \<Rightarrow> gerr option" where
  "stop_cause (StopError e) = Some e"
| "stop_cause _ = None"

definition Stop :: "go_error \<Rightarrow> go_error" where
  "Stop err = (case err of None \<Rightarrow> None | Some e \<Rightarrow> Some (StopError e))"

definition StopOnDeadline :: "go_ctx \<Rightarrow> go_ctx \<Rightarrow> go_error \<Rightarrow> go_error" where
  "StopOnDeadline ctx attemptCtx err =
     (if err = None \<or> attemptCtx = None \<or> ctx \<noteq> None then err else Stop err)"

text \<open>
  \<^verbatim>\<open>Do\<close>. The pause before attempt \<open>k > 0\<close> is a select between the context and a timer, so
  which of them ends it is the environment's choice: \<open>waits k\<close> is the context's error when the
  context ended the pause and \<open>None\<close> when the timer did. \<open>fn k\<close> is what the callback answers on
  its call number \<open>k\<close>. The log holds the pauses that ran to their end and the calls made.
\<close>

datatype retry_event = Slept nat | Called nat

fun retry_loop ::
  "(nat \<Rightarrow> go_ctx) \<Rightarrow> (nat \<Rightarrow> go_error) \<Rightarrow> nat \<Rightarrow> nat \<Rightarrow> go_error \<Rightarrow> go_error \<times> retry_event list" where
  "retry_loop waits fn 0 attempt lastErr = (lastErr, [])"
| "retry_loop waits fn (Suc left) attempt lastErr =
     (case (if attempt > 0 then waits attempt else None) of
        Some done_err \<Rightarrow> (Some (Leaf done_err), [])
      | None \<Rightarrow>
          (let begun = (if attempt > 0 then [Slept (attempt * backoffUnit)] else []) @ [Called attempt]
           in (case fn attempt of
                 None \<Rightarrow> (None, begun)
               | Some e \<Rightarrow>
                   (case errors_as stop_cause e of
                      Some cause \<Rightarrow> (Some cause, begun)
                    | None \<Rightarrow>
                        (case retry_loop waits fn left (Suc attempt) (Some e) of
                           (r, log) \<Rightarrow> (r, begun @ log))))))"

definition retry_Do :: "(nat \<Rightarrow> go_ctx) \<Rightarrow> int \<Rightarrow> (nat \<Rightarrow> go_error) \<Rightarrow> go_error \<times> retry_event list" where
  "retry_Do waits attempts fn =
     retry_loop waits fn (nat (if attempts < 1 then 1 else attempts)) 0 None"

subsection \<open>attempts.go\<close>

text \<open>
  \<^verbatim>\<open>retryWithTimeout\<close> with a parsed timeout (\<open>0\<close> when unset). On attempt \<open>k\<close> the callback
  runs under its own context: \<open>attempt_ctx k\<close> is what that context's \<open>Err()\<close> answers once the
  callback has returned, and \<open>ctx_after k\<close> is the same for the parent. Without a timeout the
  attempt runs on the parent itself. \<open>parse_err\<close> is \<^verbatim>\<open>config.ParseTimeout\<close>'s error.
\<close>

definition attempt_body ::
  "int \<Rightarrow> (nat \<Rightarrow> go_ctx) \<Rightarrow> (nat \<Rightarrow> go_ctx) \<Rightarrow> (nat \<Rightarrow> go_error) \<Rightarrow> nat \<Rightarrow> go_error" where
  "attempt_body timeout ctx_after attempt_ctx fn k =
     (let actx = (if timeout > 0 then attempt_ctx k else ctx_after k)
      in StopOnDeadline (ctx_after k) actx (FailOnDeadline (ctx_after k) actx (fn k)))"

definition retryWithTimeout ::
  "go_error \<Rightarrow> int \<Rightarrow> (nat \<Rightarrow> go_ctx) \<Rightarrow> (nat \<Rightarrow> go_ctx) \<Rightarrow> (nat \<Rightarrow> go_ctx) \<Rightarrow> int option
     \<Rightarrow> (nat \<Rightarrow> go_error) \<Rightarrow> go_error \<times> retry_event list" where
  "retryWithTimeout parse_err timeout waits ctx_after attempt_ctx attempts fn =
     (if parse_err \<noteq> None then (parse_err, [])
      else retry_Do waits (max (case attempts of None \<Rightarrow> 1 | Some n \<Rightarrow> n) 1)
        (attempt_body timeout ctx_after attempt_ctx fn))"

subsection \<open>Lemmas: classification\<close>

lemma markedClass_first: "markedClass e = first_some marked (nodes e)"
  by (simp add: markedClass_def errors_as_first)

lemma markedClass_marker [simp]:
  "markedClass (Failure e) = Some Failed"
  "markedClass (Escalation e) = Some Errored"
  by (simp_all add: markedClass_def)

lemma marked_range: "marked e = Some c \<Longrightarrow> c = Failed \<or> c = Errored"
  by (cases e) auto

lemma markedClass_range:
  "markedClass e = None \<or> markedClass e = Some Failed \<or> markedClass e = Some Errored"
proof (cases "markedClass e")
  case (Some c)
  then obtain x where "marked x = Some c"
    unfolding markedClass_first by (blast dest: first_some_SomeD)
  with Some show ?thesis by (auto dest: marked_range)
qed simp

lemma Classify_nil [simp]: "Classify ctx None = Succeeded"
  by (simp add: Classify_def)

lemma Classify_cancelled [simp]: "Classify (Some s) (Some e) = Aborted"
  by (simp add: Classify_def)

lemma Classify_Fail [simp]: "Classify None (Some (Failure e)) = Failed"
  by (simp add: Classify_def)

lemma errors_is_markers [simp]:
  "errors_is (Failure e) s = errors_is e s"
  "errors_is (Escalation e) s = errors_is e s"
  "errors_is (StopError e) s = errors_is e s"
  by (simp_all add: errors_is_iff)

text \<open>The exit status that goes with each class.\<close>

fun class_exit :: "outcome_class \<Rightarrow> nat" where
  "class_exit Succeeded = ExitOK"
| "class_exit Failed = ExitFailed"
| "class_exit Errored = ExitErrored"
| "class_exit Aborted = ExitAborted"

text \<open>C32: the outermost marker in an error's tree decides its class while the job is live,
  whatever markers it holds further in.\<close>

theorem classify_outermost_marker:
  assumes "nodes e = us @ x # vs"
    and "\<forall>u \<in> set us. marked u = None"
    and "marked x = Some c"
  shows "Classify None (Some e) = c"
proof -
  have "first_some marked us = None"
    using assms(2) by (simp add: first_some_None_iff)
  then have "markedClass e = Some c"
    by (simp add: markedClass_first first_some_append assms(1,3))
  then show ?thesis by (simp add: Classify_def)
qed

theorem classify_outermost_marker_witness:
  "Classify None (Some (Wrapf ''block'' [Escalation (Wrapf ''join'' [Failure (Leaf (Msg ''red''))])])) = Errored"
proof -
  let ?e = "Wrapf ''block'' [Escalation (Wrapf ''join'' [Failure (Leaf (Msg ''red''))])]"
  have "nodes ?e = [?e] @ Escalation (Wrapf ''join'' [Failure (Leaf (Msg ''red''))])
      # [Wrapf ''join'' [Failure (Leaf (Msg ''red''))], Failure (Leaf (Msg ''red'')), Leaf (Msg ''red'')]"
    by simp
  from classify_outermost_marker [OF this, of Errored] show ?thesis by simp
qed

text \<open>C33: the process's exit status is the one of the class the hooks saw, when the error's tree
  holds \<^verbatim>\<open>context.Canceled\<close> exactly when the job's context ended.\<close>

theorem exit_code_agrees_with_classify:
  assumes "\<And>e. err = Some e \<Longrightarrow> errors_is e CtxCanceled \<longleftrightarrow> ctx \<noteq> None"
  shows "ExitCode err = class_exit (Classify ctx err)"
proof (cases err)
  case None
  then show ?thesis by (simp add: ExitCode_def)
next
  case (Some e)
  then show ?thesis
    using assms [OF Some] markedClass_range [of e]
    by (auto simp: ExitCode_def Classify_def)
qed

theorem exit_code_agrees_with_classify_witness:
  "ExitCode (Some (Wrapf ''run'' [Failure (Leaf (Msg ''exit 1''))])) = ExitFailed"
proof -
  let ?e = "Wrapf ''run'' [Failure (Leaf (Msg ''exit 1''))]"
  have "ExitCode (Some ?e) = class_exit (Classify None (Some ?e))"
    by (rule exit_code_agrees_with_classify) (simp add: errors_is_iff)
  also have "\<dots> = ExitFailed"
    by (simp add: Classify_def markedClass_def)
  finally show ?thesis .
qed

subsection \<open>Lemmas: the retry loop\<close>

text \<open>
  The reference: attempts are decisive when their pause was cut short, when they succeed, or when
  the error they return carries a stop marker; the loop runs to the first decisive one.
\<close>

definition pause_cut :: "(nat \<Rightarrow> go_ctx) \<Rightarrow> nat \<Rightarrow> go_ctx" where
  "pause_cut waits k = (if k > 0 then waits k else None)"

definition decisive :: "(nat \<Rightarrow> go_ctx) \<Rightarrow> (nat \<Rightarrow> go_error) \<Rightarrow> nat \<Rightarrow> bool" where
  "decisive waits fn k =
     (pause_cut waits k \<noteq> None
      \<or> (case fn k of None \<Rightarrow> True | Some e \<Rightarrow> errors_as stop_cause e \<noteq> None))"

definition decided :: "(nat \<Rightarrow> go_ctx) \<Rightarrow> (nat \<Rightarrow> go_error) \<Rightarrow> nat \<Rightarrow> go_error" where
  "decided waits fn k =
     (case pause_cut waits k of
        Some s \<Rightarrow> Some (Leaf s)
      | None \<Rightarrow> (case fn k of None \<Rightarrow> None | Some e \<Rightarrow> errors_as stop_cause e))"

definition attempt_events :: "nat \<Rightarrow> retry_event list" where
  "attempt_events k = (if k > 0 then [Slept (k * backoffUnit)] else []) @ [Called k]"

definition attempts_log :: "nat \<Rightarrow> nat \<Rightarrow> retry_event list" where
  "attempts_log a b = concat (map attempt_events [a..<b])"

definition retry_spec ::
  "(nat \<Rightarrow> go_ctx) \<Rightarrow> (nat \<Rightarrow> go_error) \<Rightarrow> nat \<Rightarrow> nat \<Rightarrow> go_error \<Rightarrow> go_error \<times> retry_event list" where
  "retry_spec waits fn n a prev =
     (case find (decisive waits fn) [a..<a + n] of
        Some k \<Rightarrow> (decided waits fn k,
                   attempts_log a (if pause_cut waits k = None then Suc k else k))
      | None \<Rightarrow> (if n = 0 then prev else fn (a + n - 1), attempts_log a (a + n)))"

lemma attempts_log_rec: "a < b \<Longrightarrow> attempts_log a b = attempt_events a @ attempts_log (Suc a) b"
  by (simp add: attempts_log_def upt_conv_Cons)

lemma attempts_log_empty [simp]: "b \<le> a \<Longrightarrow> attempts_log a b = []"
  by (simp add: attempts_log_def)

lemma find_upt_ge: "find P [a..<b] = Some k \<Longrightarrow> a \<le> k \<and> k < b \<and> P k"
  by (auto simp: find_Some_iff)

lemma find_upt_Suc:
  "find P [a..<a + Suc n] = (if P a then Some a else find P [Suc a..<Suc a + n])"
proof -
  have "[a..<a + Suc n] = a # [Suc a..<Suc a + n]"
    by (simp add: upt_conv_Cons)
  then show ?thesis by (simp only: find.simps)
qed

lemma retry_spec_undecided:
  assumes "\<not> decisive waits fn a"
  shows "retry_spec waits fn (Suc n) a prev =
    (case retry_spec waits fn n (Suc a) (fn a) of (r, log) \<Rightarrow> (r, attempt_events a @ log))"
proof (cases "find (decisive waits fn) [Suc a..<Suc a + n]")
  case None
  then show ?thesis
    using assms
    by (cases n) (simp_all only: retry_spec_def find_upt_Suc, simp_all add: attempts_log_rec del: upt_Suc)
next
  case (Some k)
  then have "Suc a \<le> k" using find_upt_ge by blast
  with Some show ?thesis
    using assms
    by (simp only: retry_spec_def find_upt_Suc) (simp add: attempts_log_rec del: upt_Suc)
qed

lemma retry_spec_decided:
  assumes "decisive waits fn a"
  shows "retry_spec waits fn (Suc n) a prev =
    (decided waits fn a, if pause_cut waits a = None then attempt_events a else [])"
  using assms by (simp only: retry_spec_def find_upt_Suc) (simp add: attempts_log_rec del: upt_Suc)

lemma retry_loop_spec: "retry_loop waits fn n a prev = retry_spec waits fn n a prev"
proof (induction n arbitrary: a prev)
  case 0
  then show ?case by (simp add: retry_spec_def)
next
  case (Suc n)
  show ?case
  proof (cases "decisive waits fn a")
    case True
    then show ?thesis
      by (simp only: retry_spec_decided [OF True])
         (auto simp: decisive_def decided_def pause_cut_def attempt_events_def Let_def split: option.splits)
  next
    case False
    then obtain e where e: "pause_cut waits a = None" "fn a = Some e" "errors_as stop_cause e = None"
      by (auto simp: decisive_def split: option.splits)
    then show ?thesis
      by (simp add: retry_spec_undecided [OF False] Suc.IH pause_cut_def attempt_events_def
          split: prod.splits if_splits)
  qed
qed

lemma retry_budget: "nat (if attempts < 1 then 1 else attempts) = nat (max 1 attempts)"
  by auto

text \<open>C8: the retry loop runs attempts in order until the first decisive one and answers what
  that one decides, pausing \<open>k * 500\<close> ms before attempt \<open>k\<close>; without a decisive attempt it makes
  exactly the configured number (at least one) and answers the last error.\<close>

theorem retry_do_runs_to_first_decisive:
  "retry_Do waits attempts fn = retry_spec waits fn (nat (max 1 attempts)) 0 None"
  by (simp add: retry_Do_def retry_loop_spec retry_budget)

lemma retry_do_calls_bounded:
  "length (filter (\<lambda>ev. case ev of Called _ \<Rightarrow> True | _ \<Rightarrow> False) (snd (retry_Do waits attempts fn)))
     \<le> nat (max 1 attempts)"
proof -
  have one: "length (filter (\<lambda>ev. case ev of Called _ \<Rightarrow> True | _ \<Rightarrow> False) (attempt_events k)) = 1" for k
    by (simp add: attempt_events_def)
  have log: "length (filter (\<lambda>ev. case ev of Called _ \<Rightarrow> True | _ \<Rightarrow> False) (attempts_log 0 m)) = m" for m
    by (induction m) (simp_all add: attempts_log_def one)
  show ?thesis
    by (auto simp: retry_Do_def retry_loop_spec retry_budget retry_spec_def log dest!: find_upt_ge
        split: option.splits)
qed

text \<open>C9: an attempt that fails after its own \<open>timeout:\<close> expired, with the job still live, ends the
  loop at that attempt, and the step's error is one the hooks classify as failed.\<close>

theorem overrun_ends_the_loop_as_failed:
  assumes "timeout > 0" and "int k < max (case attempts of None \<Rightarrow> 1 | Some n \<Rightarrow> n) 1"
    and before: "\<And>j. j < k \<Longrightarrow> \<exists>e. fn j = Some e \<and> errors_as stop_cause e = None"
    and timers: "\<And>j. j \<le> k \<Longrightarrow> waits j = None"
    and unexpired: "\<And>j. j < k \<Longrightarrow> attempt_ctx j = None"
    and "fn k = Some e" and "attempt_ctx k \<noteq> None" and "ctx_after k = None"
  shows "retryWithTimeout None timeout waits ctx_after attempt_ctx attempts fn
      = (Some (Failure e), attempts_log 0 (Suc k))
    \<and> Classify None (Some (Failure e)) = Failed"
proof -
  let ?n = "max (case attempts of None \<Rightarrow> 1 | Some n \<Rightarrow> n) 1"
  let ?g = "attempt_body timeout ctx_after attempt_ctx fn"
  have gk: "?g k = Some (StopError (Failure e))"
    using assms by (auto simp: attempt_body_def StopOnDeadline_def FailOnDeadline_def Stop_def Fail_def)
  have gj: "\<not> decisive waits ?g j" if "j < k" for j
    using before [OF that] timers [of j] unexpired [OF that] that assms(1)
    by (auto simp: attempt_body_def decisive_def pause_cut_def StopOnDeadline_def FailOnDeadline_def)
  have pk: "pause_cut waits k = None"
    using timers [of k] by (simp add: pause_cut_def)
  have dk: "decisive waits ?g k" and rk: "decided waits ?g k = Some (Failure e)"
    by (simp_all add: decisive_def decided_def gk pk)
  have "find (decisive waits ?g) [0..<nat ?n] = Some k"
    using gj dk assms(2) by (auto simp: find_Some_iff intro!: exI [of _ k])
  then have "retry_Do waits ?n ?g = (Some (Failure e), attempts_log 0 (Suc k))"
    using rk pk by (simp add: retry_Do_def retry_loop_spec retry_budget retry_spec_def max.commute)
  then show ?thesis by (simp add: retryWithTimeout_def)
qed

theorem overrun_ends_the_loop_as_failed_witness:
  "retryWithTimeout None 60 (\<lambda>_. None) (\<lambda>_. None) (\<lambda>k. if k = 1 then Some CtxDeadlineExceeded else None)
     (Some 3) (\<lambda>k. Some (Leaf (Msg ''flaky''))) = (Some (Failure (Leaf (Msg ''flaky''))), attempts_log 0 2)"
proof -
  have "retryWithTimeout None 60 (\<lambda>_. None) (\<lambda>_. None) (\<lambda>k. if k = 1 then Some CtxDeadlineExceeded else None)
     (Some 3) (\<lambda>k. Some (Leaf (Msg ''flaky''))) = (Some (Failure (Leaf (Msg ''flaky''))), attempts_log 0 (Suc 1))
     \<and> Classify None (Some (Failure (Leaf (Msg ''flaky'')))) = Failed"
    by (rule overrun_ends_the_loop_as_failed) auto
  then show ?thesis by (simp add: numeral_2_eq_2)
qed

end
