(* ===== verification/ActorId.thy ===== *)
theory ActorId
  imports Prelude
begin

text \<open>
  \<^verbatim>\<open>internal/actor/actor.go\<close>: who or what caused something a pipeline records, and the
  stored form (\<open>kind:id\<close>) it round-trips through. The context carrier (\<^verbatim>\<open>With\<close>,
  \<^verbatim>\<open>From\<close>) is Go's context and is not modelled.
\<close>

record actor =
  Kind :: string
  ID :: string

definition kindLocal :: string where "kindLocal = ''local''"
definition kindOS :: string where "kindOS = ''os''"
definition kindCheck :: string where "kindCheck = ''check''"
definition kindWebhook :: string where "kindWebhook = ''webhook''"
definition kindUpstream :: string where "kindUpstream = ''upstream''"
definition kindBacklog :: string where "kindBacklog = ''backlog''"

lemmas kind_defs = kindLocal_def kindOS_def kindCheck_def kindWebhook_def kindUpstream_def kindBacklog_def

definition actor_Local :: "string \<Rightarrow> actor" where "actor_Local n = \<lparr>Kind = kindLocal, ID = n\<rparr>"
definition actor_OS :: "string \<Rightarrow> actor" where "actor_OS u = \<lparr>Kind = kindOS, ID = u\<rparr>"
definition actor_Check :: "string \<Rightarrow> actor" where "actor_Check r = \<lparr>Kind = kindCheck, ID = r\<rparr>"
definition actor_Webhook :: "string \<Rightarrow> actor" where "actor_Webhook r = \<lparr>Kind = kindWebhook, ID = r\<rparr>"
definition actor_Upstream :: actor where "actor_Upstream = \<lparr>Kind = kindUpstream, ID = []\<rparr>"
definition actor_Backlog :: actor where "actor_Backlog = \<lparr>Kind = kindBacklog, ID = []\<rparr>"

lemmas actor_constructors = actor_Local_def actor_OS_def actor_Check_def actor_Webhook_def
  actor_Upstream_def actor_Backlog_def

definition IsZero :: "actor \<Rightarrow> bool" where
  "IsZero a = (Kind a = [] \<and> ID a = [])"

definition actor_String :: "actor \<Rightarrow> string" where
  "actor_String a = (if IsZero a then [] else Kind a @ '':'' @ ID a)"

definition actor_Parse :: "string \<Rightarrow> actor" where
  "actor_Parse stored =
     (case cut_at (CHR '':'') stored of
        None \<Rightarrow> \<lparr>Kind = [], ID = stored\<rparr>
      | Some (k, i) \<Rightarrow> \<lparr>Kind = k, ID = i\<rparr>)"

definition IsLocal :: "actor \<Rightarrow> bool" where
  "IsLocal a = (Kind a = kindLocal)"

definition Unverified :: "actor \<Rightarrow> bool" where
  "Unverified a = (Kind a = kindOS)"

definition Automatic :: "actor \<Rightarrow> bool" where
  "Automatic a = (Kind a \<in> set [kindCheck, kindWebhook, kindUpstream, kindBacklog])"

definition actor_Label :: "actor \<Rightarrow> string" where
  "actor_Label a =
     (if Kind a = kindOS then ID a @ '' (this machine, unverified)''
      else if Kind a = kindCheck then ''new version of '' @ ID a
      else if Kind a = kindWebhook then ''webhook: '' @ ID a
      else if Kind a = kindUpstream then ''upstream jobs passed''
      else if Kind a = kindBacklog then ''more versions to build''
      else if Kind a = [] then ID a
      else ID a @ '' ('' @ Kind a @ '')'')"

lemma actor_eqI: "Kind a = Kind b \<Longrightarrow> ID a = ID b \<Longrightarrow> (a :: actor) = b"
  by (cases a, cases b) simp

lemma Parse_String: "CHR '':'' \<notin> set (Kind a) \<Longrightarrow> actor_Parse (actor_String a) = a"
  by (rule actor_eqI)
     (auto simp: actor_Parse_def actor_String_def IsZero_def cut_at_prefix split: if_splits)

lemma Parse_kind_no_colon: "CHR '':'' \<notin> set (Kind (actor_Parse s))"
  by (auto simp: actor_Parse_def dest: cut_at_SomeD split: option.splits prod.splits)

text \<open>C34: the stored form reads back as the actor it was written from exactly when the kind holds
  no colon.\<close>

theorem actor_roundtrip_iff:
  "actor_Parse (actor_String a) = a \<longleftrightarrow> CHR '':'' \<notin> set (Kind a)"
  by (metis Parse_String Parse_kind_no_colon)

lemma constructors_roundtrip:
  "actor_Parse (actor_String (actor_Local n)) = actor_Local n"
  "actor_Parse (actor_String (actor_OS n)) = actor_OS n"
  "actor_Parse (actor_String (actor_Check n)) = actor_Check n"
  "actor_Parse (actor_String (actor_Webhook n)) = actor_Webhook n"
  "actor_Parse (actor_String actor_Upstream) = actor_Upstream"
  "actor_Parse (actor_String actor_Backlog) = actor_Backlog"
  by (rule Parse_String; simp add: actor_constructors kind_defs)+

lemma automatic_is_never_a_person: "Automatic a \<Longrightarrow> \<not> IsLocal a \<and> \<not> Unverified a"
  by (auto simp: Automatic_def IsLocal_def Unverified_def kind_defs)

text \<open>A value written before actors existed keeps its text as an id, and writing it back gives it
  the colon that tells the two forms apart.\<close>

lemma legacy_value:
  "CHR '':'' \<notin> set s \<Longrightarrow> s \<noteq> [] \<Longrightarrow> actor_String (actor_Parse s) = '':'' @ s"
  by (simp add: actor_Parse_def actor_String_def IsZero_def cut_at_None_iff [THEN iffD2])

end
