(* ===== verification/JobQueue.thy ===== *)
theory JobQueue
  imports Prelude
begin

text \<open>
  \<^verbatim>\<open>internal/store/sqlite/queue.go\<close>, with the run rows of
  \<^verbatim>\<open>internal/store/sqlite/runs.go\<close> it reads and \<^verbatim>\<open>pruneTriggerQueue\<close> of
  \<^verbatim>\<open>retention.go\<close>: the durable queue every trigger lands in, the rules that admit a
  queued job, and the recovery a restart does.

  A state database is one record; each SQL statement of the source is one definition over it, scoped
  by the pipeline id \<open>p\<close> the way its WHERE clause is. Timestamps are fixed-width UTC text in the
  database, which orders as time does (\<^verbatim>\<open>timefmt.go\<close>): they are numbers here, passed in by
  the caller as \<open>now\<close>. A statement a constraint refuses is \<open>Inl\<close>, and the transaction around it
  leaves the database as it was. Errors of the driver itself (disk, lock) are not modelled.
\<close>

datatype queue_status = QueuePending | QueueRunning | QueueSucceeded | QueueFailed | QueueAborted | QueueSkipped

datatype run_status = RunRunning | RunSucceeded | RunFailed | RunAborted

record queue_row =
  qr_id :: nat
  qr_pid :: nat
  qr_job :: string
  qr_reason :: string
  qr_manual :: bool
  qr_rerun :: "string option"
  qr_run :: "string option"
  qr_by :: string
  qr_status :: queue_status
  qr_enqueued :: nat
  qr_started :: "nat option"
  qr_finished :: "nat option"
  qr_error :: "string option"

record run_row =
  rr_id :: string
  rr_pid :: nat
  rr_job :: string
  rr_workspace :: string
  rr_status :: run_status
  rr_started :: nat
  rr_finished :: "nat option"
  rr_revision :: "nat option"
  rr_by :: string

text \<open>\<open>tq\<close> is in rowid order; \<open>next_id\<close> is AUTOINCREMENT's next value. The pipeline's admission rules
  are the rows of \<open>job_concurrency\<close> and \<open>job_serial_groups\<close>.\<close>

record queue_db =
  tq :: "queue_row list"
  next_id :: nat
  runs :: "run_row list"
  concurrency :: "((nat \<times> string) \<times> int) list"
  serial_groups :: "(nat \<times> string \<times> string) list"

datatype store_error = UniqueViolation | ForeignKeyViolation | ErrRunExists string | ErrNoSuchRun string

text \<open>The two partial unique indexes over \<open>trigger_queue\<close> (\<^verbatim>\<open>schema.go\<close>), as the key a row
  has in each.\<close>

definition pending_job_key :: "queue_row \<Rightarrow> (nat \<times> string) option" where
  "pending_job_key r =
     (if qr_status r = QueuePending \<and> qr_rerun r = None \<and> qr_run r = None
      then Some (qr_pid r, qr_job r) else None)"

definition pending_rerun_key :: "queue_row \<Rightarrow> (nat \<times> string) option" where
  "pending_rerun_key r =
     (if qr_status r = QueuePending \<and> qr_run r = None
      then (case qr_rerun r of None \<Rightarrow> None | Some x \<Rightarrow> Some (qr_pid r, x)) else None)"

definition unique_ok :: "queue_row list \<Rightarrow> bool" where
  "unique_ok rows = (distinct (List.map_filter pending_job_key rows)
                     \<and> distinct (List.map_filter pending_rerun_key rows))"

subsection \<open>Enqueueing\<close>

definition new_row ::
  "queue_db \<Rightarrow> nat \<Rightarrow> string \<Rightarrow> string \<Rightarrow> string \<Rightarrow> bool \<Rightarrow> string option \<Rightarrow> nat \<Rightarrow> queue_row" where
  "new_row db p j reason by man rerun now =
     \<lparr>qr_id = next_id db, qr_pid = p, qr_job = j, qr_reason = reason, qr_manual = man,
      qr_rerun = rerun, qr_run = None, qr_by = by, qr_status = QueuePending, qr_enqueued = now,
      qr_started = None, qr_finished = None, qr_error = None\<rparr>"

definition insert_row :: "queue_row \<Rightarrow> queue_db \<Rightarrow> queue_db" where
  "insert_row r db = db\<lparr>tq := tq db @ [r], next_id := Suc (next_id db)\<rparr>"

definition enqueueJob :: "nat \<Rightarrow> string \<Rightarrow> string \<Rightarrow> string \<Rightarrow> nat \<Rightarrow> queue_db \<Rightarrow> queue_db" where
  "enqueueJob p j reason by now db =
     (if list_ex (\<lambda>r. pending_job_key r = Some (p, j)) (tq db) then db
      else insert_row (new_row db p j reason by False None now) db)"

definition EnqueueJob :: "nat \<Rightarrow> string \<Rightarrow> string \<Rightarrow> string \<Rightarrow> nat \<Rightarrow> queue_db \<Rightarrow> queue_db" where
  "EnqueueJob p j reason by now db = enqueueJob p j reason by now db"

definition EnqueueManualJob :: "nat \<Rightarrow> string \<Rightarrow> string \<Rightarrow> string \<Rightarrow> nat \<Rightarrow> queue_db \<Rightarrow> queue_db" where
  "EnqueueManualJob p j reason by now db =
     (if list_ex (\<lambda>r. pending_job_key r = Some (p, j)) (tq db)
      then db\<lparr>tq := map (\<lambda>r. if pending_job_key r = Some (p, j)
                             then r\<lparr>qr_manual := True, qr_reason := reason, qr_by := by\<rparr> else r) (tq db)\<rparr>
      else insert_row (new_row db p j reason by True None now) db)"

definition EnqueueRerunJob ::
  "nat \<Rightarrow> string \<Rightarrow> string \<Rightarrow> string \<Rightarrow> string \<Rightarrow> nat \<Rightarrow> queue_db \<Rightarrow> store_error + queue_db" where
  "EnqueueRerunJob p j reason runID by now db =
     (if list_ex (\<lambda>r. pending_rerun_key r = Some (p, runID)) (tq db) then Inr db
      else if \<not> list_ex (\<lambda>r. rr_id r = runID) (runs db) then Inl ForeignKeyViolation
      else Inr (insert_row (new_row db p j reason by True (Some runID) now) db))"

subsection \<open>Claiming\<close>

definition is_running :: "nat \<Rightarrow> string \<Rightarrow> queue_row \<Rightarrow> bool" where
  "is_running p j r = (qr_pid r = p \<and> qr_job r = j \<and> qr_status r = QueueRunning)"

definition running_count :: "nat \<Rightarrow> string \<Rightarrow> queue_db \<Rightarrow> nat" where
  "running_count p j db = length (filter (is_running p j) (tq db))"

definition max_in_flight :: "nat \<Rightarrow> string \<Rightarrow> queue_db \<Rightarrow> int" where
  "max_in_flight p j db = (case map_of (concurrency db) (p, j) of None \<Rightarrow> 1 | Some n \<Rightarrow> n)"

text \<open>The rows of the three-way join of \<^verbatim>\<open>ClaimNextJob\<close> and
  \<^verbatim>\<open>SerialGroupHolder\<close>: the running jobs of the pipeline that share a group with \<open>j\<close>,
  once per shared group and running row.\<close>

definition group_holders :: "nat \<Rightarrow> string \<Rightarrow> queue_db \<Rightarrow> string list" where
  "group_holders p j db =
     [qr_job busy. (mp, mj, mg) \<leftarrow> serial_groups db, mp = p \<and> mj = j,
                   (tp, tj, tg) \<leftarrow> serial_groups db, tp = mp \<and> tg = mg,
                   busy \<leftarrow> tq db, is_running tp tj busy]"

definition admissible :: "queue_db \<Rightarrow> nat \<Rightarrow> queue_row \<Rightarrow> bool" where
  "admissible db p r =
     (qr_pid r = p \<and> qr_status r = QueuePending
      \<and> int (running_count p (qr_job r) db) < max_in_flight p (qr_job r) db
      \<and> group_holders p (qr_job r) db = [])"

record claimed_job =
  cj_id :: nat
  cj_job :: string
  cj_manual :: bool
  cj_rerun :: string
  cj_resume :: string

definition null_string :: "string option \<Rightarrow> string" where
  "null_string s = (case s of None \<Rightarrow> [] | Some x \<Rightarrow> x)"

definition ClaimNextJob :: "nat \<Rightarrow> nat \<Rightarrow> queue_db \<Rightarrow> claimed_job option \<times> queue_db" where
  "ClaimNextJob p now db =
     (if \<not> list_ex (\<lambda>r. qr_pid r = p \<and> qr_status r = QueuePending) (tq db) then (None, db)
      else (case sort_key qr_id (filter (admissible db p) (tq db)) of
              [] \<Rightarrow> (None, db)
            | r # _ \<Rightarrow>
                (Some \<lparr>cj_id = qr_id r, cj_job = qr_job r, cj_manual = qr_manual r,
                       cj_rerun = null_string (qr_rerun r), cj_resume = null_string (qr_run r)\<rparr>,
                 db\<lparr>tq := map (\<lambda>x. if qr_id x = qr_id r
                                   then x\<lparr>qr_status := QueueRunning, qr_started := Some now\<rparr> else x)
                           (tq db)\<rparr>)))"

definition CompleteJob ::
  "nat \<Rightarrow> nat \<Rightarrow> queue_status \<Rightarrow> string option \<Rightarrow> nat \<Rightarrow> queue_db \<Rightarrow> queue_db" where
  "CompleteJob p rid status err now db =
     db\<lparr>tq := map (\<lambda>r. if qr_id r = rid \<and> qr_pid r = p
                       then r\<lparr>qr_status := status, qr_finished := Some now, qr_error := err\<rparr> else r)
               (tq db)\<rparr>"

definition AbortQueuedJob :: "nat \<Rightarrow> string \<Rightarrow> nat \<Rightarrow> queue_db \<Rightarrow> bool \<times> queue_db" where
  "AbortQueuedJob p j now db =
     (let hit = (\<lambda>r. qr_pid r = p \<and> qr_job r = j \<and> qr_status r = QueuePending)
      in (list_ex hit (tq db),
          db\<lparr>tq := map (\<lambda>r. if hit r then r\<lparr>qr_status := QueueAborted, qr_finished := Some now\<rparr> else r)
                    (tq db)\<rparr>))"

subsection \<open>Restart recovery\<close>

text \<open>The run a row started, when it ended since the claim.\<close>

definition ended_run :: "queue_db \<Rightarrow> nat \<Rightarrow> queue_row \<Rightarrow> run_row option" where
  "ended_run db p r =
     find (\<lambda>u. qr_run r = Some (rr_id u) \<and> rr_pid u = p \<and> rr_status u \<noteq> RunRunning
              \<and> (case (rr_finished u, qr_started r) of
                   (Some f, Some s) \<Rightarrow> s \<le> f | _ \<Rightarrow> False))
          (runs db)"

fun status_of_run :: "run_status \<Rightarrow> queue_status" where
  "status_of_run RunRunning = QueueRunning"
| "status_of_run RunSucceeded = QueueSucceeded"
| "status_of_run RunFailed = QueueFailed"
| "status_of_run RunAborted = QueueAborted"

definition reset_close_ended :: "nat \<Rightarrow> nat \<Rightarrow> queue_db \<Rightarrow> queue_db" where
  "reset_close_ended p now db =
     db\<lparr>tq := map (\<lambda>r. if qr_pid r = p \<and> qr_status r = QueueRunning
                       then (case ended_run db p r of
                               None \<Rightarrow> r
                             | Some u \<Rightarrow> r\<lparr>qr_status := status_of_run (rr_status u), qr_finished := Some now\<rparr>)
                       else r) (tq db)\<rparr>"

definition stale :: "nat \<Rightarrow> queue_row \<Rightarrow> bool" where
  "stale p r = (qr_pid r = p \<and> qr_status r = QueueRunning \<and> qr_run r = None)"

definition superseded :: "queue_row list \<Rightarrow> queue_row \<Rightarrow> bool" where
  "superseded rows r =
     list_ex (\<lambda>q. qr_pid q = qr_pid r \<and> qr_job q = qr_job r \<and> qr_status q = QueuePending
                 \<and> qr_rerun q = qr_rerun r \<and> qr_run q = None) rows"

definition reset_drop_superseded :: "nat \<Rightarrow> queue_db \<Rightarrow> queue_db" where
  "reset_drop_superseded p db =
     db\<lparr>tq := filter (\<lambda>r. \<not> (stale p r \<and> superseded (tq db) r)) (tq db)\<rparr>"

definition oldest_of_group :: "nat \<Rightarrow> queue_row list \<Rightarrow> queue_row \<Rightarrow> bool" where
  "oldest_of_group p rows r =
     list_all (\<lambda>q. stale p q \<and> qr_job q = qr_job r \<and> qr_rerun q = qr_rerun r
                  \<longrightarrow> qr_id r \<le> qr_id q) rows"

definition reset_collapse :: "nat \<Rightarrow> queue_db \<Rightarrow> queue_db" where
  "reset_collapse p db =
     db\<lparr>tq := filter (\<lambda>r. \<not> (stale p r \<and> \<not> oldest_of_group p (tq db) r)) (tq db)\<rparr>"

definition reset_requeue :: "nat \<Rightarrow> queue_db \<Rightarrow> store_error + queue_db" where
  "reset_requeue p db =
     (let rows = map (\<lambda>r. if qr_pid r = p \<and> qr_status r = QueueRunning
                          then r\<lparr>qr_status := QueuePending, qr_started := None\<rparr> else r) (tq db)
      in if unique_ok rows then Inr (db\<lparr>tq := rows\<rparr>) else Inl UniqueViolation)"

definition reset_close_runs :: "nat \<Rightarrow> nat \<Rightarrow> queue_db \<Rightarrow> queue_db" where
  "reset_close_runs p now db =
     db\<lparr>runs := map (\<lambda>u. if rr_pid u = p \<and> rr_status u = RunRunning
                         then u\<lparr>rr_status := RunAborted, rr_finished := Some now\<rparr> else u) (runs db)\<rparr>"

definition ResetStaleRunning :: "nat \<Rightarrow> nat \<Rightarrow> queue_db \<Rightarrow> store_error + queue_db" where
  "ResetStaleRunning p now db =
     (case reset_requeue p (reset_collapse p (reset_drop_superseded p (reset_close_ended p now db))) of
        Inl e \<Rightarrow> Inl e
      | Inr db' \<Rightarrow> Inr (reset_close_runs p now db'))"

subsection \<open>Admission rules, listings, retention\<close>

text \<open>The Go maps are association lists with distinct keys.\<close>

definition SyncJobLimits ::
  "nat \<Rightarrow> (string \<times> string list) list \<Rightarrow> (string \<times> int) list \<Rightarrow> queue_db \<Rightarrow> queue_db" where
  "SyncJobLimits p groups limits db =
     db\<lparr>serial_groups := filter (\<lambda>(q, _). q \<noteq> p) (serial_groups db)
          @ remdups [(p, j, g). (j, gs) \<leftarrow> groups, g \<leftarrow> gs],
        concurrency := filter (\<lambda>((q, _), _). q \<noteq> p) (concurrency db)
          @ map (\<lambda>(j, n). ((p, j), n)) limits\<rparr>"

text \<open>The SELECT has a LIMIT 1 and no order, so any holder may be the answer; the first of the join is
  taken here.\<close>

definition SerialGroupHolder :: "nat \<Rightarrow> string \<Rightarrow> queue_db \<Rightarrow> string" where
  "SerialGroupHolder p j db = (case group_holders p j db of [] \<Rightarrow> [] | h # _ \<Rightarrow> h)"

definition rowLimit :: "int \<Rightarrow> 'a list \<Rightarrow> 'a list" where
  "rowLimit n xs = (if n \<le> 0 then xs else take (nat n) xs)"

definition ListTriggerQueue :: "nat \<Rightarrow> int \<Rightarrow> queue_db \<Rightarrow> queue_row list" where
  "ListTriggerQueue p n db = rowLimit n (rev (sort_key qr_id (filter (\<lambda>r. qr_pid r = p) (tq db))))"

definition finished :: "queue_row \<Rightarrow> bool" where
  "finished r = (qr_status r \<noteq> QueuePending \<and> qr_status r \<noteq> QueueRunning)"

definition pruneTriggerQueue :: "nat \<Rightarrow> string \<Rightarrow> int \<Rightarrow> queue_db \<Rightarrow> queue_db" where
  "pruneTriggerQueue p j n db =
     (if n \<le> 0 then db
      else let mine = (\<lambda>r. qr_pid r = p \<and> qr_job r = j \<and> finished r);
               keep = map qr_id (rowLimit n (rev (sort_key qr_id (filter mine (tq db)))))
           in db\<lparr>tq := filter (\<lambda>r. \<not> (mine r \<and> qr_id r \<notin> set keep)) (tq db)\<rparr>)"

subsection \<open>Runs (runs.go)\<close>

text \<open>\<open>revision\<close> is the row the revision subselect finds for a configuration's hash.\<close>

definition StartRun ::
  "(string \<Rightarrow> nat option) \<Rightarrow> nat \<Rightarrow> string \<Rightarrow> string \<Rightarrow> string \<Rightarrow> string \<Rightarrow> nat \<Rightarrow> string \<Rightarrow> nat
     \<Rightarrow> queue_db \<Rightarrow> store_error + queue_db" where
  "StartRun revision p rid j workspace configSHA queueID createdBy now db =
     (if list_ex (\<lambda>u. rr_id u = rid) (runs db) then Inl (ErrRunExists rid)
      else let by = (case find (\<lambda>r. qr_id r = queueID \<and> qr_pid r = p) (tq db) of
                       Some r \<Rightarrow> qr_by r | None \<Rightarrow> createdBy);
               u = \<lparr>rr_id = rid, rr_pid = p, rr_job = j, rr_workspace = workspace, rr_status = RunRunning,
                    rr_started = now, rr_finished = None, rr_revision = revision configSHA, rr_by = by\<rparr>;
               rows = (if queueID \<noteq> 0
                       then map (\<lambda>r. if qr_id r = queueID \<and> qr_pid r = p then r\<lparr>qr_run := Some rid\<rparr> else r) (tq db)
                       else tq db)
           in Inr (db\<lparr>runs := runs db @ [u], tq := rows\<rparr>))"

definition ResumeRun ::
  "(string \<Rightarrow> nat option) \<Rightarrow> nat \<Rightarrow> string \<Rightarrow> string \<Rightarrow> string \<Rightarrow> queue_db \<Rightarrow> store_error + queue_db" where
  "ResumeRun revision p rid workspace configSHA db =
     (if \<not> list_ex (\<lambda>u. rr_id u = rid \<and> rr_pid u = p) (runs db) then Inl (ErrNoSuchRun rid)
      else Inr (db\<lparr>runs := map (\<lambda>u. if rr_id u = rid \<and> rr_pid u = p
          then u\<lparr>rr_status := RunRunning, rr_workspace := workspace, rr_finished := None,
                 rr_revision := (case revision configSHA of None \<Rightarrow> rr_revision u | Some v \<Rightarrow> Some v)\<rparr>
          else u) (runs db)\<rparr>))"

definition FinishRun :: "nat \<Rightarrow> string \<Rightarrow> run_status \<Rightarrow> nat \<Rightarrow> queue_db \<Rightarrow> queue_db" where
  "FinishRun p rid status now db =
     db\<lparr>runs := map (\<lambda>u. if rr_id u = rid \<and> rr_pid u = p
                         then u\<lparr>rr_status := status, rr_finished := Some now\<rparr> else u) (runs db)\<rparr>"

definition ResumableRuns :: "nat \<Rightarrow> queue_db \<Rightarrow> run_row list" where
  "ResumableRuns p db =
     sort_key rr_started
       (filter (\<lambda>u. rr_pid u = p
                  \<and> (rr_status u = RunRunning
                     \<or> list_ex (\<lambda>r. qr_pid r = p \<and> qr_status r \<in> set [QueuePending, QueueRunning]
                                  \<and> qr_run r = Some (rr_id u)) (tq db)))
          (runs db))"

end
