(* ===== verification/JobQueueInv.thy ===== *)
theory JobQueueInv
  imports JobQueue
begin

text \<open>
  What the queue keeps. The well-formedness invariant (row ids ascend, the two partial unique indexes
  hold, a retry row names a run of its own job) is kept by every operation, so the recovery a restart
  does never runs into a constraint; the admission rules bound what is running at any moment; one
  pipeline's operations leave another's rows alone.
\<close>

subsection \<open>Row ids\<close>

definition ids_ok :: "queue_row list \<Rightarrow> nat \<Rightarrow> bool" where
  "ids_ok rows n = (sorted_wrt (<) (map qr_id rows) \<and> (\<forall>r \<in> set rows. qr_id r < n))"

lemma ids_ok_distinct: "ids_ok rows n \<Longrightarrow> distinct (map qr_id rows)"
  by (simp add: ids_ok_def strict_sorted_iff)

lemma ids_ok_eqD:
  "ids_ok rows n \<Longrightarrow> r \<in> set rows \<Longrightarrow> s \<in> set rows \<Longrightarrow> qr_id r = qr_id s \<Longrightarrow> r = s"
  by (drule ids_ok_distinct) (auto simp: distinct_map inj_on_def)

lemma ids_ok_map: "(\<And>r. qr_id (f r) = qr_id r) \<Longrightarrow> ids_ok (map f rows) n = ids_ok rows n"
  by (simp add: ids_ok_def comp_def)

lemma ids_ok_filter: "ids_ok rows n \<Longrightarrow> ids_ok (filter P rows) n"
  by (auto simp: ids_ok_def sorted_wrt_map intro: sorted_wrt_filter)

lemma ids_ok_snoc: "ids_ok rows n \<Longrightarrow> qr_id r = n \<Longrightarrow> ids_ok (rows @ [r]) (Suc n)"
  by (auto simp: ids_ok_def sorted_wrt_append)

lemma ids_ok_sort_filter: "ids_ok rows n \<Longrightarrow> sort_key qr_id (filter P rows) = filter P rows"
proof -
  assume "ids_ok rows n"
  then have "ids_ok (filter P rows) n" by (rule ids_ok_filter)
  then have "sorted (map qr_id (filter P rows))"
    by (simp add: ids_ok_def strict_sorted_iff)
  then show ?thesis by (simp add: sort_key_id_if_sorted)
qed

subsection \<open>Keys\<close>

definition keyed :: "(queue_row \<Rightarrow> 'k option) \<Rightarrow> queue_row list \<Rightarrow> bool" where
  "keyed k rows =
     (\<forall>r \<in> set rows. \<forall>s \<in> set rows. \<forall>x. k r = Some x \<longrightarrow> k s = Some x \<longrightarrow> qr_id r = qr_id s)"

lemma keyedI:
  "(\<And>r s x. r \<in> set rows \<Longrightarrow> s \<in> set rows \<Longrightarrow> k r = Some x \<Longrightarrow> k s = Some x \<Longrightarrow> qr_id r = qr_id s)
     \<Longrightarrow> keyed k rows"
  unfolding keyed_def by blast

lemma keyedD:
  "keyed k rows \<Longrightarrow> r \<in> set rows \<Longrightarrow> s \<in> set rows \<Longrightarrow> k r = Some x \<Longrightarrow> k s = Some x \<Longrightarrow> qr_id r = qr_id s"
  unfolding keyed_def by blast

lemma keyed_map:
  assumes "\<And>r. qr_id (f r) = qr_id r"
    and "\<And>r x. r \<in> set rows \<Longrightarrow> k (f r) = Some x \<Longrightarrow> k r = Some x"
    and "keyed k rows"
  shows "keyed k (map f rows)"
proof (rule keyedI)
  fix r s x
  assume "r \<in> set (map f rows)" "s \<in> set (map f rows)" and k: "k r = Some x" "k s = Some x"
  then obtain r' s' where r': "r = f r'" "r' \<in> set rows" and s': "s = f s'" "s' \<in> set rows"
    by auto
  have "qr_id r' = qr_id s'"
    using assms(2) [OF r'(2)] assms(2) [OF s'(2)] k r' s' keyedD [OF assms(3) r'(2) s'(2)] by blast
  then show "qr_id r = qr_id s" by (simp add: r' s' assms(1))
qed

lemma keyed_subset: "keyed k rows \<Longrightarrow> set rows' \<subseteq> set rows \<Longrightarrow> keyed k rows'"
  unfolding keyed_def by blast

lemma keyed_filter: "keyed k rows \<Longrightarrow> keyed k (filter P rows)"
  by (erule keyed_subset) simp

lemma keyed_snoc:
  assumes old: "keyed k rows" and new: "\<And>s x. s \<in> set rows \<Longrightarrow> k r = Some x \<Longrightarrow> k s \<noteq> Some x"
  shows "keyed k (rows @ [r])"
proof (rule keyedI)
  fix s t x
  assume "s \<in> set (rows @ [r])" "t \<in> set (rows @ [r])" and k: "k s = Some x" "k t = Some x"
  then consider "s \<in> set rows" "t \<in> set rows" | "s = r" "t = r" | "s = r" "t \<in> set rows" | "s \<in> set rows" "t = r"
    by auto
  then show "qr_id s = qr_id t"
  proof cases
    case 1
    then show ?thesis using keyedD [OF old] k by metis
  next
    case 2
    then show ?thesis by simp
  next
    case 3
    then show ?thesis using new [of t x] k by simp
  next
    case 4
    then show ?thesis using new [of s x] k by simp
  qed
qed

lemma distinct_map_filter_keyed:
  "ids_ok rows n \<Longrightarrow> distinct (List.map_filter k rows) \<longleftrightarrow> keyed k rows"
proof (induction rows rule: rev_induct)
  case Nil
  then show ?case by (simp add: keyed_def map_filter_def)
next
  case (snoc r rows)
  have rows: "ids_ok rows n" and r: "\<And>s. s \<in> set rows \<Longrightarrow> qr_id s \<noteq> qr_id r"
    using snoc.prems by (auto simp: ids_ok_def sorted_wrt_append)
  have mem: "y \<in> set (List.map_filter k rows) \<longleftrightarrow> (\<exists>s \<in> set rows. k s = Some y)" for y
    by (force simp: map_filter_def)
  have app: "List.map_filter k (rows @ [r])
      = List.map_filter k rows @ (case k r of None \<Rightarrow> [] | Some y \<Rightarrow> [y])"
    by (simp add: map_filter_def split: option.splits)
  have sub: "keyed k (rows @ [r]) \<Longrightarrow> keyed k rows"
    by (erule keyed_subset) auto
  have new: "s \<in> set rows \<Longrightarrow> k r = Some x \<Longrightarrow> k s \<noteq> Some x" if "keyed k (rows @ [r])" for s x
    using keyedD [OF that, of s r x] r [of s] by auto
  show ?case
  proof (cases "k r")
    case None
    then have "keyed k (rows @ [r]) \<longleftrightarrow> keyed k rows"
      using sub keyed_snoc [of k rows r] by auto
    with None show ?thesis using snoc.IH [OF rows] by (simp add: app)
  next
    case (Some y)
    then have "keyed k (rows @ [r]) \<longleftrightarrow> keyed k rows \<and> (\<forall>s \<in> set rows. k s \<noteq> Some y)"
      using sub new keyed_snoc [of k rows r] by auto
    with Some show ?thesis using snoc.IH [OF rows] mem [of y] by (simp add: app)
  qed
qed

lemma unique_ok_keyed:
  "ids_ok rows n \<Longrightarrow> unique_ok rows \<longleftrightarrow> keyed pending_job_key rows \<and> keyed pending_rerun_key rows"
  by (simp add: unique_ok_def distinct_map_filter_keyed)

lemma pending_job_key_Some [simp]:
  "pending_job_key r = Some k \<longleftrightarrow>
     qr_status r = QueuePending \<and> qr_rerun r = None \<and> qr_run r = None \<and> k = (qr_pid r, qr_job r)"
  by (auto simp: pending_job_key_def)

lemma pending_rerun_key_Some [simp]:
  "pending_rerun_key r = Some k \<longleftrightarrow>
     qr_status r = QueuePending \<and> qr_run r = None \<and> (\<exists>x. qr_rerun r = Some x \<and> k = (qr_pid r, x))"
  by (auto simp: pending_rerun_key_def split: option.splits)

lemma no_key_unless_pending:
  "qr_status r \<noteq> QueuePending \<Longrightarrow> pending_job_key r = None \<and> pending_rerun_key r = None"
  by (auto simp: pending_job_key_def pending_rerun_key_def)

lemma no_key_with_run:
  "qr_run r = Some x \<Longrightarrow> pending_job_key r = None \<and> pending_rerun_key r = None"
  by (auto simp: pending_job_key_def pending_rerun_key_def)

lemma keys_only_depend:
  assumes "qr_pid s = qr_pid r" "qr_job s = qr_job r" "qr_status s = qr_status r"
    "qr_rerun s = qr_rerun r" "qr_run s = qr_run r"
  shows "pending_job_key s = pending_job_key r" "pending_rerun_key s = pending_rerun_key r"
  unfolding pending_job_key_def pending_rerun_key_def by (simp_all only: assms)

subsection \<open>The invariant on rows\<close>

text \<open>A retry names a run of its own pipeline and job.\<close>

definition rerun_ok :: "queue_row list \<Rightarrow> run_row list \<Rightarrow> bool" where
  "rerun_ok rows us =
     (\<forall>r \<in> set rows. \<forall>x. qr_rerun r = Some x \<longrightarrow>
        (\<exists>u \<in> set us. rr_id u = x \<and> rr_pid u = qr_pid r \<and> rr_job u = qr_job r))"

definition rows_ok :: "queue_row list \<Rightarrow> nat \<Rightarrow> run_row list \<Rightarrow> bool" where
  "rows_ok rows n us =
     (ids_ok rows n \<and> keyed pending_job_key rows \<and> keyed pending_rerun_key rows \<and> rerun_ok rows us)"

definition queue_inv :: "queue_db \<Rightarrow> bool" where
  "queue_inv db = (ids_ok (tq db) (next_id db) \<and> unique_ok (tq db) \<and> rerun_ok (tq db) (runs db)
                   \<and> distinct (map rr_id (runs db)))"

lemma queue_inv_rows_ok:
  "queue_inv db \<longleftrightarrow> rows_ok (tq db) (next_id db) (runs db) \<and> distinct (map rr_id (runs db))"
  using unique_ok_keyed unfolding queue_inv_def rows_ok_def by blast

lemma rows_ok_unique: "rows_ok rows n us \<Longrightarrow> unique_ok rows"
  using unique_ok_keyed unfolding rows_ok_def by blast

text \<open>What an UPDATE may do to a row.\<close>

definition row_frame :: "(queue_row \<Rightarrow> queue_row) \<Rightarrow> bool" where
  "row_frame f = (\<forall>r. qr_id (f r) = qr_id r \<and> qr_pid (f r) = qr_pid r \<and> qr_job (f r) = qr_job r
                       \<and> qr_rerun (f r) = qr_rerun r)"

lemma row_frameD:
  "row_frame f \<Longrightarrow> qr_id (f r) = qr_id r" "row_frame f \<Longrightarrow> qr_pid (f r) = qr_pid r"
  "row_frame f \<Longrightarrow> qr_job (f r) = qr_job r" "row_frame f \<Longrightarrow> qr_rerun (f r) = qr_rerun r"
  unfolding row_frame_def by blast+

lemma rerun_ok_map: "row_frame f \<Longrightarrow> rerun_ok rows us \<Longrightarrow> rerun_ok (map f rows) us"
  by (simp add: rerun_ok_def row_frame_def)

lemma rerun_ok_subset: "rerun_ok rows us \<Longrightarrow> set rows' \<subseteq> set rows \<Longrightarrow> rerun_ok rows' us"
  unfolding rerun_ok_def by blast

lemma rerun_okD:
  "rerun_ok rows us \<Longrightarrow> r \<in> set rows \<Longrightarrow> qr_rerun r = Some x \<Longrightarrow>
     \<exists>u \<in> set us. rr_id u = x \<and> rr_pid u = qr_pid r \<and> rr_job u = qr_job r"
  unfolding rerun_ok_def by blast

lemma rerun_same_job:
  assumes "rerun_ok rows us" "distinct (map rr_id us)" "r \<in> set rows" "s \<in> set rows"
    "qr_rerun r = Some x" "qr_rerun s = Some x"
  shows "qr_job r = qr_job s"
proof -
  obtain u v where u: "u \<in> set us" "rr_id u = x" "rr_job u = qr_job r"
    and v: "v \<in> set us" "rr_id v = x" "rr_job v = qr_job s"
    using rerun_okD [OF assms(1,3,5)] rerun_okD [OF assms(1,4,6)] by metis
  have "u = v" using assms(2) u v by (simp add: distinct_map inj_on_def)
  with u v show ?thesis by simp
qed

lemma rows_okI:
  "ids_ok rows n \<Longrightarrow> keyed pending_job_key rows \<Longrightarrow> keyed pending_rerun_key rows \<Longrightarrow> rerun_ok rows us
     \<Longrightarrow> rows_ok rows n us"
  unfolding rows_ok_def by blast

lemma rows_okD:
  "rows_ok rows n us \<Longrightarrow> ids_ok rows n" "rows_ok rows n us \<Longrightarrow> keyed pending_job_key rows"
  "rows_ok rows n us \<Longrightarrow> keyed pending_rerun_key rows" "rows_ok rows n us \<Longrightarrow> rerun_ok rows us"
  unfolding rows_ok_def by blast+

lemma rows_ok_map:
  assumes "row_frame f"
    and "\<And>r x. r \<in> set rows \<Longrightarrow> pending_job_key (f r) = Some x \<Longrightarrow> pending_job_key r = Some x"
    and "\<And>r x. r \<in> set rows \<Longrightarrow> pending_rerun_key (f r) = Some x \<Longrightarrow> pending_rerun_key r = Some x"
    and "rows_ok rows n us"
  shows "rows_ok (map f rows) n us"
proof (rule rows_okI)
  note old = rows_okD [OF assms(4)] and ids = row_frameD(1) [OF assms(1)]
  show "ids_ok (map f rows) n" using old(1) by (simp only: ids_ok_map [of f, OF ids])
  show "keyed pending_job_key (map f rows)" by (rule keyed_map [OF ids assms(2) old(2)])
  show "keyed pending_rerun_key (map f rows)" by (rule keyed_map [OF ids assms(3) old(3)])
  show "rerun_ok (map f rows) us" by (rule rerun_ok_map [OF assms(1) old(4)])
qed

lemma rows_ok_filter: "rows_ok rows n us \<Longrightarrow> rows_ok (filter P rows) n us"
  by (rule rows_okI, erule ids_ok_filter [OF rows_okD(1)], erule keyed_filter [OF rows_okD(2)],
      erule keyed_filter [OF rows_okD(3)], erule rerun_ok_subset [OF rows_okD(4) filter_is_subset])

lemma rows_ok_snoc:
  assumes "rows_ok rows n us" "qr_id r = n"
    "\<And>s x. s \<in> set rows \<Longrightarrow> pending_job_key r = Some x \<Longrightarrow> pending_job_key s \<noteq> Some x"
    "\<And>s x. s \<in> set rows \<Longrightarrow> pending_rerun_key r = Some x \<Longrightarrow> pending_rerun_key s \<noteq> Some x"
    "rerun_ok [r] us"
  shows "rows_ok (rows @ [r]) (Suc n) us"
proof (rule rows_okI)
  note old = rows_okD [OF assms(1)]
  show "ids_ok (rows @ [r]) (Suc n)" by (rule ids_ok_snoc [OF old(1) assms(2)])
  show "keyed pending_job_key (rows @ [r])" by (rule keyed_snoc [OF old(2) assms(3)])
  show "keyed pending_rerun_key (rows @ [r])" by (rule keyed_snoc [OF old(3) assms(4)])
  show "rerun_ok (rows @ [r]) us"
    using old(4) assms(5) unfolding rerun_ok_def set_append by blast
qed

text \<open>An update that leaves the row's key as it is, or takes the row out of the pending ones.\<close>

lemma rows_ok_status:
  assumes "row_frame f"
    and "\<And>r. r \<in> set rows \<Longrightarrow> (qr_status (f r) = qr_status r \<and> qr_run (f r) = qr_run r)
                \<or> qr_status (f r) \<noteq> QueuePending \<or> qr_run (f r) \<noteq> None"
    and "rows_ok rows n us"
  shows "rows_ok (map f rows) n us"
proof (rule rows_ok_map [OF assms(1) _ _ assms(3)])
  fix r x
  assume r: "r \<in> set rows"
  note frame = row_frameD [OF assms(1), of r]
  show "pending_job_key (f r) = Some x \<Longrightarrow> pending_job_key r = Some x"
    using assms(2) [OF r] frame by simp
  show "pending_rerun_key (f r) = Some x \<Longrightarrow> pending_rerun_key r = Some x"
    using assms(2) [OF r] frame by simp
qed

subsection \<open>Restart recovery\<close>

definition close_ended_row :: "queue_db \<Rightarrow> nat \<Rightarrow> nat \<Rightarrow> queue_row \<Rightarrow> queue_row" where
  "close_ended_row db p now r =
     (if qr_pid r = p \<and> qr_status r = QueueRunning
      then (case ended_run db p r of
              None \<Rightarrow> r
            | Some u \<Rightarrow> r\<lparr>qr_status := status_of_run (rr_status u), qr_finished := Some now\<rparr>)
      else r)"

definition requeue_row :: "nat \<Rightarrow> queue_row \<Rightarrow> queue_row" where
  "requeue_row p r =
     (if qr_pid r = p \<and> qr_status r = QueueRunning
      then r\<lparr>qr_status := QueuePending, qr_started := None\<rparr> else r)"

lemma tq_close_ended [queue_simps]: "tq (reset_close_ended p now db) = map (close_ended_row db p now) (tq db)"
  by (simp add: reset_close_ended_def close_ended_row_def [abs_def])

lemma reset_requeue_rows [queue_simps]:
  "reset_requeue p db = (if unique_ok (map (requeue_row p) (tq db))
     then Inr (db\<lparr>tq := map (requeue_row p) (tq db)\<rparr>) else Inl UniqueViolation)"
  by (simp add: reset_requeue_def requeue_row_def [abs_def] Let_def)

lemma ended_run_SomeD: "ended_run db p r = Some u \<Longrightarrow> rr_status u \<noteq> RunRunning"
  by (auto simp: ended_run_def find_Some_iff)

lemma status_of_run_not_pending: "status_of_run u \<noteq> QueuePending"
  by (cases u) auto

lemma status_of_run_running: "status_of_run u = QueueRunning \<longleftrightarrow> u = RunRunning"
  by (cases u) auto

lemma close_ended_frame: "row_frame (close_ended_row db p now)"
  by (simp add: row_frame_def close_ended_row_def split: option.splits)

lemma requeue_frame: "row_frame (requeue_row p)"
  by (simp add: row_frame_def requeue_row_def)

lemma close_ended_run: "qr_run (close_ended_row db p now r) = qr_run r"
  by (simp add: close_ended_row_def split: option.splits)

lemma requeue_run: "qr_run (requeue_row p r) = qr_run r"
  by (simp add: requeue_row_def)

lemma close_ended_rows_ok: "rows_ok rows n us \<Longrightarrow> rows_ok (map (close_ended_row db p now) rows) n us"
  by (rule rows_ok_status [OF close_ended_frame])
     (simp_all add: close_ended_row_def status_of_run_not_pending split: option.splits)

text \<open>The rows between the two deletes and the requeue, and what the deletes leave true of them.\<close>

definition kept_rows :: "nat \<Rightarrow> queue_row list \<Rightarrow> queue_row list" where
  "kept_rows p rows =
     (let kept = filter (\<lambda>r. \<not> (stale p r \<and> superseded rows r)) rows
      in filter (\<lambda>r. \<not> (stale p r \<and> \<not> oldest_of_group p kept r)) kept)"

lemma tq_collapse_drop [queue_simps]:
  "tq (reset_collapse p (reset_drop_superseded p db)) = kept_rows p (tq db)"
  by (simp add: reset_collapse_def reset_drop_superseded_def kept_rows_def Let_def)

lemma kept_rows_subset: "set (kept_rows p rows) \<subseteq> set rows"
  by (auto simp: kept_rows_def Let_def)

lemma kept_rows_others: "r \<in> set rows \<Longrightarrow> \<not> stale p r \<Longrightarrow> r \<in> set (kept_rows p rows)"
  by (simp add: kept_rows_def Let_def)

lemma kept_rows_ok: "rows_ok rows n us \<Longrightarrow> rows_ok (kept_rows p rows) n us"
  unfolding kept_rows_def Let_def by (intro rows_ok_filter)

lemma kept_not_superseded:
  "r \<in> set (kept_rows p rows) \<Longrightarrow> stale p r \<Longrightarrow> \<not> superseded rows r"
  by (simp add: kept_rows_def Let_def)

lemma superseded_mono: "superseded rows r \<Longrightarrow> set rows \<subseteq> set rows' \<Longrightarrow> superseded rows' r"
  unfolding superseded_def list_ex_iff by blast

lemma kept_oldest:
  assumes "r \<in> set (kept_rows p rows)" "s \<in> set (kept_rows p rows)" "stale p r" "stale p s"
    "qr_job s = qr_job r" "qr_rerun s = qr_rerun r"
  shows "qr_id r \<le> qr_id s"
proof -
  let ?kept = "filter (\<lambda>r. \<not> (stale p r \<and> superseded rows r)) rows"
  have "oldest_of_group p ?kept r" "s \<in> set ?kept"
    using assms(1-4) unfolding kept_rows_def Let_def by simp_all
  then show ?thesis
    using assms(4-6) unfolding oldest_of_group_def list_all_iff by blast
qed

lemma requeued_key:
  "pending_job_key (requeue_row p r) = Some x \<Longrightarrow>
     pending_job_key r = Some x \<or> stale p r \<and> qr_rerun r = None \<and> x = (p, qr_job r)"
  "pending_rerun_key (requeue_row p r) = Some y \<Longrightarrow>
     pending_rerun_key r = Some y \<or> stale p r \<and> (\<exists>z. qr_rerun r = Some z \<and> y = (p, z))"
  by (auto simp: requeue_row_def stale_def split: if_splits)

lemma pending_supersedes:
  assumes "s \<in> set rows" "qr_status s = QueuePending" "qr_run s = None"
    "qr_pid s = qr_pid r" "qr_job s = qr_job r" "qr_rerun s = qr_rerun r"
  shows "superseded rows r"
  using assms unfolding superseded_def list_ex_iff by metis

lemma stale_pid: "stale p r \<Longrightarrow> qr_pid r = p"
  by (simp add: stale_def)

lemma kept_pending_stale:
  assumes "s \<in> set (kept_rows p rows)" "r \<in> set (kept_rows p rows)" "stale p r"
    "qr_status s = QueuePending" "qr_run s = None" "qr_pid s = p" "qr_job s = qr_job r" "qr_rerun s = qr_rerun r"
  shows False
proof -
  have "s \<in> set rows" using assms(1) kept_rows_subset by blast
  then have "superseded rows r"
    using assms stale_pid [OF assms(3)] by (intro pending_supersedes [of s]) simp_all
  then show False using kept_not_superseded [OF assms(2,3)] by blast
qed

lemma kept_stale_stale:
  assumes "s \<in> set (kept_rows p rows)" "r \<in> set (kept_rows p rows)" "stale p s" "stale p r"
    "qr_job s = qr_job r" "qr_rerun s = qr_rerun r"
  shows "qr_id s = qr_id r"
  using kept_oldest [OF assms(1,2,3,4)] kept_oldest [OF assms(2,1,4,3)] assms(5,6)
  by (simp add: le_antisym)

text \<open>Two rows with the same key after the requeue: each either had it before or was running.\<close>

lemma requeue_keyed:
  fixes k :: "queue_row \<Rightarrow> 'k option"
  assumes old: "keyed k (kept_rows p rows)"
    and shape: "\<And>r x. k (requeue_row p r) = Some x \<Longrightarrow> k r = Some x \<or> stale p r"
    and pend: "\<And>r x. k r = Some x \<Longrightarrow> qr_status r = QueuePending \<and> qr_run r = None"
    and same: "\<And>r s x. r \<in> set rows \<Longrightarrow> s \<in> set rows \<Longrightarrow> k (requeue_row p r) = Some x
        \<Longrightarrow> k (requeue_row p s) = Some x
        \<Longrightarrow> qr_pid r = qr_pid s \<and> qr_job r = qr_job s \<and> qr_rerun r = qr_rerun s"
  shows "keyed k (map (requeue_row p) (kept_rows p rows))"
proof (rule keyedI)
  fix r' s' x
  assume "r' \<in> set (map (requeue_row p) (kept_rows p rows))" "s' \<in> set (map (requeue_row p) (kept_rows p rows))"
    and k': "k r' = Some x" "k s' = Some x"
  then obtain r s where r': "r' = requeue_row p r" and r: "r \<in> set (kept_rows p rows)"
    and s': "s' = requeue_row p s" and s: "s \<in> set (kept_rows p rows)" by auto
  have kr: "k (requeue_row p r) = Some x" and ks: "k (requeue_row p s) = Some x" using k' r' s' by simp_all
  have "r \<in> set rows" "s \<in> set rows" using r s kept_rows_subset by blast+
  from same [OF this kr ks] have eq: "qr_pid r = qr_pid s" "qr_job r = qr_job s" "qr_rerun r = qr_rerun s" by blast+
  have mixed: False if "stale p q" "k t = Some x" "q \<in> set (kept_rows p rows)" "t \<in> set (kept_rows p rows)"
    "qr_pid t = qr_pid q" "qr_job t = qr_job q" "qr_rerun t = qr_rerun q" for q t
    using kept_pending_stale [OF that(4,3,1)] pend [OF that(2)] stale_pid [OF that(1)] that(5-7) by simp
  have "qr_id r = qr_id s"
  proof (cases "stale p r")
    case True
    show ?thesis
    proof (cases "stale p s")
      case s_stale: True
      show ?thesis by (rule kept_stale_stale [OF r s True s_stale eq(2,3)])
    next
      case False
      then have "k s = Some x" using shape [OF ks] by blast
      from mixed [OF True this r s] eq show ?thesis by simp
    qed
  next
    case False
    then have kr0: "k r = Some x" using shape [OF kr] by blast
    show ?thesis
    proof (cases "stale p s")
      case True
      from mixed [OF True kr0 s r] eq show ?thesis by simp
    next
      case False
      then have "k s = Some x" using shape [OF ks] by blast
      then show ?thesis by (rule keyedD [OF old r s kr0])
    qed
  qed
  then show "qr_id r' = qr_id s'" using row_frameD(1) [OF requeue_frame] r' s' by simp
qed

lemma requeue_keyed_job:
  assumes "keyed pending_job_key (kept_rows p rows)"
  shows "keyed pending_job_key (map (requeue_row p) (kept_rows p rows))"
proof (rule requeue_keyed [OF assms])
  show "pending_job_key r = Some x \<or> stale p r" if "pending_job_key (requeue_row p r) = Some x" for r x
    using requeued_key(1) [OF that] by blast
  show "qr_status r = QueuePending \<and> qr_run r = None" if "pending_job_key r = Some x" for r x
    using that by simp
  show "qr_pid r = qr_pid s \<and> qr_job r = qr_job s \<and> qr_rerun r = qr_rerun s"
    if "pending_job_key (requeue_row p r) = Some x" "pending_job_key (requeue_row p s) = Some x" for r s x
    using that row_frameD [OF requeue_frame, of p] by simp
qed

lemma requeue_keyed_rerun:
  assumes "keyed pending_rerun_key (kept_rows p rows)"
    and job: "\<And>r s x. r \<in> set rows \<Longrightarrow> s \<in> set rows \<Longrightarrow> qr_rerun r = Some x \<Longrightarrow> qr_rerun s = Some x \<Longrightarrow> qr_job r = qr_job s"
  shows "keyed pending_rerun_key (map (requeue_row p) (kept_rows p rows))"
proof (rule requeue_keyed [OF assms(1)])
  show "pending_rerun_key r = Some x \<or> stale p r" if "pending_rerun_key (requeue_row p r) = Some x" for r x
    using requeued_key(2) [OF that] by blast
  show "qr_status r = QueuePending \<and> qr_run r = None" if "pending_rerun_key r = Some x" for r x
    using that by simp
  show "qr_pid r = qr_pid s \<and> qr_job r = qr_job s \<and> qr_rerun r = qr_rerun s"
    if "r \<in> set rows" "s \<in> set rows"
      "pending_rerun_key (requeue_row p r) = Some x" "pending_rerun_key (requeue_row p s) = Some x" for r s x
  proof -
    note key = that
    obtain z where z: "qr_rerun r = Some z" "qr_rerun s = Some z" "qr_pid r = qr_pid s"
      using key(3,4) row_frameD [OF requeue_frame, of p] by auto
    with job [OF key(1,2) z(1,2)] show ?thesis by simp
  qed
qed

lemma requeue_rows_ok:
  assumes "rows_ok rows n us" "distinct (map rr_id us)"
  shows "rows_ok (map (requeue_row p) (kept_rows p rows)) n us"
proof (rule rows_okI)
  note kept = rows_okD [OF kept_rows_ok [OF assms(1), of p]]
  show "ids_ok (map (requeue_row p) (kept_rows p rows)) n"
    using kept(1) by (simp only: ids_ok_map [of "requeue_row p", OF row_frameD(1) [OF requeue_frame]])
  show "keyed pending_job_key (map (requeue_row p) (kept_rows p rows))"
    by (rule requeue_keyed_job [OF kept(2)])
  show "keyed pending_rerun_key (map (requeue_row p) (kept_rows p rows))"
    by (rule requeue_keyed_rerun [OF kept(3) rerun_same_job [OF rows_okD(4) [OF assms(1)] assms(2)]])
  show "rerun_ok (map (requeue_row p) (kept_rows p rows)) us"
    by (rule rerun_ok_map [OF requeue_frame kept(4)])
qed

lemma reset_runs_unchanged [queue_simps]:
  "runs (reset_collapse p (reset_drop_superseded p (reset_close_ended p now db))) = runs db"
  "next_id (reset_collapse p (reset_drop_superseded p (reset_close_ended p now db))) = next_id db"
  by (simp_all add: reset_collapse_def reset_drop_superseded_def reset_close_ended_def)

text \<open>The rows recovery leaves, computed once.\<close>

definition recovered_rows :: "nat \<Rightarrow> nat \<Rightarrow> queue_db \<Rightarrow> queue_row list" where
  "recovered_rows p now db =
     map (requeue_row p) (kept_rows p (map (close_ended_row db p now) (tq db)))"

lemma recovered_rows_ok: "queue_inv db \<Longrightarrow> rows_ok (recovered_rows p now db) (next_id db) (runs db)"
  unfolding recovered_rows_def queue_inv_rows_ok
  by (elim conjE, rule requeue_rows_ok [OF close_ended_rows_ok])

lemma reset_stale_running_rows:
  assumes "queue_inv db"
  shows "ResetStaleRunning p now db = Inr (reset_close_runs p now
     ((reset_collapse p (reset_drop_superseded p (reset_close_ended p now db)))\<lparr>tq := recovered_rows p now db\<rparr>))"
  using rows_ok_unique [OF recovered_rows_ok [OF assms, of p now]]
  by (simp add: ResetStaleRunning_def reset_requeue_rows tq_collapse_drop tq_close_ended recovered_rows_def)

subsection \<open>What recovery leaves\<close>

lemma close_ended_unchanged: "\<not> (qr_pid r = p \<and> qr_status r = QueueRunning) \<Longrightarrow> close_ended_row db p now r = r"
  unfolding close_ended_row_def by (rule if_not_P)

lemma requeue_unchanged: "\<not> (qr_pid r = p \<and> qr_status r = QueueRunning) \<Longrightarrow> requeue_row p r = r"
  unfolding requeue_row_def by (rule if_not_P)

lemma stale_running: "stale p r \<Longrightarrow> qr_status r = QueueRunning"
  by (simp add: stale_def)

lemma recovered_others:
  assumes "r \<in> set (tq db)" "\<not> (qr_pid r = p \<and> qr_status r = QueueRunning)"
  shows "r \<in> set (recovered_rows p now db)"
proof -
  have "r \<in> set (map (close_ended_row db p now) (tq db))"
    using assms(1) close_ended_unchanged [OF assms(2), of db now] by (metis image_eqI set_map)
  moreover have "\<not> stale p r" using assms(2) unfolding stale_def by blast
  ultimately have "r \<in> set (kept_rows p (map (close_ended_row db p now) (tq db)))"
    by (rule kept_rows_others)
  then show ?thesis
    using requeue_unchanged [OF assms(2)] unfolding recovered_rows_def by (metis image_eqI set_map)
qed

lemma recovered_ended:
  assumes "r \<in> set (tq db)" "qr_pid r = p" "qr_status r = QueueRunning" "ended_run db p r = Some u"
  shows "r\<lparr>qr_status := status_of_run (rr_status u), qr_finished := Some now\<rparr> \<in> set (recovered_rows p now db)"
proof -
  let ?r = "r\<lparr>qr_status := status_of_run (rr_status u), qr_finished := Some now\<rparr>"
  have r: "close_ended_row db p now r = ?r" using assms by (simp add: close_ended_row_def)
  then have "?r \<in> set (map (close_ended_row db p now) (tq db))"
    using assms(1) by (metis image_eqI set_map)
  moreover have st: "qr_status ?r \<noteq> QueueRunning"
    using ended_run_SomeD [OF assms(4)] by (simp add: status_of_run_running)
  moreover have "\<not> stale p ?r" using stale_running st by blast
  ultimately have "?r \<in> set (kept_rows p (map (close_ended_row db p now) (tq db)))"
    by (intro kept_rows_others)
  then show ?thesis
    using requeue_unchanged [of ?r p] st unfolding recovered_rows_def by (metis image_eqI set_map)
qed

lemma recovered_not_running:
  assumes "r \<in> set (recovered_rows p now db)" "qr_pid r = p"
  shows "qr_status r \<noteq> QueueRunning"
proof -
  obtain q where q: "r = requeue_row p q"
    using assms(1) unfolding recovered_rows_def set_map by blast
  then have "qr_pid q = p" using assms(2) row_frameD(2) [OF requeue_frame] by simp
  then show ?thesis by (simp add: q requeue_row_def)
qed

text \<open>Collapsing keeps one of each group of stale rows.\<close>

lemma oldest_exists:
  assumes "r \<in> set rows" "stale p r"
  obtains q where "q \<in> set rows" "stale p q" "qr_job q = qr_job r" "qr_rerun q = qr_rerun r"
    "oldest_of_group p rows q"
proof -
  let ?G = "{q \<in> set rows. stale p q \<and> qr_job q = qr_job r \<and> qr_rerun q = qr_rerun r}"
  have ne: "?G \<noteq> {}" "finite ?G" using assms by auto
  define q where "q = arg_min_on qr_id ?G"
  have q: "q \<in> ?G" unfolding q_def by (rule arg_min_if_finite(1) [OF ne(2,1)])
  have least: "qr_id q \<le> qr_id t" if "t \<in> ?G" for t
    using arg_min_least [OF ne(2,1) that, of qr_id] by (simp add: q_def)
  have "oldest_of_group p rows q"
    unfolding oldest_of_group_def list_all_iff
  proof (intro ballI impI)
    fix t
    assume "t \<in> set rows" "stale p t \<and> qr_job t = qr_job q \<and> qr_rerun t = qr_rerun q"
    then have "t \<in> ?G" using q by simp
    then show "qr_id q \<le> qr_id t" by (rule least)
  qed
  with q show ?thesis using that [of q] by simp
qed

definition work_kept :: "queue_row \<Rightarrow> queue_row list \<Rightarrow> bool" where
  "work_kept r rows =
     (\<exists>q \<in> set rows. qr_status q = QueuePending \<and> qr_pid q = qr_pid r \<and> qr_job q = qr_job r
                    \<and> qr_rerun q = qr_rerun r \<and> qr_run q = qr_run r)"

lemma requeued_in:
  assumes "q \<in> set (kept_rows p (map (close_ended_row db p now) (tq db)))"
    "qr_pid q = p" "qr_status q = QueueRunning \<or> qr_status q = QueuePending"
    "qr_job q = qr_job r" "qr_rerun q = qr_rerun r" "qr_run q = qr_run r" "qr_pid r = p"
  shows "work_kept r (recovered_rows p now db)"
proof -
  have "requeue_row p q \<in> set (recovered_rows p now db)"
    using assms(1) unfolding recovered_rows_def by (simp only: set_map) (rule imageI)
  moreover have "qr_status (requeue_row p q) = QueuePending" using assms(2,3) by (auto simp: requeue_row_def)
  ultimately show ?thesis
    unfolding work_kept_def using row_frameD [OF requeue_frame, of p q] requeue_run [of p q] assms(2-7)
    by (intro bexI [of _ "requeue_row p q"]) simp_all
qed

lemma recovered_work:
  assumes r: "r \<in> set (tq db)" "qr_pid r = p" "qr_status r = QueueRunning" "ended_run db p r = None"
  shows "work_kept r (recovered_rows p now db)"
proof -
  let ?rows = "map (close_ended_row db p now) (tq db)"
  let ?kept = "filter (\<lambda>r. \<not> (stale p r \<and> superseded ?rows r)) ?rows"
  have "close_ended_row db p now r = r" using r by (simp add: close_ended_row_def)
  then have in_rows: "r \<in> set ?rows" using r(1) by (metis image_eqI set_map)
  show ?thesis
  proof (cases "stale p r")
    case False
    then have "r \<in> set (kept_rows p ?rows)" by (rule kept_rows_others [OF in_rows])
    then show ?thesis by (rule requeued_in) (simp_all add: r)
  next
    case stale: True
    then have run: "qr_run r = None" by (simp add: stale_def)
    show ?thesis
    proof (cases "superseded ?rows r")
      case True
      then obtain q where q: "q \<in> set ?rows" "qr_pid q = p" "qr_job q = qr_job r" "qr_status q = QueuePending"
        "qr_rerun q = qr_rerun r" "qr_run q = None"
        unfolding superseded_def list_ex_iff using r(2) by blast
      then have "q \<in> set (kept_rows p ?rows)" by (intro kept_rows_others) (simp_all add: stale_def)
      then show ?thesis by (rule requeued_in) (simp_all add: q r run)
    next
      case False
      then have "r \<in> set ?kept" using in_rows by simp
      then obtain q where q: "q \<in> set ?kept" "stale p q" "qr_job q = qr_job r" "qr_rerun q = qr_rerun r"
        "oldest_of_group p ?kept q"
        using stale by (rule oldest_exists)
      have "q \<in> set (kept_rows p ?rows)" using q unfolding kept_rows_def Let_def by simp
      moreover have "qr_pid q = p" "qr_status q = QueueRunning" "qr_run q = None" using q(2) by (simp_all add: stale_def)
      ultimately show ?thesis using q r run by (intro requeued_in) simp_all
    qed
  qed
qed

end
