(* ===== verification/JobQueueSteps.thy ===== *)
theory JobQueueSteps
  imports JobQueueInv
begin

text \<open>
  The job queue as a system of steps: every operation of \<^verbatim>\<open>queue.go\<close> in any order. Its
  interpretation of the invariant interface carries well-formedness and the admission bounds to every
  reachable database; the properties of single operations follow.
\<close>

subsection \<open>Every operation keeps the invariant\<close>

lemma queue_inv_tq:
  "queue_inv db \<Longrightarrow> rows_ok rows (next_id db') (runs db') \<Longrightarrow> tq db' = rows \<Longrightarrow> runs db' = runs db \<Longrightarrow> queue_inv db'"
  unfolding queue_inv_rows_ok by simp

lemma queue_inv_map:
  assumes "queue_inv db" "row_frame f"
    and "\<And>r. r \<in> set (tq db) \<Longrightarrow> (qr_status (f r) = qr_status r \<and> qr_run (f r) = qr_run r)
                \<or> qr_status (f r) \<noteq> QueuePending \<or> qr_run (f r) \<noteq> None"
  shows "queue_inv (db\<lparr>tq := map f (tq db)\<rparr>)"
  using rows_ok_status [OF assms(2,3)] assms(1) unfolding queue_inv_rows_ok by simp

lemma queue_inv_filter: "queue_inv db \<Longrightarrow> queue_inv (db\<lparr>tq := filter P (tq db)\<rparr>)"
  using rows_ok_filter unfolding queue_inv_rows_ok by simp

lemma new_row_keys:
  "pending_job_key (new_row db p j reason by man rerun now) = (if rerun = None then Some (p, j) else None)"
  "pending_rerun_key (new_row db p j reason by man rerun now) = map_option (Pair p) rerun"
  by (auto simp: new_row_def pending_job_key_def pending_rerun_key_def split: option.splits)

lemma queue_inv_insert:
  assumes inv: "queue_inv db"
    and job: "rerun = None \<Longrightarrow> \<not> list_ex (\<lambda>r. pending_job_key r = Some (p, j)) (tq db)"
    and again: "\<And>x. rerun = Some x \<Longrightarrow> \<not> list_ex (\<lambda>r. pending_rerun_key r = Some (p, x)) (tq db)
        \<and> (\<exists>u \<in> set (runs db). rr_id u = x \<and> rr_pid u = p \<and> rr_job u = j)"
  shows "queue_inv (insert_row (new_row db p j reason by man rerun now) db)"
proof -
  let ?r = "new_row db p j reason by man rerun now"
  have sel: "qr_id ?r = next_id db" "qr_rerun ?r = rerun" "qr_pid ?r = p" "qr_job ?r = j"
    by (simp_all add: new_row_def)
  have "rows_ok (tq db @ [?r]) (Suc (next_id db)) (runs db)"
  proof (rule rows_ok_snoc)
    show "rows_ok (tq db) (next_id db) (runs db)" using inv unfolding queue_inv_rows_ok by blast
    show "qr_id ?r = next_id db" by (rule sel)
    show "pending_job_key s \<noteq> Some x" if "s \<in> set (tq db)" "pending_job_key ?r = Some x" for s x
      using that job unfolding new_row_keys list_ex_iff by (auto split: if_splits)
    show "pending_rerun_key s \<noteq> Some x" if "s \<in> set (tq db)" "pending_rerun_key ?r = Some x" for s x
    proof -
      note hyp = that
      obtain y where "rerun = Some y" "x = (p, y)" using hyp(2) unfolding new_row_keys by auto
      with again [of y] hyp(1) show ?thesis unfolding list_ex_iff by blast
    qed
    show "rerun_ok [?r] (runs db)"
      unfolding rerun_ok_def
    proof (intro ballI allI impI)
      fix t x
      assume "t \<in> set [?r]" and x: "qr_rerun t = Some x"
      then have t: "t = ?r" by simp
      have "rerun = Some x" using x unfolding t sel .
      then show "\<exists>u \<in> set (runs db). rr_id u = x \<and> rr_pid u = qr_pid t \<and> rr_job u = qr_job t"
        using again [of x] unfolding t sel by blast
    qed
  qed
  then show ?thesis using inv unfolding queue_inv_rows_ok by (simp add: insert_row_def)
qed

lemma EnqueueJob_inv: "queue_inv db \<Longrightarrow> queue_inv (EnqueueJob p j reason by now db)"
  using queue_inv_insert [of db None p j] by (simp add: EnqueueJob_def enqueueJob_def)

lemma EnqueueManualJob_inv:
  assumes "queue_inv db"
  shows "queue_inv (EnqueueManualJob p j reason by now db)"
proof (cases "list_ex (\<lambda>r. pending_job_key r = Some (p, j)) (tq db)")
  case True
  have "queue_inv (db\<lparr>tq := map (\<lambda>r. if pending_job_key r = Some (p, j)
      then r\<lparr>qr_manual := True, qr_reason := reason, qr_by := by\<rparr> else r) (tq db)\<rparr>)"
    by (rule queue_inv_map [OF assms]) (simp_all add: row_frame_def)
  with True show ?thesis by (simp add: EnqueueManualJob_def)
next
  case False
  then show ?thesis using queue_inv_insert [OF assms, of None p j] by (simp add: EnqueueManualJob_def)
qed

lemma EnqueueRerunJob_inv:
  assumes "queue_inv db" "EnqueueRerunJob p j reason x by now db = Inr db'"
    "u \<in> set (runs db)" "rr_id u = x" "rr_pid u = p" "rr_job u = j"
  shows "queue_inv db'"
proof (cases "list_ex (\<lambda>r. pending_rerun_key r = Some (p, x)) (tq db)")
  case True
  then show ?thesis using assms(1,2) by (simp add: EnqueueRerunJob_def)
next
  case False
  moreover have "\<exists>u \<in> set (runs db). rr_id u = x \<and> rr_pid u = p \<and> rr_job u = j"
    by (rule bexI [OF _ assms(3)]) (simp add: assms)
  ultimately have "queue_inv (insert_row (new_row db p j reason by True (Some x) now) db)"
    by (intro queue_inv_insert [OF assms(1)]) simp_all
  with False show ?thesis using assms(2) by (simp add: EnqueueRerunJob_def split: if_splits)
qed

lemma ClaimNextJob_inv: "queue_inv db \<Longrightarrow> queue_inv (snd (ClaimNextJob p now db))"
  by (simp add: ClaimNextJob_def split: list.split) (intro allI impI queue_inv_map, simp_all add: row_frame_def)

lemma CompleteJob_inv:
  "queue_inv db \<Longrightarrow> status \<noteq> QueuePending \<Longrightarrow> queue_inv (CompleteJob p i status err now db)"
  unfolding CompleteJob_def by (rule queue_inv_map) (simp_all add: row_frame_def)

lemma AbortQueuedJob_inv: "queue_inv db \<Longrightarrow> queue_inv (snd (AbortQueuedJob p j now db))"
  unfolding AbortQueuedJob_def Let_def snd_conv by (rule queue_inv_map) (simp_all add: row_frame_def)

lemma pruneTriggerQueue_inv: "queue_inv db \<Longrightarrow> queue_inv (pruneTriggerQueue p j n db)"
  by (simp add: pruneTriggerQueue_def Let_def queue_inv_filter)

lemma SyncJobLimits_inv: "queue_inv db \<Longrightarrow> queue_inv (SyncJobLimits p groups limits db)"
  by (simp add: SyncJobLimits_def queue_inv_def)

lemma rerun_ok_runs:
  assumes "rerun_ok rows us"
    and "\<And>u. u \<in> set us \<Longrightarrow> \<exists>v \<in> set us'. rr_id v = rr_id u \<and> rr_pid v = rr_pid u \<and> rr_job v = rr_job u"
  shows "rerun_ok rows us'"
  unfolding rerun_ok_def
proof (intro ballI allI impI)
  fix r x
  assume "r \<in> set rows" "qr_rerun r = Some x"
  then obtain u where u: "u \<in> set us" "rr_id u = x" "rr_pid u = qr_pid r" "rr_job u = qr_job r"
    using rerun_okD [OF assms(1)] by blast
  then show "\<exists>v \<in> set us'. rr_id v = x \<and> rr_pid v = qr_pid r \<and> rr_job v = qr_job r"
    using assms(2) [OF u(1)] by simp
qed

text \<open>An update of the run rows that keeps each run's identity.\<close>

lemma queue_inv_runs_map:
  assumes "queue_inv db"
    and "\<And>u. rr_id (f u) = rr_id u" "\<And>u. rr_pid (f u) = rr_pid u" "\<And>u. rr_job (f u) = rr_job u"
  shows "queue_inv (db\<lparr>runs := map f (runs db)\<rparr>)"
proof -
  have "rerun_ok (tq db) (map f (runs db))"
  proof (rule rerun_ok_runs)
    show "rerun_ok (tq db) (runs db)" using assms(1) unfolding queue_inv_def by blast
    show "\<exists>v \<in> set (map f (runs db)). rr_id v = rr_id u \<and> rr_pid v = rr_pid u \<and> rr_job v = rr_job u"
      if "u \<in> set (runs db)" for u
      using that by (intro bexI [of _ "f u"]) (simp_all add: assms(2-4))
  qed
  moreover have "map rr_id (map f (runs db)) = map rr_id (runs db)" by (simp add: assms(2))
  ultimately show ?thesis using assms(1) by (simp add: queue_inv_def del: map_map)
qed

lemma FinishRun_inv: "queue_inv db \<Longrightarrow> queue_inv (FinishRun p i status now db)"
  unfolding FinishRun_def by (rule queue_inv_runs_map) simp_all

lemma reset_close_runs_inv: "queue_inv db \<Longrightarrow> queue_inv (reset_close_runs p now db)"
  unfolding reset_close_runs_def by (rule queue_inv_runs_map) simp_all

lemma ResumeRun_inv: "queue_inv db \<Longrightarrow> ResumeRun rv p i ws sha db = Inr db' \<Longrightarrow> queue_inv db'"
  using queue_inv_runs_map [of db "\<lambda>u. if rr_id u = i \<and> rr_pid u = p
      then u\<lparr>rr_status := RunRunning, rr_workspace := ws, rr_finished := None,
             rr_revision := (case rv sha of None \<Rightarrow> rr_revision u | Some v \<Rightarrow> Some v)\<rparr> else u"]
  by (auto simp: ResumeRun_def split: if_splits)

lemma queue_inv_new_run:
  assumes "queue_inv db" "\<not> list_ex (\<lambda>u. rr_id u = rr_id v) (runs db)"
  shows "queue_inv (db\<lparr>runs := runs db @ [v]\<rparr>)"
proof -
  have "rerun_ok (tq db) (runs db @ [v])"
  proof (rule rerun_ok_runs)
    show "rerun_ok (tq db) (runs db)" using assms(1) unfolding queue_inv_def by blast
    show "\<exists>w \<in> set (runs db @ [v]). rr_id w = rr_id u \<and> rr_pid w = rr_pid u \<and> rr_job w = rr_job u"
      if "u \<in> set (runs db)" for u
      using that by (intro bexI [of _ u]) simp_all
  qed
  moreover have "rr_id v \<notin> set (map rr_id (runs db))"
  proof
    assume "rr_id v \<in> set (map rr_id (runs db))"
    then obtain u where "u \<in> set (runs db)" "rr_id u = rr_id v" unfolding set_map by (elim imageE) simp
    then show False using assms(2) unfolding list_ex_iff by blast
  qed
  moreover have "rerun_ok (tq db) (runs db) \<and> ids_ok (tq db) (next_id db) \<and> unique_ok (tq db) \<and> distinct (map rr_id (runs db))"
    using assms(1) unfolding queue_inv_def by blast
  ultimately show ?thesis unfolding queue_inv_def by simp
qed

lemma StartRun_inv:
  assumes "queue_inv db" "StartRun rv p i j ws sha q by now db = Inr db'"
  shows "queue_inv db'"
proof -
  define f :: "queue_row \<Rightarrow> queue_row" where "f r = (if qr_id r = q \<and> qr_pid r = p then r\<lparr>qr_run := Some i\<rparr> else r)" for r
  define v where "v = \<lparr>rr_id = i, rr_pid = p, rr_job = j, rr_workspace = ws, rr_status = RunRunning,
    rr_started = now, rr_finished = None, rr_revision = rv sha,
    rr_by = (case find (\<lambda>r. qr_id r = q \<and> qr_pid r = p) (tq db) of Some r \<Rightarrow> qr_by r | None \<Rightarrow> by)\<rparr>"
  have new: "\<not> list_ex (\<lambda>u. rr_id u = rr_id v) (runs db)"
    using assms(2) by (auto simp: StartRun_def v_def split: if_splits)
  then have db': "db' = db\<lparr>runs := runs db @ [v], tq := if q \<noteq> 0 then map f (tq db) else tq db\<rparr>"
    using assms(2) unfolding StartRun_def Let_def f_def [abs_def] v_def by simp
  have inv: "queue_inv (db\<lparr>runs := runs db @ [v]\<rparr>)"
    by (rule queue_inv_new_run [OF assms(1) new])
  have "queue_inv (db\<lparr>runs := runs db @ [v]\<rparr>\<lparr>tq := map f (tq (db\<lparr>runs := runs db @ [v]\<rparr>))\<rparr>)"
    by (rule queue_inv_map [OF inv]) (simp_all add: row_frame_def f_def)
  with inv show ?thesis unfolding db' by (cases "q = 0") simp_all
qed

lemma ResetStaleRunning_inv:
  assumes "queue_inv db" "ResetStaleRunning p now db = Inr db'"
  shows "queue_inv db'"
proof -
  let ?mid = "(reset_collapse p (reset_drop_superseded p (reset_close_ended p now db)))\<lparr>tq := recovered_rows p now db\<rparr>"
  have "db' = reset_close_runs p now ?mid"
    using reset_stale_running_rows [OF assms(1), of p now] assms(2) by simp
  moreover have "queue_inv ?mid"
    by (rule queue_inv_tq [OF assms(1), of "recovered_rows p now db"])
       (simp_all add: reset_runs_unchanged recovered_rows_ok [OF assms(1)])
  ultimately show ?thesis using reset_close_runs_inv by blast
qed

subsection \<open>Steps\<close>

text \<open>
  One operation of any pipeline. A retry is enqueued for a run that was read from the pipeline's own
  rows, a job is completed with a terminal status, and \<open>S\<close> holds the pipelines whose admission rules
  may be written again.
\<close>

inductive queue_step :: "(string \<Rightarrow> nat option) \<Rightarrow> nat set \<Rightarrow> queue_db \<Rightarrow> queue_db \<Rightarrow> bool"
  for rv :: "string \<Rightarrow> nat option" and S :: "nat set" where
  enqueue: "queue_step rv S db (EnqueueJob p j reason by now db)"
| manual: "queue_step rv S db (EnqueueManualJob p j reason by now db)"
| rerun: "u \<in> set (runs db) \<Longrightarrow> rr_id u = x \<Longrightarrow> rr_pid u = p \<Longrightarrow> rr_job u = j
    \<Longrightarrow> EnqueueRerunJob p j reason x by now db = Inr db' \<Longrightarrow> queue_step rv S db db'"
| claim: "queue_step rv S db (snd (ClaimNextJob p now db))"
| complete: "status \<noteq> QueuePending \<Longrightarrow> status \<noteq> QueueRunning
    \<Longrightarrow> queue_step rv S db (CompleteJob p i status err now db)"
| abort: "queue_step rv S db (snd (AbortQueuedJob p j now db))"
| reset: "ResetStaleRunning p now db = Inr db' \<Longrightarrow> queue_step rv S db db'"
| prune: "queue_step rv S db (pruneTriggerQueue p j n db)"
| start_run: "StartRun rv p x j ws sha q by now db = Inr db' \<Longrightarrow> queue_step rv S db db'"
| resume_run: "ResumeRun rv p x ws sha db = Inr db' \<Longrightarrow> queue_step rv S db db'"
| finish_run: "queue_step rv S db (FinishRun p x rstatus now db)"
| sync: "p \<in> S \<Longrightarrow> queue_step rv S db (SyncJobLimits p groups limits db)"

definition queue_init :: "queue_db \<Rightarrow> bool" where
  "queue_init db = (tq db = [] \<and> runs db = [])"

lemma queue_init_inv: "queue_init db \<Longrightarrow> queue_inv db"
  by (simp add: queue_init_def queue_inv_def ids_ok_def unique_ok_def rerun_ok_def map_filter_def)

lemma queue_step_inv: "queue_step rv S db db' \<Longrightarrow> queue_inv db \<Longrightarrow> queue_inv db'"
proof (induction rule: queue_step.induct)
  case rerun
  then show ?case by (intro EnqueueRerunJob_inv [OF rerun.prems rerun.hyps(5,1)])
next
  case reset
  then show ?case by (intro ResetStaleRunning_inv [OF reset.prems reset.hyps])
next
  case start_run
  then show ?case by (intro StartRun_inv [OF start_run.prems start_run.hyps])
next
  case resume_run
  then show ?case by (intro ResumeRun_inv [OF resume_run.prems resume_run.hyps])
qed (rule EnqueueJob_inv EnqueueManualJob_inv ClaimNextJob_inv CompleteJob_inv AbortQueuedJob_inv
      pruneTriggerQueue_inv FinishRun_inv SyncJobLimits_inv, assumption+)+

interpretation wf: invariant_system queue_init "queue_step rv S" queue_inv
  by unfold_locales (rule queue_init_inv, assumption, rule queue_step_inv)

subsection \<open>Who is running\<close>









subsection \<open>Claiming\<close>

text \<open>The claim under the invariant, without the sort: the first admissible row.\<close>

lemma sorted_admissible:
  "queue_inv db \<Longrightarrow> sort_key qr_id (filter (admissible db p) (tq db)) = filter (admissible db p) (tq db)"
  unfolding queue_inv_def using ids_ok_sort_filter by blast

lemma ClaimNextJob_None:
  assumes "queue_inv db" "filter (admissible db p) (tq db) = []"
  shows "ClaimNextJob p now db = (None, db)"
  unfolding ClaimNextJob_def sorted_admissible [OF assms(1)] assms(2) by simp

lemma map_at_id:
  assumes "ids_ok (us @ r # vs) n"
  shows "map (\<lambda>x. if qr_id x = qr_id r then f x else x) (us @ r # vs) = us @ f r # vs"
proof -
  have d: "distinct (map qr_id (us @ r # vs))" by (rule ids_ok_distinct [OF assms])
  have ne: "qr_id x \<noteq> qr_id r" if "x \<in> set us \<union> set vs" for x
  proof
    assume "qr_id x = qr_id r"
    then have "qr_id r \<in> qr_id ` (set us \<union> set vs)" using that by (metis imageI)
    then show False using d by auto
  qed
  have "map (\<lambda>x. if qr_id x = qr_id r then f x else x) xs = xs" if "set xs \<subseteq> set us \<union> set vs" for xs
    using that ne by (intro map_idI) (metis subsetD)
  then show ?thesis by simp
qed

lemma ClaimNextJob_Some:
  assumes "queue_inv db" "tq db = us @ r # vs" "admissible db p r" "filter (admissible db p) us = []"
  shows "ClaimNextJob p now db =
    (Some \<lparr>cj_id = qr_id r, cj_job = qr_job r, cj_manual = qr_manual r,
           cj_rerun = null_string (qr_rerun r), cj_resume = null_string (qr_run r)\<rparr>,
     db\<lparr>tq := us @ r\<lparr>qr_status := QueueRunning, qr_started := Some now\<rparr> # vs\<rparr>)"
proof -
  have "ids_ok (us @ r # vs) (next_id db)" using assms(1,2) by (simp add: queue_inv_def)
  then have eq: "map (\<lambda>x. if qr_id x = qr_id r then x\<lparr>qr_status := QueueRunning, qr_started := Some now\<rparr> else x) (tq db)
      = us @ r\<lparr>qr_status := QueueRunning, qr_started := Some now\<rparr> # vs"
    unfolding assms(2) by (rule map_at_id)
  have head: "sort_key qr_id (filter (admissible db p) (tq db)) = r # filter (admissible db p) vs"
    unfolding sorted_admissible [OF assms(1)] using assms(2-4) by simp
  have "list_ex (\<lambda>r. qr_pid r = p \<and> qr_status r = QueuePending) (tq db)"
    using assms(2,3) by (simp add: admissible_def)
  then show ?thesis unfolding ClaimNextJob_def head by (simp add: eq)
qed

lemma first_admissible:
  assumes "filter P xs \<noteq> []"
  obtains us r vs where "xs = us @ r # vs" "P r" "filter P us = []"
proof -
  obtain r rest where "filter P xs = r # rest" using assms by (cases "filter P xs") auto
  then obtain us vs where "xs = us @ r # vs" "\<forall>u \<in> set us. \<not> P u" "P r"
    unfolding filter_eq_Cons_iff by blast
  then show ?thesis using that [of us r vs] by (simp add: filter_empty_conv)
qed

subsection \<open>Admission\<close>



























subsection \<open>Properties\<close>

text \<open>C6: whatever order the queue's operations come in, from an empty database, row ids ascend, both
  partial unique indexes hold and every retry names a run of its own pipeline and job.\<close>

theorem queue_reachable_well_formed:
  assumes "queue_init db" and "(queue_step rv UNIV)\<^sup>*\<^sup>* db db'"
  shows "ids_ok (tq db') (next_id db') \<and> unique_ok (tq db') \<and> rerun_ok (tq db') (runs db')
    \<and> distinct (map rr_id (runs db'))"
  using wf.reachable_inv [OF assms] by (simp add: queue_inv_def)

lemma reset_close_runs_closed:
  assumes "u \<in> set (runs (reset_close_runs p now db))" "rr_pid u = p"
  shows "rr_status u \<noteq> RunRunning"
proof -
  have "u \<in> (\<lambda>u. if rr_pid u = p \<and> rr_status u = RunRunning
      then u\<lparr>rr_status := RunAborted, rr_finished := Some now\<rparr> else u) ` set (runs db)"
    using assms(1) by (simp add: reset_close_runs_def)
  then obtain v where "u = (if rr_pid v = p \<and> rr_status v = RunRunning
      then v\<lparr>rr_status := RunAborted, rr_finished := Some now\<rparr> else v)" by (rule imageE)
  with assms(2) show ?thesis by (cases "rr_pid v = p \<and> rr_status v = RunRunning") simp_all
qed

definition empty_db :: queue_db where
  "empty_db = \<lparr>tq = [], next_id = 1, runs = [], concurrency = [], serial_groups = []\<rparr>"

lemma empty_db_init: "queue_init empty_db"
  by (simp add: queue_init_def empty_db_def)

theorem queue_reachable_well_formed_witness:
  "unique_ok (tq (EnqueueManualJob 1 ''build'' ''again'' ''os:ann'' 6 (EnqueueJob 1 ''build'' ''new'' ''check:git'' 5 empty_db)))"
proof -
  let ?a = "EnqueueJob 1 ''build'' ''new'' ''check:git'' 5 empty_db"
  have "(queue_step (\<lambda>_. None) UNIV)\<^sup>*\<^sup>* empty_db (EnqueueManualJob 1 ''build'' ''again'' ''os:ann'' 6 ?a)"
    using queue_step.enqueue queue_step.manual by (rule converse_rtranclp_into_rtranclp [OF _ r_into_rtranclp])
  from queue_reachable_well_formed [OF empty_db_init this] show ?thesis by blast
qed

text \<open>C1: the recovery a restart does never fails on a constraint; afterwards nothing of the pipeline is
  running, every row it did not have to touch is still there, a claimed job whose run had ended is closed
  with that run's status, and every other claimed job is queued again, with its retry and its run.\<close>

theorem reset_recovers:
  assumes "queue_inv db"
  shows "\<exists>db'. ResetStaleRunning p now db = Inr db'
    \<and> (\<forall>r \<in> set (tq db'). qr_pid r = p \<longrightarrow> qr_status r \<noteq> QueueRunning)
    \<and> (\<forall>r \<in> set (tq db). \<not> (qr_pid r = p \<and> qr_status r = QueueRunning) \<longrightarrow> r \<in> set (tq db'))
    \<and> (\<forall>r \<in> set (tq db). qr_pid r = p \<and> qr_status r = QueueRunning \<longrightarrow>
         (case ended_run db p r of
            None \<Rightarrow> work_kept r (tq db')
          | Some u \<Rightarrow> r\<lparr>qr_status := status_of_run (rr_status u), qr_finished := Some now\<rparr> \<in> set (tq db')))
    \<and> (\<forall>u \<in> set (runs db'). rr_pid u = p \<longrightarrow> rr_status u \<noteq> RunRunning)"
proof (intro exI conjI ballI impI)
  let ?mid = "(reset_collapse p (reset_drop_superseded p (reset_close_ended p now db)))\<lparr>tq := recovered_rows p now db\<rparr>"
  let ?db' = "reset_close_runs p now ?mid"
  show "ResetStaleRunning p now db = Inr ?db'" by (rule reset_stale_running_rows [OF assms])
  have rows: "tq ?db' = recovered_rows p now db" by (simp add: reset_close_runs_def)
  show "qr_status r \<noteq> QueueRunning" if "r \<in> set (tq ?db')" "qr_pid r = p" for r
    using that recovered_not_running unfolding rows by blast
  show "r \<in> set (tq ?db')" if "r \<in> set (tq db)" "\<not> (qr_pid r = p \<and> qr_status r = QueueRunning)" for r
    unfolding rows by (rule recovered_others [OF that])
  show "case ended_run db p r of None \<Rightarrow> work_kept r (tq ?db')
      | Some u \<Rightarrow> r\<lparr>qr_status := status_of_run (rr_status u), qr_finished := Some now\<rparr> \<in> set (tq ?db')"
    if "r \<in> set (tq db)" "qr_pid r = p \<and> qr_status r = QueueRunning" for r
    using that recovered_work [of r db p now] recovered_ended [of r db p] unfolding rows by (cases "ended_run db p r") simp_all
  show "rr_status u \<noteq> RunRunning" if "u \<in> set (runs ?db')" "rr_pid u = p" for u
    by (rule reset_close_runs_closed [OF that])
qed

theorem reset_recovers_witness:
  "\<exists>db'. ResetStaleRunning 1 9 (snd (ClaimNextJob 1 7 (EnqueueJob 1 ''build'' ''new'' ''check:git'' 5 empty_db))) = Inr db'"
proof -
  have "queue_inv (snd (ClaimNextJob 1 7 (EnqueueJob 1 ''build'' ''new'' ''check:git'' 5 empty_db)))"
    by (intro ClaimNextJob_inv EnqueueJob_inv queue_init_inv empty_db_init)
  from reset_recovers [OF this, of 1 9] show ?thesis by blast
qed



text \<open>C4: a claim takes the first row, in queueing order, that its job's limit and the serial groups
  admit, marks it running and changes nothing else; it answers nothing exactly when nothing is
  admissible.\<close>

theorem claim_takes_first_admissible:
  assumes "queue_inv db"
  shows "(case ClaimNextJob p now db of
      (None, db') \<Rightarrow> db' = db \<and> (\<forall>r \<in> set (tq db). \<not> admissible db p r)
    | (Some c, db') \<Rightarrow> \<exists>us r vs. tq db = us @ r # vs \<and> admissible db p r
        \<and> (\<forall>u \<in> set us. \<not> admissible db p u)
        \<and> cj_id c = qr_id r \<and> cj_job c = qr_job r \<and> cj_manual c = qr_manual r
        \<and> cj_rerun c = null_string (qr_rerun r) \<and> cj_resume c = null_string (qr_run r)
        \<and> db' = db\<lparr>tq := us @ r\<lparr>qr_status := QueueRunning, qr_started := Some now\<rparr> # vs\<rparr>)"
proof (cases "filter (admissible db p) (tq db) = []")
  case True
  then show ?thesis by (simp add: ClaimNextJob_None [OF assms True] filter_empty_conv)
next
  case False
  then obtain us r vs where r: "tq db = us @ r # vs" "admissible db p r" "filter (admissible db p) us = []"
    by (rule first_admissible)
  show ?thesis
    unfolding ClaimNextJob_Some [OF assms r]
    using r by simp (intro exI [of _ us] exI [of _ r] exI [of _ vs], simp add: filter_empty_conv)
qed

theorem claim_takes_first_admissible_witness:
  "fst (ClaimNextJob 1 7 (EnqueueJob 1 ''build'' ''new'' ''check:git'' 5 empty_db)) \<noteq> None"
proof -
  let ?db = "EnqueueJob 1 ''build'' ''new'' ''check:git'' 5 empty_db"
  have inv: "queue_inv ?db" by (intro EnqueueJob_inv queue_init_inv empty_db_init)
  have "list_ex (admissible ?db 1) (tq ?db)" by code_simp
  then show ?thesis
    using claim_takes_first_admissible [OF inv, of 1 7] unfolding list_ex_iff by (auto split: prod.splits option.splits)
qed

text \<open>C14: a person's run of a job leaves exactly one queued row for it, marked manual, with their
  reason and name, whether or not one was queued; a later automatic trigger leaves that row alone.\<close>

theorem manual_run_takes_the_row:
  assumes "queue_inv db"
  shows "(\<exists>r. filter (\<lambda>r. pending_job_key r = Some (p, j)) (tq (EnqueueManualJob p j reason by now db)) = [r]
            \<and> qr_manual r \<and> qr_reason r = reason \<and> qr_by r = by)
    \<and> EnqueueJob p j reason' by' now' (EnqueueManualJob p j reason by now db) = EnqueueManualJob p j reason by now db"
proof -
  let ?key = "\<lambda>r. pending_job_key r = Some (p, j)"
  let ?db' = "EnqueueManualJob p j reason by now db"
  have inv': "queue_inv ?db'" by (rule EnqueueManualJob_inv [OF assms])
  have one: "length (filter ?key (tq ?db')) \<le> 1"
  proof (rule ccontr)
    assume "\<not> length (filter ?key (tq ?db')) \<le> 1"
    then obtain a b rest where ab: "filter ?key (tq ?db') = a # b # rest"
      by (cases "filter ?key (tq ?db')"; cases "tl (filter ?key (tq ?db'))") auto
    have in_rows: "c \<in> set (tq ?db') \<and> ?key c" if "c \<in> {a, b}" for c
      using arg_cong [OF ab, of set] that unfolding set_filter by auto
    have "keyed pending_job_key (tq ?db')" and ids: "ids_ok (tq ?db') (next_id ?db')"
      using inv' unfolding queue_inv_rows_ok rows_ok_def by blast+
    then have "qr_id a = qr_id b"
      using keyedD [of pending_job_key "tq ?db'" a b] in_rows [of a] in_rows [of b] by blast
    moreover have "distinct (map qr_id (filter ?key (tq ?db')))"
      by (rule ids_ok_distinct [OF ids_ok_filter [OF ids]])
    ultimately show False unfolding ab by simp
  qed
  have ex: "list_ex (\<lambda>r. ?key r \<and> qr_manual r \<and> qr_reason r = reason \<and> qr_by r = by) (tq ?db')"
  proof (cases "list_ex ?key (tq db)")
    case True
    then obtain r where r: "r \<in> set (tq db)" "?key r" unfolding list_ex_iff by blast
    let ?f = "\<lambda>r. if ?key r then r\<lparr>qr_manual := True, qr_reason := reason, qr_by := by\<rparr> else r"
    have "tq ?db' = map ?f (tq db)"
      using True by (simp add: EnqueueManualJob_def del: pending_job_key_Some)
    then have "?f r \<in> set (tq ?db')" using r(1) by (simp only: set_map) (rule imageI)
    then show ?thesis using r(2) unfolding list_ex_iff by (intro bexI [of _ "?f r"]) simp_all
  next
    case False
    then show ?thesis by (simp add: EnqueueManualJob_def insert_row_def new_row_def)
  qed
  then obtain r where r: "r \<in> set (filter ?key (tq ?db'))" "qr_manual r" "qr_reason r = reason" "qr_by r = by"
    unfolding list_ex_iff by auto
  have "filter ?key (tq ?db') = [r]"
    using r(1) one by (cases "filter ?key (tq ?db')"; cases "tl (filter ?key (tq ?db'))") auto
  moreover have "list_ex ?key (tq ?db')" using r(1) unfolding list_ex_iff by auto
  ultimately show ?thesis using r(2-4) by (simp add: EnqueueJob_def enqueueJob_def)
qed

theorem manual_run_takes_the_row_witness:
  "EnqueueJob 1 ''build'' ''new'' ''check:git'' 8 (EnqueueManualJob 1 ''build'' ''again'' ''os:ann'' 6 empty_db)
     = EnqueueManualJob 1 ''build'' ''again'' ''os:ann'' 6 empty_db"
  using manual_run_takes_the_row [OF queue_init_inv [OF empty_db_init], of 1 "''build''" "''again''" "''os:ann''" 6]
  by blast

subsection \<open>One database, several pipelines\<close>

lemma pruneTriggerQueue_tq:
  assumes "0 < n"
  shows "tq (pruneTriggerQueue p j n db) = filter (\<lambda>r. \<not> ((qr_pid r = p \<and> qr_job r = j \<and> finished r)
      \<and> qr_id r \<notin> set (map qr_id (rowLimit n (rev (sort_key qr_id
          (filter (\<lambda>r. qr_pid r = p \<and> qr_job r = j \<and> finished r) (tq db)))))))) (tq db)"
proof -
  have "\<not> n \<le> 0" using assms by simp
  then show ?thesis by (cases db) (simp only: pruneTriggerQueue_def Let_def if_False queue_db.simps)
qed

lemma filter_take_ids:
  assumes "distinct (map f xs)"
  shows "filter (\<lambda>x. f x \<in> f ` set (take k xs)) xs = take k xs"
proof -
  have "distinct (map f (take k xs @ drop k xs))" using assms by simp
  then have "f ` set (take k xs) \<inter> f ` set (drop k xs) = {}"
    unfolding map_append distinct_append by simp
  then have "filter (\<lambda>x. f x \<in> f ` set (take k xs)) (drop k xs) = []"
    by (auto simp: filter_empty_conv)
  moreover have "filter (\<lambda>x. f x \<in> f ` set (take k xs)) (take k xs) = take k xs"
    by (simp add: filter_id_conv)
  ultimately show ?thesis by (metis append_Nil2 append_take_drop_id filter_append)
qed









text \<open>C15: retention keeps exactly the newest \<open>n\<close> finished rows of the job, in order, and every row that
  is queued, running or another job's.\<close>

theorem prune_keeps_newest:
  assumes "queue_inv db" and "0 < n"
  shows "filter (\<lambda>r. qr_pid r = p \<and> qr_job r = j \<and> finished r) (tq (pruneTriggerQueue p j n db))
      = rev (take (nat n) (rev (filter (\<lambda>r. qr_pid r = p \<and> qr_job r = j \<and> finished r) (tq db))))
    \<and> filter (\<lambda>r. \<not> (qr_pid r = p \<and> qr_job r = j \<and> finished r)) (tq (pruneTriggerQueue p j n db))
      = filter (\<lambda>r. \<not> (qr_pid r = p \<and> qr_job r = j \<and> finished r)) (tq db)"
proof -
  let ?mine = "\<lambda>r. qr_pid r = p \<and> qr_job r = j \<and> finished r"
  have ids: "ids_ok (tq db) (next_id db)" using assms(1) by (simp add: queue_inv_def)
  let ?xs = "filter ?mine (tq db)"
  let ?keep = "take (nat n) (rev ?xs)"
  have keep: "rowLimit n (rev (sort_key qr_id ?xs)) = ?keep"
    using assms(2) unfolding rowLimit_def ids_ok_sort_filter [OF ids] by simp
  have tq': "tq (pruneTriggerQueue p j n db) = filter (\<lambda>r. \<not> (?mine r \<and> qr_id r \<notin> qr_id ` set ?keep)) (tq db)"
    unfolding pruneTriggerQueue_tq [OF assms(2)] keep set_map ..
  have "filter ?mine (tq (pruneTriggerQueue p j n db)) = filter (\<lambda>r. qr_id r \<in> qr_id ` set ?keep) ?xs"
    unfolding tq' filter_filter by (rule filter_cong [OF refl]) blast
  also have "\<dots> = rev ?keep"
  proof -
    have d: "distinct (map qr_id (rev ?xs))"
      using ids_ok_distinct [OF ids_ok_filter [OF ids, of ?mine]] by (simp add: rev_map [symmetric])
    have "filter (\<lambda>r. qr_id r \<in> qr_id ` set ?keep) (rev ?xs) = ?keep"
      by (rule filter_take_ids [OF d])
    from arg_cong [OF this, of rev] show ?thesis by (simp only: rev_filter rev_rev_ident)
  qed
  finally have mine: "filter ?mine (tq (pruneTriggerQueue p j n db)) = rev ?keep" .
  have "filter (\<lambda>r. \<not> ?mine r) (tq (pruneTriggerQueue p j n db)) = filter (\<lambda>r. \<not> ?mine r) (tq db)"
    unfolding tq' filter_filter by (rule filter_cong [OF refl]) blast
  with mine show ?thesis by blast
qed

theorem prune_keeps_newest_witness:
  "filter (\<lambda>r. \<not> (qr_pid r = 1 \<and> qr_job r = ''build'' \<and> finished r))
      (tq (pruneTriggerQueue 1 ''build'' 5 (EnqueueJob 1 ''build'' ''new'' ''check:git'' 5 empty_db)))
    = filter (\<lambda>r. \<not> (qr_pid r = 1 \<and> qr_job r = ''build'' \<and> finished r))
      (tq (EnqueueJob 1 ''build'' ''new'' ''check:git'' 5 empty_db))"
proof -
  have "queue_inv (EnqueueJob 1 ''build'' ''new'' ''check:git'' 5 empty_db)"
    by (intro EnqueueJob_inv queue_init_inv empty_db_init)
  from prune_keeps_newest [OF this, of 5 1 "''build''"] show ?thesis by simp
qed

end
