(* ===== verification/SsmMessage.thy ===== *)
theory SsmMessage
  imports Prelude
begin

text \<open>
  \<^verbatim>\<open>internal/venue/ssmdial/message.go\<close>, with the constants of \<^verbatim>\<open>protocol.go\<close>:
  the agent message format of an SSM session, byte for byte.

  \<^verbatim>\<open>crypto/sha256\<close> is the parameter \<open>sha\<close>. Go's int64 and the named unsigned types are words of
  their width; a creation date is its milliseconds since the epoch, the only part of it the wire carries.
\<close>

subsection \<open>protocol.go\<close>

definition ascii :: "string \<Rightarrow> byte list" where
  "ascii s = map of_char s"

definition msgAcknowledge :: "byte list" where "msgAcknowledge = ascii ''acknowledge''"
definition msgChannelClosed :: "byte list" where "msgChannelClosed = ascii ''channel_closed''"
definition msgOutputStreamData :: "byte list" where "msgOutputStreamData = ascii ''output_stream_data''"
definition msgInputStreamData :: "byte list" where "msgInputStreamData = ascii ''input_stream_data''"
definition msgPausePublication :: "byte list" where "msgPausePublication = ascii ''pause_publication''"
definition msgStartPublication :: "byte list" where "msgStartPublication = ascii ''start_publication''"

lemmas message_types = msgAcknowledge_def msgChannelClosed_def msgOutputStreamData_def
  msgInputStreamData_def msgPausePublication_def msgStartPublication_def

definition flagData :: u64 where "flagData = 0"
definition flagSyn :: u64 where "flagSyn = 1"
definition flagAck :: u64 where "flagAck = 3"

definition payloadUndefined :: u32 where "payloadUndefined = 0"
definition payloadOutput :: u32 where "payloadOutput = 1"
definition payloadHandshakeRequest :: u32 where "payloadHandshakeRequest = 5"
definition payloadHandshakeResponse :: u32 where "payloadHandshakeResponse = 6"
definition payloadHandshakeComplete :: u32 where "payloadHandshakeComplete = 7"
definition payloadEncChallengeRequest :: u32 where "payloadEncChallengeRequest = 8"
definition payloadFlag :: u32 where "payloadFlag = 10"

lemmas payload_types = payloadUndefined_def payloadOutput_def payloadHandshakeRequest_def
  payloadHandshakeResponse_def payloadHandshakeComplete_def payloadEncChallengeRequest_def payloadFlag_def

definition flagTerminateSession :: u32 where "flagTerminateSession = 2"

text \<open>Milliseconds, then bytes.\<close>

definition resendInterval :: nat where "resendInterval = 200"
definition maxOutboundPayload :: nat where "maxOutboundPayload = 1024"

subsection \<open>message.go\<close>

definition headerLen :: nat where "headerLen = 116"
definition messageTypeLen :: nat where "messageTypeLen = 32"
definition maxPayloadBytes :: nat where "maxPayloadBytes = 16777216"

record agent_message =
  am_headerLength :: u32
  am_messageType :: "byte list"
  am_schemaVersion :: u32
  am_createdMilli :: u64
  am_sequenceNumber :: u64
  am_flags :: u64
  am_messageID :: "byte list"
  am_payloadDigest :: "byte list"
  am_payloadType :: u32
  am_payloadLength :: u32
  am_payload :: "byte list"

text \<open>Go's zero value, which \<^verbatim>\<open>handle\<close> unmarshals into.\<close>

definition zero_message :: agent_message where
  "zero_message = \<lparr>am_headerLength = 0, am_messageType = [], am_schemaVersion = 0, am_createdMilli = 0,
     am_sequenceNumber = 0, am_flags = 0, am_messageID = replicate 16 0, am_payloadDigest = [],
     am_payloadType = 0, am_payloadLength = 0, am_payload = []\<rparr>"

definition newAgentMessage :: "u64 \<Rightarrow> byte list \<Rightarrow> agent_message" where
  "newAgentMessage now uuid = zero_message
     \<lparr>am_headerLength := word_of_nat headerLen, am_schemaVersion := 1, am_createdMilli := now, am_messageID := uuid\<rparr>"

definition paddedType :: "byte list \<Rightarrow> byte list" where
  "paddedType t = take messageTypeLen t @ replicate (messageTypeLen - length t) 32"

text \<open>Called on sixteen bytes.\<close>

definition swapUUIDHalves :: "byte list \<Rightarrow> byte list" where
  "swapUUIDHalves bs = drop 8 bs @ take 8 bs"

definition marshal :: "(byte list \<Rightarrow> byte list) \<Rightarrow> agent_message \<Rightarrow> byte list" where
  "marshal sha m =
     put_u32 (am_headerLength m) @ paddedType (am_messageType m) @ put_u32 (am_schemaVersion m)
     @ put_u64 (am_createdMilli m) @ put_u64 (am_sequenceNumber m) @ put_u64 (am_flags m)
     @ swapUUIDHalves (am_messageID m) @ sha (am_payload m) @ put_u32 (am_payloadType m)
     @ put_u32 (word_of_nat (length (am_payload m))) @ am_payload m"

text \<open>
  \<^verbatim>\<open>bytes.TrimSpace\<close> takes off, at either end, what decodes as a Unicode space in UTF-8; these
  are the encodings.
\<close>

definition space_encodings :: "byte list list" where
  "space_encodings =
     [[9], [10], [11], [12], [13], [32], [0xC2, 0x85], [0xC2, 0xA0], [0xE1, 0x9A, 0x80]]
     @ map (\<lambda>n. [0xE2, 0x80, word_of_nat (0x80 + n)]) [0..<11]
     @ [[0xE2, 0x80, 0xA8], [0xE2, 0x80, 0xA9], [0xE2, 0x80, 0xAF], [0xE2, 0x81, 0x9F], [0xE3, 0x80, 0x80]]"

definition strip_one :: "byte list list \<Rightarrow> byte list \<Rightarrow> byte list option" where
  "strip_one encs bs =
     map_option (\<lambda>e. drop (length e) bs) (find (\<lambda>e. e \<noteq> [] \<and> take (length e) bs = e) encs)"

function trim_front :: "byte list list \<Rightarrow> byte list \<Rightarrow> byte list" where
  "trim_front encs bs = (case strip_one encs bs of None \<Rightarrow> bs | Some rest \<Rightarrow> trim_front encs rest)"
  by pat_completeness auto

lemma strip_one_shorter: "strip_one encs bs = Some rest \<Longrightarrow> length rest < length bs"
  by (auto simp: strip_one_def find_Some_iff) (metis length_greater_0_conv list.size(3) take_eq_Nil
      diff_less nth_mem)

termination trim_front
  by (relation "measure (\<lambda>(_, bs). length bs)") (auto dest: strip_one_shorter)

definition TrimSpace :: "byte list \<Rightarrow> byte list" where
  "TrimSpace bs = rev (trim_front (map rev space_encodings) (rev (trim_front space_encodings bs)))"

definition TrimRight0 :: "byte list \<Rightarrow> byte list" where
  "TrimRight0 bs = rev (dropWhile (\<lambda>b. b = 0) (rev bs))"

datatype malformed =
    ShorterThanHeader nat
  | BadHeaderLength u32
  | TruncatedBeforeLength
  | PayloadTooLong u32
  | PayloadTruncated nat u32

definition slice :: "nat \<Rightarrow> nat \<Rightarrow> byte list \<Rightarrow> byte list" where
  "slice a b bs = take (b - a) (drop a bs)"

definition unmarshal :: "agent_message \<Rightarrow> byte list \<Rightarrow> malformed + agent_message" where
  "unmarshal m bs =
     (if length bs < headerLen then Inl (ShorterThanHeader (length bs))
      else let hl = get_u32 bs in
      if unat hl > headerLen \<or> unat hl < headerLen - 4 then Inl (BadHeaderLength hl)
      else let m1 = m\<lparr>am_headerLength := hl,
                      am_messageType := TrimSpace (TrimRight0 (slice 4 36 bs)),
                      am_schemaVersion := get_u32 (slice 36 40 bs),
                      am_createdMilli := get_u64 (slice 40 48 bs),
                      am_sequenceNumber := get_u64 (slice 48 56 bs),
                      am_flags := get_u64 (slice 56 64 bs),
                      am_messageID := swapUUIDHalves (slice 64 80 bs),
                      am_payloadDigest := slice 80 112 bs\<rparr>;
               m2 = (if unat hl = headerLen
                     then m1\<lparr>am_payloadType := get_u32 (slice 112 headerLen bs)\<rparr> else m1);
               lengthEnd = unat hl + 4
           in
      if length bs < lengthEnd then Inl TruncatedBeforeLength
      else let plen = get_u32 (slice (unat hl) lengthEnd bs) in
      if unat plen > maxPayloadBytes then Inl (PayloadTooLong plen)
      else let payloadEnd = lengthEnd + unat plen in
      if length bs < payloadEnd then Inl (PayloadTruncated (length bs - lengthEnd) plen)
      else Inr (m2\<lparr>am_payloadLength := plen, am_payload := slice lengthEnd payloadEnd bs\<rparr>))"

declare trim_front.simps [simp del]

subsection \<open>Lemmas\<close>

definition messageTypes :: "byte list list" where
  "messageTypes = [msgAcknowledge, msgChannelClosed, msgOutputStreamData, msgInputStreamData,
     msgPausePublication, msgStartPublication]"

lemma read_padded_type: "list_all (\<lambda>t. TrimSpace (TrimRight0 (paddedType t)) = t) messageTypes"
  by code_simp

lemma swap_twice: "length bs = 16 \<Longrightarrow> swapUUIDHalves (swapUUIDHalves bs) = bs"
  by (simp add: swapUUIDHalves_def)

lemma length_swap [simp]: "length (swapUUIDHalves bs) = length bs"
  by (simp add: swapUUIDHalves_def)

lemma length_paddedType [simp]: "length (paddedType t) = 32"
  by (simp add: paddedType_def messageTypeLen_def)

lemma slice_skip: "length xs \<le> a \<Longrightarrow> slice a b (xs @ ys) = slice (a - length xs) (b - length xs) ys"
  by (simp add: slice_def)

lemma slice_take: "length xs = b \<Longrightarrow> slice 0 b (xs @ ys) = xs"
  by (simp add: slice_def)

lemma get_u32_exact [simp]: "get_u32 (put_u32 w) = w"
  using get_put_u32 [of w "[]"] by simp

lemma get_u64_exact [simp]: "get_u64 (put_u64 w) = w"
  using get_put_u64 [of w "[]"] by simp

lemma wire_slices:
  assumes "length type = 32" "length uuid = 16" "length digest = 32"
    and "bs = put_u32 hl @ type @ put_u32 sv @ put_u64 cd @ put_u64 sq @ put_u64 fl @ uuid @ digest
           @ put_u32 pt @ put_u32 pl @ rest"
  shows "get_u32 bs = hl" "slice 4 36 bs = type" "slice 36 40 bs = put_u32 sv" "slice 40 48 bs = put_u64 cd"
    "slice 48 56 bs = put_u64 sq" "slice 56 64 bs = put_u64 fl" "slice 64 80 bs = uuid" "slice 80 112 bs = digest"
    "slice 112 116 bs = put_u32 pt" "slice 116 120 bs = put_u32 pl" "slice 120 n bs = take (n - 120) rest"
  using assms by (simp_all add: slice_skip slice_take) (simp_all add: slice_def)

lemma read_back:
  assumes "am_headerLength m = 116" and "length (am_messageID m) = 16"
    and "am_messageType m \<in> set messageTypes"
    and "length (am_payload m) \<le> maxPayloadBytes" and "length (sha (am_payload m)) = 32"
  shows "unmarshal z (marshal sha m @ rest) =
    Inr (m\<lparr>am_payloadDigest := sha (am_payload m), am_payloadLength := word_of_nat (length (am_payload m))\<rparr>)"
proof -
  have pl: "unat (word_of_nat (length (am_payload m)) :: u32) = length (am_payload m)"
    using assms(4) by (simp add: unat_of_nat maxPayloadBytes_def)
  have ty: "TrimSpace (TrimRight0 (paddedType (am_messageType m))) = am_messageType m"
    using read_padded_type assms(3) by (auto simp: list_all_iff)
  have wire: "marshal sha m @ rest = put_u32 (am_headerLength m) @ paddedType (am_messageType m)
      @ put_u32 (am_schemaVersion m) @ put_u64 (am_createdMilli m) @ put_u64 (am_sequenceNumber m) @ put_u64 (am_flags m)
      @ swapUUIDHalves (am_messageID m) @ sha (am_payload m) @ put_u32 (am_payloadType m)
      @ put_u32 (word_of_nat (length (am_payload m))) @ am_payload m @ rest"
    by (simp add: marshal_def)
  note slices = wire_slices [OF _ _ _ wire, simplified, OF assms(2,5)]
  have len: "length (marshal sha m @ rest) = 120 + length (am_payload m) + length rest"
    unfolding wire using assms(2,5) by simp
  show ?thesis
    unfolding unmarshal_def Let_def slices len
    using assms(1,2,4)
    by (simp add: headerLen_def slices [unfolded headerLen_def] pl ty swap_twice)
qed

subsection \<open>Properties\<close>

text \<open>C10: a message this end frames reads back field for field, whatever follows it in the buffer, with
  the digest and the length the payload has.\<close>

theorem unmarshal_marshal:
  assumes "am_headerLength m = 116" and "length (am_messageID m) = 16"
    and "am_messageType m \<in> set messageTypes"
    and "length (am_payload m) \<le> maxPayloadBytes" and "length (sha (am_payload m)) = 32"
  shows "unmarshal z (marshal sha m @ rest) =
    Inr (m\<lparr>am_payloadDigest := sha (am_payload m), am_payloadLength := word_of_nat (length (am_payload m))\<rparr>)"
  using assms by (rule read_back)

text \<open>A concrete digest, for examples: 32 copies of the length's low byte.\<close>

definition toy_digest :: "byte list \<Rightarrow> byte list" where
  "toy_digest bs = replicate 32 (word_of_nat (length bs))"

definition hello :: agent_message where
  "hello = (newAgentMessage 7 (replicate 16 3))\<lparr>am_messageType := msgInputStreamData,
     am_payloadType := payloadOutput, am_payload := [104, 105]\<rparr>"

lemma hello_ok:
  "am_headerLength hello = 116" "length (am_messageID hello) = 16" "am_messageType hello \<in> set messageTypes"
  "length (am_payload hello) \<le> maxPayloadBytes" "length (toy_digest (am_payload hello)) = 32"
  by (simp_all add: hello_def newAgentMessage_def zero_message_def headerLen_def messageTypes_def
        toy_digest_def maxPayloadBytes_def)

theorem unmarshal_marshal_witness:
  "unmarshal zero_message (marshal toy_digest hello @ [9])
     = Inr (hello\<lparr>am_payloadDigest := toy_digest [104, 105], am_payloadLength := 2\<rparr>)"
proof -
  have "unmarshal zero_message (marshal toy_digest hello @ [9])
      = Inr (hello\<lparr>am_payloadDigest := toy_digest (am_payload hello), am_payloadLength := word_of_nat (length (am_payload hello))\<rparr>)"
    by (rule unmarshal_marshal [where m = hello and sha = toy_digest, OF hello_ok])
  then show ?thesis by (simp add: hello_def newAgentMessage_def zero_message_def)
qed

text \<open>C11: what the parser accepts is inside the frame: the payload has the length its header claims, at
  most the cap, and stands in the data right after the length field; anything else is an error, never a
  read past the end.\<close>

theorem unmarshal_in_bounds:
  assumes "unmarshal z bs = Inr m"
  shows "headerLen \<le> length bs \<and> unat (am_headerLength m) \<in> {headerLen - 4 .. headerLen}
    \<and> length (am_payload m) = unat (am_payloadLength m) \<and> unat (am_payloadLength m) \<le> maxPayloadBytes
    \<and> length (am_messageID m) = 16 \<and> length (am_payloadDigest m) = 32
    \<and> (\<exists>rest. bs = take (unat (am_headerLength m) + 4) bs @ am_payload m @ rest)"
proof -
  define hl where "hl = get_u32 bs"
  define le where "le = unat hl + 4"
  define plen where "plen = get_u32 (slice (unat hl) le bs)"
  have ok: "headerLen \<le> length bs" "unat hl \<le> headerLen" "headerLen - 4 \<le> unat hl" "unat plen \<le> maxPayloadBytes"
    "le + unat plen \<le> length bs"
    using assms unfolding unmarshal_def Let_def hl_def le_def plen_def by (auto split: if_splits)
  have sel: "am_headerLength m = hl" "am_payloadLength m = plen" "am_payload m = slice le (le + unat plen) bs"
    "am_messageID m = swapUUIDHalves (slice 64 80 bs)" "am_payloadDigest m = slice 80 112 bs"
    using assms unfolding unmarshal_def Let_def hl_def le_def plen_def by (auto split: if_splits)
  have "slice le (le + unat plen) bs @ drop (le + unat plen) bs = drop le bs"
    by (metis append_take_drop_id add_diff_cancel_left' drop_drop add.commute slice_def)
  then have "bs = take le bs @ slice le (le + unat plen) bs @ drop (le + unat plen) bs"
    by (metis append_take_drop_id)
  then show ?thesis using ok sel le_def by (auto simp: slice_def headerLen_def)
qed

theorem unmarshal_in_bounds_witness:
  "length (am_payload (hello\<lparr>am_payloadDigest := toy_digest [104, 105], am_payloadLength := 2\<rparr>)) = 2"
proof -
  from unmarshal_in_bounds [OF read_back [where m = hello and sha = toy_digest and z = zero_message and rest = "[]", OF hello_ok]]
  show ?thesis by (simp add: hello_def)
qed

end
