(* ===== verification/SsmChannel.thy ===== *)
theory SsmChannel
  imports SsmMessage "HOL-Library.AList"
begin

text \<open>
  \<^verbatim>\<open>internal/venue/ssmdial/channel.go\<close>: an SSM session as a byte pipe. Outbound messages are
  numbered and kept until the agent acknowledges them; inbound ones are acknowledged, put back in order
  and handed to Read.

  A method that takes the lock and runs to its end is one definition over the channel's state. The Go maps
  are association lists with distinct keys, int64 numbers are integers with the wrap written as \<open>int64\<close>, and
  the buffered Go channel \<^verbatim>\<open>delivered\<close> is the list of what it holds; a sender waits for room in
  it. What the model is given, in \<open>wire_codec\<close> and \<open>env\<close>: the digest and the JSON codec, the clock, the
  fresh message ids, whether each websocket write succeeded, and, once the channel is stopped, which case
  of a select ran. The dial, the handshake wait and the tickers are not modelled.
\<close>

subsection \<open>State\<close>

definition int64 :: "int \<Rightarrow> int" where
  "int64 x = sint (word_of_int x :: u64)"

datatype chan_error =
    ChanEOF
  | NetClosed
  | Transport string
  | Ended chan_error
  | Malformed malformed
  | ErrBacklog nat int int
  | ErrUnacked int
  | ErrOutOfOrder int int
  | ErrChannelClosed "byte list"
  | NeedsEncryption
  | BadHandshake

fun is_EOF :: "chan_error \<Rightarrow> bool" where
  "is_EOF ChanEOF = True"
| "is_EOF (Ended e) = is_EOF e"
| "is_EOF _ = False"

record ack_content =
  ac_type :: "byte list"
  ac_id :: "byte list"
  ac_seq :: u64
  ac_sequential :: bool

datatype action_kind = SessionType | KMSEncryption | OtherAction "byte list"

datatype action_status = ActionSuccess | ActionUnsupported

record wire_codec =
  wc_sha :: "byte list \<Rightarrow> byte list"
  wc_uuid_text :: "byte list \<Rightarrow> byte list"
  wc_enc_ack :: "ack_content \<Rightarrow> byte list"
  wc_dec_ack :: "byte list \<Rightarrow> ack_content option"
  wc_dec_request :: "byte list \<Rightarrow> (byte list \<times> action_kind list) option"
  wc_enc_response :: "byte list \<Rightarrow> (action_kind \<times> action_status \<times> string) list \<Rightarrow> byte list"
  wc_dec_closed :: "byte list \<Rightarrow> (byte list) option"

record env =
  env_now :: nat
  env_uuid :: "nat \<Rightarrow> byte list"
  env_write :: "nat \<Rightarrow> string option"
  env_room :: "nat \<Rightarrow> bool"

record channel =
  ch_seq :: int
  ch_synSent :: bool
  ch_unacked :: "(int \<times> (agent_message \<times> nat)) list"
  ch_unackedBytes :: int
  ch_closed :: bool
  ch_closeErr :: "chan_error option"
  ch_delivered :: "byte list list"
  ch_pending :: "byte list"
  ch_handshaked :: bool
  ch_inSeq :: int
  ch_inSeqSeeded :: bool
  ch_inLowest :: int
  ch_inBuf :: "(int \<times> byte list) list"
  ch_inBufBytes :: int
  ch_agentVersion :: "byte list"
  ch_stopped :: bool
  ch_closeResult :: "string option option"
  ch_wire :: "byte list list"
  ch_writes :: nat
  ch_made :: nat

definition new_channel :: channel where
  "new_channel = \<lparr>ch_seq = 0, ch_synSent = False, ch_unacked = [], ch_unackedBytes = 0, ch_closed = False,
     ch_closeErr = None, ch_delivered = [], ch_pending = [], ch_handshaked = False, ch_inSeq = 0,
     ch_inSeqSeeded = False, ch_inLowest = 0, ch_inBuf = [], ch_inBufBytes = 0, ch_agentVersion = [],
     ch_stopped = False, ch_closeResult = None, ch_wire = [], ch_writes = 0, ch_made = 0\<rparr>"

definition maxBacklogFrames :: nat where "maxBacklogFrames = 4096"
definition maxBacklogBytes :: int where "maxBacklogBytes = 8388608"

definition clientVersion :: "byte list" where "clientVersion = ascii ''1.1.0''"

subsection \<open>Sending\<close>

definition fresh_message :: "env \<Rightarrow> channel \<Rightarrow> agent_message \<times> channel" where
  "fresh_message env c =
     (newAgentMessage (word_of_nat (env_now env)) (env_uuid env (ch_made c)), c\<lparr>ch_made := Suc (ch_made c)\<rparr>)"

definition stampLocked :: "nat \<Rightarrow> agent_message \<Rightarrow> bool \<Rightarrow> channel \<Rightarrow> (chan_error + agent_message) \<times> channel" where
  "stampLocked now m retain c =
     (if am_messageType m = msgAcknowledge then (Inr (m\<lparr>am_flags := flagAck\<rparr>), c)
      else if retain \<and> ch_unackedBytes c + int (length (am_payload m)) > maxBacklogBytes
      then (Inl (ErrUnacked (ch_unackedBytes c)), c)
      else let sq = (if \<not> ch_synSent c then 0 else int64 (ch_seq c + 1));
               m' = m\<lparr>am_flags := if \<not> ch_synSent c then flagSyn else flagData,
                      am_sequenceNumber := word_of_int sq\<rparr>;
               c' = c\<lparr>ch_synSent := True, ch_seq := sq\<rparr>
           in (Inr m',
               if retain
               then c'\<lparr>ch_unackedBytes := ch_unackedBytes c' + int (length (am_payload m')),
                       ch_unacked := AList.update sq (m', now) (ch_unacked c')\<rparr>
               else c'))"

definition writeMessage :: "wire_codec \<Rightarrow> env \<Rightarrow> agent_message \<Rightarrow> channel \<Rightarrow> chan_error option \<times> channel" where
  "writeMessage wc env m c =
     (case env_write env (ch_writes c) of
        Some e \<Rightarrow> (Some (Transport e), c\<lparr>ch_writes := Suc (ch_writes c)\<rparr>)
      | None \<Rightarrow> (None, c\<lparr>ch_writes := Suc (ch_writes c), ch_wire := ch_wire c @ [marshal (wc_sha wc) m]\<rparr>))"

definition send :: "wire_codec \<Rightarrow> env \<Rightarrow> agent_message \<Rightarrow> bool \<Rightarrow> channel \<Rightarrow> chan_error option \<times> channel" where
  "send wc env m retain c =
     (if ch_closed c
      then (Some (case ch_closeErr c of None \<Rightarrow> NetClosed | Some cause \<Rightarrow> if is_EOF cause then NetClosed else cause), c)
      else (case stampLocked (env_now env) m retain c of
              (Inl e, c') \<Rightarrow> (Some e, c')
            | (Inr m', c') \<Rightarrow> writeMessage wc env m' c'))"

text \<open>Write's loop, from the bytes still to send and the offset they start at.\<close>

function write_from ::
  "wire_codec \<Rightarrow> env \<Rightarrow> nat \<Rightarrow> byte list \<Rightarrow> channel \<Rightarrow> (nat \<times> chan_error option) \<times> channel" where
  "write_from wc env off p c =
     (if p = [] then ((off, None), c)
      else let (m0, c1) = fresh_message env c;
               m = m0\<lparr>am_messageType := msgInputStreamData, am_payloadType := payloadOutput,
                      am_payload := take maxOutboundPayload p\<rparr>
           in (case send wc env m True c1 of
                 (Some e, c2) \<Rightarrow> ((off, Some e), c2)
               | (None, c2) \<Rightarrow> write_from wc env (off + min maxOutboundPayload (length p))
                                (drop maxOutboundPayload p) c2))"
  by pat_completeness auto

termination write_from
  by (relation "measure (\<lambda>(wc, env, off, p, c). length p)") (auto simp: maxOutboundPayload_def)

declare write_from.simps [simp del]

definition channel_Write :: "wire_codec \<Rightarrow> env \<Rightarrow> byte list \<Rightarrow> channel \<Rightarrow> (nat \<times> chan_error option) \<times> channel" where
  "channel_Write wc env p c = write_from wc env 0 p c"

subsection \<open>Receiving\<close>

definition acknowledge :: "wire_codec \<Rightarrow> env \<Rightarrow> agent_message \<Rightarrow> channel \<Rightarrow> chan_error option \<times> channel" where
  "acknowledge wc env m c =
     (let (a, c1) = fresh_message env c
      in send wc env (a\<lparr>am_messageType := msgAcknowledge, am_payloadType := payloadUndefined,
                        am_sequenceNumber := am_sequenceNumber m,
                        am_payload := wc_enc_ack wc \<lparr>ac_type = am_messageType m,
                          ac_id = wc_uuid_text wc (am_messageID m), ac_seq = am_sequenceNumber m,
                          ac_sequential = True\<rparr>\<rparr>) False c1)"

text \<open>The contiguous run from the watermark on, taken out of the buffer.\<close>

function drain ::
  "int \<Rightarrow> (int \<times> byte list) list \<Rightarrow> int \<Rightarrow> byte list list \<times> int \<times> (int \<times> byte list) list \<times> int" where
  "drain s buf n =
     (case map_of buf s of
        None \<Rightarrow> ([], s, buf, n)
      | Some next \<Rightarrow>
          (let (run, s', buf', n') = drain (int64 (s + 1)) (AList.delete s buf) (n - int (length next))
           in (next # run, s', buf', n')))"
  by pat_completeness auto

lemma length_delete_less: "map_of buf s = Some x \<Longrightarrow> length (AList.delete s buf) < length buf"
  unfolding AList.delete_eq by (rule length_filter_less [of "(s, x)"]) (auto dest: map_of_SomeD)

termination drain
  by (relation "measure (\<lambda>(s, buf, n). length buf)") (auto intro: length_delete_less)

declare drain.simps [simp del]

definition frame_number :: "agent_message \<Rightarrow> int" where
  "frame_number m = sint (am_sequenceNumber m)"

definition reassemble :: "agent_message \<Rightarrow> channel \<Rightarrow> (chan_error + byte list list) \<times> channel" where
  "reassemble m c0 =
     (let sq = frame_number m;
          c = (if \<not> ch_inSeqSeeded c0
               then c0\<lparr>ch_inSeq := sq, ch_inLowest := sq, ch_inSeqSeeded := True\<rparr> else c0)
      in if ch_inSeqSeeded c0 \<and> sq < ch_inLowest c0 then (Inl (ErrOutOfOrder sq (ch_inLowest c0)), c)
         else if ch_inSeqSeeded c0 \<and> sq < ch_inSeq c0 then (Inr [], c)
         else if sq \<noteq> ch_inSeq c \<and> (length (ch_inBuf c) \<ge> maxBacklogFrames
                   \<or> ch_inBufBytes c + int (length (am_payload m)) > maxBacklogBytes)
         then (Inl (ErrBacklog (length (ch_inBuf c)) (ch_inBufBytes c) (ch_inSeq c)), c)
         else let held = (case map_of (ch_inBuf c) sq of None \<Rightarrow> [] | Some h \<Rightarrow> h);
                  (run, s', buf', n') = drain (ch_inSeq c) (AList.update sq (am_payload m) (ch_inBuf c))
                     (ch_inBufBytes c + (int (length (am_payload m)) - int (length held)))
              in (Inr run, c\<lparr>ch_inSeq := s', ch_inBuf := buf', ch_inBufBytes := n'\<rparr>))"

definition fail :: "chan_error \<Rightarrow> channel \<Rightarrow> channel" where
  "fail e c = c\<lparr>ch_closeErr := (case ch_closeErr c of None \<Rightarrow> Some e | Some e' \<Rightarrow> Some e'),
                ch_closed := True, ch_stopped := True\<rparr>"

definition channel_err :: "channel \<Rightarrow> chan_error" where
  "channel_err c = (case ch_closeErr c of None \<Rightarrow> ChanEOF | Some e \<Rightarrow> e)"

fun hand_on :: "env \<Rightarrow> nat \<Rightarrow> byte list list \<Rightarrow> channel \<Rightarrow> chan_error option \<times> channel" where
  "hand_on env i [] c = (None, c)"
| "hand_on env i (chunk # run) c =
     (if chunk = [] then hand_on env (Suc i) run c
      else if ch_stopped c \<and> \<not> env_room env i then (Some (channel_err c), c)
      else hand_on env (Suc i) run (c\<lparr>ch_delivered := ch_delivered c @ [chunk]\<rparr>))"

definition deliver :: "wire_codec \<Rightarrow> env \<Rightarrow> agent_message \<Rightarrow> channel \<Rightarrow> chan_error option \<times> channel" where
  "deliver wc env m c =
     (case acknowledge wc env m c of
        (Some e, c1) \<Rightarrow> (Some e, c1)
      | (None, c1) \<Rightarrow>
          (case reassemble m c1 of
             (Inl e, c2) \<Rightarrow> (Some e, c2)
           | (Inr run, c2) \<Rightarrow> hand_on env 0 run c2))"

definition reserve :: "wire_codec \<Rightarrow> env \<Rightarrow> agent_message \<Rightarrow> channel \<Rightarrow> chan_error option \<times> channel" where
  "reserve wc env m c = deliver wc env (m\<lparr>am_payload := []\<rparr>) c"

fun process_action :: "action_kind \<Rightarrow> action_kind \<times> action_status \<times> string" where
  "process_action SessionType = (SessionType, ActionSuccess, [])"
| "process_action KMSEncryption = (KMSEncryption, ActionUnsupported, ''steps does not implement KMS session encryption'')"
| "process_action (OtherAction t) = (OtherAction t, ActionUnsupported, [])"

definition answerHandshake :: "wire_codec \<Rightarrow> env \<Rightarrow> agent_message \<Rightarrow> channel \<Rightarrow> chan_error option \<times> channel" where
  "answerHandshake wc env m c =
     (case acknowledge wc env m c of
        (Some e, c1) \<Rightarrow> (Some e, c1)
      | (None, c1) \<Rightarrow>
          (case wc_dec_request wc (am_payload m) of
             None \<Rightarrow> (Some BadHandshake, c1)
           | Some (version, actions) \<Rightarrow>
               (let (r, c2) = fresh_message env (c1\<lparr>ch_agentVersion := version\<rparr>)
                in send wc env (r\<lparr>am_messageType := msgInputStreamData, am_payloadType := payloadHandshakeResponse,
                     am_payload := wc_enc_response wc clientVersion (map process_action actions)\<rparr>) False c2)))"

definition outputStream :: "wire_codec \<Rightarrow> env \<Rightarrow> agent_message \<Rightarrow> channel \<Rightarrow> chan_error option \<times> channel" where
  "outputStream wc env m c =
     (if am_payloadType m = payloadOutput then deliver wc env m c
      else if am_payloadType m = payloadHandshakeRequest then answerHandshake wc env m c
      else if am_payloadType m = payloadHandshakeComplete then acknowledge wc env m (c\<lparr>ch_handshaked := True\<rparr>)
      else if am_payloadType m = payloadEncChallengeRequest then (Some NeedsEncryption, c)
      else reserve wc env m c)"

definition clearAcked :: "wire_codec \<Rightarrow> agent_message \<Rightarrow> channel \<Rightarrow> channel" where
  "clearAcked wc m c =
     (let sq = (case wc_dec_ack wc (am_payload m) of
                  Some a \<Rightarrow> if ac_type a \<noteq> [] then sint (ac_seq a) else frame_number m
                | None \<Rightarrow> frame_number m)
      in (case map_of (ch_unacked c) sq of
            None \<Rightarrow> c
          | Some (held, _) \<Rightarrow> c\<lparr>ch_unackedBytes := ch_unackedBytes c - int (length (am_payload held)),
                               ch_unacked := AList.delete sq (ch_unacked c)\<rparr>))"

definition channelClosed :: "wire_codec \<Rightarrow> agent_message \<Rightarrow> chan_error" where
  "channelClosed wc m =
     (case wc_dec_closed wc (am_payload m) of None \<Rightarrow> ErrChannelClosed [] | Some out \<Rightarrow> ErrChannelClosed out)"

definition handle :: "wire_codec \<Rightarrow> env \<Rightarrow> byte list \<Rightarrow> channel \<Rightarrow> chan_error option \<times> channel" where
  "handle wc env bs c =
     (case unmarshal zero_message bs of
        Inl e \<Rightarrow> (Some (Malformed e), c)
      | Inr m \<Rightarrow>
          (if am_messageType m = msgAcknowledge then (None, clearAcked wc m c)
           else if am_messageType m = msgPausePublication \<or> am_messageType m = msgStartPublication then (None, c)
           else if am_messageType m = msgChannelClosed then (Some (channelClosed wc m), c)
           else if am_messageType m = msgOutputStreamData then outputStream wc env m c
           else (None, c)))"

text \<open>One turn of the read loop, on what the websocket read answered.\<close>

datatype ws_read = WsFrame "byte list" | WsClosed | WsError string

definition read_turn :: "wire_codec \<Rightarrow> env \<Rightarrow> ws_read \<Rightarrow> channel \<Rightarrow> channel" where
  "read_turn wc env r c =
     (case r of
        WsClosed \<Rightarrow> fail (Ended ChanEOF) c
      | WsError e \<Rightarrow> fail (Ended (Transport e)) c
      | WsFrame bs \<Rightarrow> (case handle wc env bs c of (None, c') \<Rightarrow> c' | (Some e, c') \<Rightarrow> fail e c'))"

text \<open>\<open>None\<close> is a Read that waits.\<close>

definition channel_Read :: "nat \<Rightarrow> channel \<Rightarrow> ((byte list \<times> chan_error option) \<times> channel) option" where
  "channel_Read n c =
     (if ch_pending c \<noteq> []
      then Some ((take n (ch_pending c), None), c\<lparr>ch_pending := drop n (ch_pending c)\<rparr>)
      else (case ch_delivered c of
              chunk # rest \<Rightarrow> Some ((take n chunk, None), c\<lparr>ch_delivered := rest, ch_pending := drop n chunk\<rparr>)
            | [] \<Rightarrow> if ch_stopped c then Some (([], Some (channel_err c)), c) else None))"

subsection \<open>Resending and closing\<close>

fun resend_all :: "wire_codec \<Rightarrow> env \<Rightarrow> agent_message list \<Rightarrow> channel \<Rightarrow> channel" where
  "resend_all wc env [] c = c"
| "resend_all wc env (m # ms) c =
     (case writeMessage wc env m c of
        (Some e, c') \<Rightarrow> fail e c'
      | (None, c') \<Rightarrow> resend_all wc env ms c')"

definition resend_due :: "nat \<Rightarrow> agent_message \<times> nat \<Rightarrow> bool" where
  "resend_due now entry = (int now - int (snd entry) \<ge> int resendInterval)"

definition resendUnacked :: "wire_codec \<Rightarrow> env \<Rightarrow> channel \<Rightarrow> channel" where
  "resendUnacked wc env c =
     (let due = filter (\<lambda>(k, e). resend_due (env_now env) e) (ch_unacked c);
          c' = c\<lparr>ch_unacked := map (\<lambda>(k, e). if resend_due (env_now env) e then (k, (fst e, env_now env)) else (k, e))
                   (ch_unacked c)\<rparr>
      in resend_all wc env (map (fst \<circ> snd) due) c')"

definition shutdown :: "wire_codec \<Rightarrow> env \<Rightarrow> string option \<Rightarrow> channel \<Rightarrow> channel" where
  "shutdown wc env ws_close c =
     (let (t, c1) = fresh_message env c;
          c2 = snd (send wc env (t\<lparr>am_messageType := msgInputStreamData, am_payloadType := payloadFlag,
                      am_payload := put_u32 flagTerminateSession\<rparr>) False c1)
      in (fail ChanEOF c2)\<lparr>ch_closeResult := Some ws_close\<rparr>)"

definition channel_Close :: "wire_codec \<Rightarrow> env \<Rightarrow> string option \<Rightarrow> channel \<Rightarrow> string option \<times> channel" where
  "channel_Close wc env ws_close c =
     (case ch_closeResult c of
        Some r \<Rightarrow> (r, c)
      | None \<Rightarrow> (ws_close, shutdown wc env ws_close c))"

subsection \<open>Lemmas: numbers\<close>

lemma int64_id: "- (2 ^ 63) \<le> x \<Longrightarrow> x < 2 ^ 63 \<Longrightarrow> int64 x = x"
  by (simp add: int64_def signed_of_int signed_take_bit_int_eq_self)

lemma int64_range: "- (2 ^ 63) \<le> int64 x" "int64 x < 2 ^ 63"
  unfolding int64_def using sint_range_size [of "word_of_int x :: u64"] by (simp_all add: word_size)

lemma frame_number_range: "- (2 ^ 63) \<le> frame_number m" "frame_number m < 2 ^ 63"
  unfolding frame_number_def using sint_range_size [of "am_sequenceNumber m"] by (simp_all add: word_size)

subsection \<open>Lemmas: reassembly\<close>

text \<open>The buffer as the map of the frames received from \<open>s\<close> on.\<close>

definition holds :: "(int \<times> byte list) list \<Rightarrow> int set \<Rightarrow> int \<Rightarrow> (int \<Rightarrow> byte list) \<Rightarrow> bool" where
  "holds buf R s pay = (\<forall>n. map_of buf n = (if n \<in> R \<and> s \<le> n then Some (pay n) else None))"

lemma upto_head: "a < b \<Longrightarrow> [a .. b - 1] = a # [a + 1 .. b - 1]" for a b :: int
  by (simp add: upto_rec1)

lemma drain_run:
  assumes "drain s buf n = (run, s', buf', n')" "holds buf R s pay"
    and "\<And>k. k \<in> R \<Longrightarrow> - (2 ^ 63) \<le> k \<and> k < 2 ^ 63 - 1"
  shows "s \<le> s' \<and> (\<forall>k. s \<le> k \<and> k < s' \<longrightarrow> k \<in> R) \<and> s' \<notin> R \<and> run = map pay [s .. s' - 1] \<and> holds buf' R s' pay"
  using assms
proof (induction s buf n arbitrary: run s' buf' n' rule: drain.induct)
  case (1 s buf n)
  show ?case
  proof (cases "map_of buf s")
    case None
    then have "s \<notin> R" using 1(3) by (auto simp: holds_def split: if_splits)
    moreover have "run = [] \<and> s' = s \<and> buf' = buf"
      using 1(2) None by (subst (asm) drain.simps) simp
    ultimately show ?thesis using 1(3) by auto
  next
    case (Some x)
    then have x: "s \<in> R" "x = pay s" using 1(3) by (auto simp: holds_def split: if_splits)
    have next_s: "int64 (s + 1) = s + 1" using 1(4) [OF x(1)] by (intro int64_id) simp_all
    obtain run1 where rec: "drain (int64 (s + 1)) (AList.delete s buf) (n - int (length x)) = (run1, s', buf', n')"
      and run: "run = x # run1"
      using 1(2) Some by (subst (asm) drain.simps) (auto split: prod.splits)
    have "holds (AList.delete s buf) R (int64 (s + 1)) pay"
      using 1(3) unfolding holds_def next_s by (auto simp: AList.delete_conv')
    from 1(1) [OF Some rec this 1(4)]
    have IH: "s + 1 \<le> s'" "\<forall>k. s + 1 \<le> k \<and> k < s' \<longrightarrow> k \<in> R" "s' \<notin> R" "run1 = map pay [s + 1 .. s' - 1]"
      "holds buf' R s' pay"
      unfolding next_s by blast+
    have "k \<in> R" if "s \<le> k" "k < s'" for k
      using IH(2) x(1) that by (cases "k = s") auto
    then show ?thesis using IH run x upto_head [of s s'] by auto
  qed
qed

text \<open>What an association list weighs, and how the two map operations change it.\<close>

definition weight :: "('v \<Rightarrow> int) \<Rightarrow> ('k \<times> 'v) list \<Rightarrow> int" where
  "weight f al = sum_list (map (f \<circ> snd) al)"

lemma weight_Nil [simp]: "weight f [] = 0"
  by (simp add: weight_def)

lemma weight_Cons [simp]: "weight f (kv # al) = f (snd kv) + weight f al"
  by (simp add: weight_def)

lemma weight_delete:
  "distinct (map fst al) \<Longrightarrow> map_of al k = Some v \<Longrightarrow> weight f (AList.delete k al) = weight f al - f v"
proof (induction al)
  case (Cons a rest)
  show ?case
  proof (cases "fst a = k")
    case True
    then have "k \<notin> fst ` set rest" using Cons.prems by auto
    then have "AList.delete k rest = rest" by (simp add: delete_id)
    then show ?thesis using Cons.prems True by (cases a) simp
  next
    case False
    then show ?thesis using Cons by (cases a) simp
  qed
qed simp

lemma weight_update:
  "distinct (map fst al) \<Longrightarrow>
     weight f (AList.update k v al) = weight f al + f v - (case map_of al k of None \<Rightarrow> 0 | Some w \<Rightarrow> f w)"
  by (induction al) (auto split: option.splits)

lemma length_update: "length (AList.update k v al) = length al + (if map_of al k = None then 1 else 0)"
  by (induction al) auto

lemma weight_nonneg: "(\<And>v. 0 \<le> f v) \<Longrightarrow> 0 \<le> weight f al"
  by (induction al) simp_all

definition blen :: "byte list \<Rightarrow> int" where
  "blen b = int (length b)"

lemma drain_bytes:
  assumes "drain s buf n = (run, s', buf', n')" "distinct (map fst buf)" "n = weight blen buf"
  shows "n' = weight blen buf' \<and> distinct (map fst buf') \<and> length buf' \<le> length buf \<and> n' \<le> n"
  using assms
proof (induction s buf n arbitrary: run s' buf' n' rule: drain.induct)
  case (1 s buf n)
  show ?case
  proof (cases "map_of buf s")
    case None
    then show ?thesis using 1(2-4) by (subst (asm) drain.simps) auto
  next
    case (Some x)
    obtain run1 where rec: "drain (int64 (s + 1)) (AList.delete s buf) (n - int (length x)) = (run1, s', buf', n')"
      using 1(2) Some by (subst (asm) drain.simps) (auto split: prod.splits)
    have d: "distinct (map fst (AList.delete s buf))" using 1(3) by (rule distinct_delete)
    have n: "n - int (length x) = weight blen (AList.delete s buf)"
      using weight_delete [OF 1(3) Some, of blen] 1(4) by (simp add: blen_def [of x])
    show ?thesis using 1(1) [OF Some rec d n] length_delete_less [OF Some] by linarith
  qed
qed

subsection \<open>In-order delivery\<close>

fun reassemble_all :: "agent_message list \<Rightarrow> channel \<Rightarrow> (chan_error option \<times> byte list list) \<times> channel" where
  "reassemble_all [] c = ((None, []), c)"
| "reassemble_all (m # ms) c =
     (case reassemble m c of
        (Inl e, c') \<Rightarrow> ((Some e, []), c')
      | (Inr run, c') \<Rightarrow> (case reassemble_all ms c' of ((e, out), c'') \<Rightarrow> ((e, run @ out), c'')))"

text \<open>The inbound state after the frames \<open>R\<close> of a stream that began at \<open>lo\<close>.\<close>

definition stream_at :: "int \<Rightarrow> int set \<Rightarrow> (int \<Rightarrow> byte list) \<Rightarrow> channel \<Rightarrow> bool" where
  "stream_at lo R pay c =
     (ch_inSeqSeeded c \<and> ch_inLowest c = lo \<and> lo \<le> ch_inSeq c \<and> holds (ch_inBuf c) R (ch_inSeq c) pay
      \<and> (\<forall>k. lo \<le> k \<and> k < ch_inSeq c \<longrightarrow> k \<in> R) \<and> ch_inSeq c \<notin> R
      \<and> (\<forall>k \<in> R. - (2 ^ 63) \<le> k \<and> k < 2 ^ 63 - 1))"

lemma reassemble_step:
  assumes "stream_at lo R pay c" "reassemble m c = (Inr run, c')" "frame_number m < 2 ^ 63 - 1"
    "am_payload m = pay (frame_number m)"
  shows "stream_at lo (insert (frame_number m) R) pay c' \<and> run = map pay [ch_inSeq c .. ch_inSeq c' - 1]"
proof -
  let ?n = "frame_number m" and ?s = "ch_inSeq c"
  have seeded: "ch_inSeqSeeded c" and lo: "ch_inLowest c = lo" using assms(1) by (simp_all add: stream_at_def)
  have above: "lo \<le> ?n" using assms(2) seeded lo by (auto simp: reassemble_def Let_def split: if_splits)
  show ?thesis
  proof (cases "?n < ?s")
    case True
    then have "run = [] \<and> c' = c" using assms(2) seeded lo above by (simp add: reassemble_def Let_def)
    moreover have "insert ?n R = R" using True above assms(1) by (auto simp: stream_at_def)
    ultimately show ?thesis using assms(1) by simp
  next
    case False
    obtain n0 s' buf' n' where d: "drain ?s (AList.update ?n (pay ?n) (ch_inBuf c)) n0 = (run, s', buf', n')"
      and c': "c' = c\<lparr>ch_inSeq := s', ch_inBuf := buf', ch_inBufBytes := n'\<rparr>"
      using assms(2,4) seeded lo above False
      by (auto simp: reassemble_def Let_def split: if_splits prod.splits option.splits)
    have "holds (AList.update ?n (pay ?n) (ch_inBuf c)) (insert ?n R) ?s pay"
      using assms(1) False by (auto simp: stream_at_def holds_def AList.update_conv')
    moreover have rng: "- (2 ^ 63) \<le> k \<and> k < 2 ^ 63 - 1" if "k \<in> insert ?n R" for k
      using that assms(1,3) frame_number_range by (auto simp: stream_at_def)
    ultimately have "?s \<le> s'" "\<forall>k. ?s \<le> k \<and> k < s' \<longrightarrow> k \<in> insert ?n R" "s' \<notin> insert ?n R"
      "run = map pay [?s .. s' - 1]" "holds buf' (insert ?n R) s' pay"
      using drain_run [OF d] by blast+
    moreover from this assms(1) have "lo \<le> s'" "\<forall>k. lo \<le> k \<and> k < s' \<longrightarrow> k \<in> insert ?n R"
      by (auto simp: stream_at_def not_less) (metis not_less insert_iff)
    ultimately show ?thesis using rng seeded lo by (simp add: stream_at_def c')
  qed
qed

lemma upto_split: "a \<le> b \<Longrightarrow> b \<le> c \<Longrightarrow> [a .. b - 1] @ [b .. c - 1] = [a .. c - 1]" for a b c :: int
  using upto_split1 [of a b "c - 1"] by (cases "b = c") auto

lemma reassemble_all_stream:
  assumes "stream_at lo R pay c" "reassemble_all ms c = ((None, out), c')"
    "\<And>m. m \<in> set ms \<Longrightarrow> frame_number m < 2 ^ 63 - 1 \<and> am_payload m = pay (frame_number m)"
  shows "stream_at lo (frame_number ` set ms \<union> R) pay c' \<and> ch_inSeq c \<le> ch_inSeq c'
    \<and> out = map pay [ch_inSeq c .. ch_inSeq c' - 1]"
  using assms
proof (induction ms arbitrary: R c out)
  case (Cons m ms)
  obtain run c1 where r: "reassemble m c = (Inr run, c1)"
    using Cons.prems(2) by (auto split: prod.splits sum.splits)
  then obtain out1 where rest: "reassemble_all ms c1 = ((None, out1), c')" and out: "out = run @ out1"
    using Cons.prems(2) by (auto split: prod.splits)
  note step = reassemble_step [OF Cons.prems(1) r]
  have s1: "stream_at lo (insert (frame_number m) R) pay c1" and run: "run = map pay [ch_inSeq c .. ch_inSeq c1 - 1]"
    using step Cons.prems(3) [of m] by simp_all
  note IH = Cons.IH [OF s1 rest Cons.prems(3)]
  have le: "ch_inSeq c \<le> ch_inSeq c1"
  proof (rule ccontr)
    assume "\<not> ch_inSeq c \<le> ch_inSeq c1"
    then have "run = []" using run by simp
    have "ch_inSeq c1 \<in> R" "ch_inSeq c1 \<notin> insert (frame_number m) R"
      using \<open>\<not> _\<close> Cons.prems(1) s1 by (auto simp: stream_at_def)
    then show False by simp
  qed
  then show ?case using IH out run upto_split [OF le] by (auto simp flip: map_append simp: insert_commute)
qed simp

end
