(* ===== verification/SsmChannelInv.thy ===== *)
theory SsmChannelInv
  imports SsmChannel
begin

text \<open>
  What an SSM channel keeps whatever its peer, its caller and its timers do: both byte ledgers equal the
  bytes held, both stay inside their caps, a retained message is never overwritten by a later one, and a
  stopped channel has a cause.
\<close>

subsection \<open>The three parts of a channel's state\<close>

definition inbound where
  "inbound c = (ch_inSeq c, ch_inSeqSeeded c, ch_inLowest c, ch_inBuf c, ch_inBufBytes c)"

definition outbound where
  "outbound c = (ch_seq c, ch_synSent c, ch_unacked c, ch_unackedBytes c)"

definition ending where
  "ending c = (ch_closed c, ch_closeErr c, ch_stopped c)"

definition held_bytes :: "agent_message \<times> nat \<Rightarrow> int" where
  "held_bytes e = int (length (am_payload (fst e)))"

definition in_ok :: "channel \<Rightarrow> bool" where
  "in_ok c = (distinct (map fst (ch_inBuf c)) \<and> ch_inBufBytes c = weight blen (ch_inBuf c)
     \<and> length (ch_inBuf c) \<le> maxBacklogFrames \<and> ch_inBufBytes c \<le> maxBacklogBytes)"

definition out_ok :: "channel \<Rightarrow> bool" where
  "out_ok c = (distinct (map fst (ch_unacked c)) \<and> ch_unackedBytes c = weight held_bytes (ch_unacked c)
     \<and> ch_unackedBytes c \<le> maxBacklogBytes \<and> 0 \<le> ch_seq c
     \<and> (\<forall>k \<in> fst ` set (ch_unacked c). ch_synSent c \<and> k \<le> ch_seq c))"

definition end_ok :: "channel \<Rightarrow> bool" where
  "end_ok c = (ch_stopped c = ch_closed c \<and> (ch_closed c \<longrightarrow> ch_closeErr c \<noteq> None))"

definition chan_ok :: "channel \<Rightarrow> bool" where
  "chan_ok c = (in_ok c \<and> out_ok c \<and> end_ok c)"

lemma in_ok_cong: "inbound c' = inbound c \<Longrightarrow> in_ok c' = in_ok c"
  by (simp add: inbound_def in_ok_def)

lemma out_ok_cong: "outbound c' = outbound c \<Longrightarrow> out_ok c' = out_ok c"
  by (simp add: outbound_def out_ok_def)

lemma end_ok_cong: "ending c' = ending c \<Longrightarrow> end_ok c' = end_ok c"
  by (simp add: ending_def end_ok_def)

lemma new_channel_ok: "chan_ok new_channel"
  by (simp add: chan_ok_def in_ok_def out_ok_def end_ok_def new_channel_def maxBacklogFrames_def maxBacklogBytes_def)

subsection \<open>Sending\<close>

text \<open>There is a number left for the next message.\<close>

definition numbers_left :: "nat \<Rightarrow> channel \<Rightarrow> bool" where
  "numbers_left n c = (ch_seq c + int n < 2 ^ 63)"

lemma fresh_message_frame [chan_simps]:
  "inbound (snd (fresh_message env c)) = inbound c" "outbound (snd (fresh_message env c)) = outbound c"
  "ending (snd (fresh_message env c)) = ending c"
  by (simp_all add: fresh_message_def inbound_def outbound_def ending_def)

lemma writeMessage_frame [chan_simps]:
  "inbound (snd (writeMessage wc env m c)) = inbound c" "outbound (snd (writeMessage wc env m c)) = outbound c"
  "ending (snd (writeMessage wc env m c)) = ending c"
  by (simp_all add: writeMessage_def inbound_def outbound_def ending_def split: option.split)

lemma stampLocked_frame [chan_simps]:
  "inbound (snd (stampLocked now m retain c)) = inbound c" "ending (snd (stampLocked now m retain c)) = ending c"
  by (simp_all add: stampLocked_def inbound_def ending_def Let_def)

lemma stampLocked_out_ok:
  assumes "out_ok c" "numbers_left 1 c"
  shows "out_ok (snd (stampLocked now m retain c)) \<and> ch_seq (snd (stampLocked now m retain c)) \<le> ch_seq c + 1"
proof -
  define sq where "sq = (if \<not> ch_synSent c then 0 else int64 (ch_seq c + 1))"
  have seq: "0 \<le> ch_seq c" and keys: "\<And>k. k \<in> fst ` set (ch_unacked c) \<Longrightarrow> ch_synSent c \<and> k \<le> ch_seq c"
    using assms(1) unfolding out_ok_def by blast+
  have sq: "sq = (if \<not> ch_synSent c then 0 else ch_seq c + 1)"
    using assms(2) seq unfolding sq_def numbers_left_def by (simp add: int64_id)
  have new: "sq \<notin> fst ` set (ch_unacked c)"
    using keys [of sq] unfolding sq by (cases "ch_synSent c") auto
  then have none: "map_of (ch_unacked c) sq = None" by (simp add: map_of_eq_None_iff)
  have kept: "k \<le> sq" if "k \<in> insert sq (fst ` set (ch_unacked c))" for k
  proof (cases "k = sq")
    case False
    then have "k \<in> fst ` set (ch_unacked c)" using that by blast
    from keys [OF this] show ?thesis unfolding sq by simp
  qed simp
  have upd: "fst ` set (AList.update sq v (ch_unacked c)) = insert sq (fst ` set (ch_unacked c))" for v
    by (simp add: dom_update)
  have le: "sq \<le> ch_seq c + 1" "0 \<le> sq" using seq sq by auto
  have kept_out: "out_ok (c\<lparr>ch_synSent := True, ch_seq := sq\<rparr>)"
    using assms(1) kept le unfolding out_ok_def by simp
  have retained: "out_ok (c\<lparr>ch_synSent := True, ch_seq := sq,
      ch_unackedBytes := ch_unackedBytes c + int (length (am_payload m)), ch_unacked := AList.update sq (m', now) (ch_unacked c)\<rparr>)"
    if "am_payload m' = am_payload m" "ch_unackedBytes c + int (length (am_payload m)) \<le> maxBacklogBytes" for m'
    unfolding out_ok_def
  proof (intro conjI)
    show "\<forall>k \<in> fst ` set (ch_unacked (c\<lparr>ch_synSent := True, ch_seq := sq, ch_unackedBytes := ch_unackedBytes c
        + int (length (am_payload m)), ch_unacked := AList.update sq (m', now) (ch_unacked c)\<rparr>)). ch_synSent (c\<lparr>ch_synSent := True,
        ch_seq := sq, ch_unackedBytes := ch_unackedBytes c + int (length (am_payload m)),
        ch_unacked := AList.update sq (m', now) (ch_unacked c)\<rparr>) \<and> k \<le> ch_seq (c\<lparr>ch_synSent := True, ch_seq := sq,
        ch_unackedBytes := ch_unackedBytes c + int (length (am_payload m)), ch_unacked := AList.update sq (m', now) (ch_unacked c)\<rparr>)"
      using kept upd by simp
  qed (use assms(1) that none le in \<open>simp_all add: out_ok_def weight_update held_bytes_def distinct_update\<close>)
  show ?thesis
  proof (cases "am_messageType m = msgAcknowledge \<or> (retain \<and> ch_unackedBytes c + int (length (am_payload m)) > maxBacklogBytes)")
    case True
    then show ?thesis using assms(1) by (auto simp: stampLocked_def)
  next
    case False
    then show ?thesis
      using kept_out retained le assms(1) unfolding stampLocked_def Let_def sq_def [symmetric] by (simp add: not_less)
  qed
qed

lemma send_frame [chan_simps]:
  "inbound (snd (send wc env m retain c)) = inbound c" "ending (snd (send wc env m retain c)) = ending c"
  using stampLocked_frame [of "env_now env" m retain c]
  by (auto simp: send_def writeMessage_frame split: sum.split prod.split)

lemma send_out_ok:
  assumes "out_ok c" "numbers_left 1 c"
  shows "out_ok (snd (send wc env m retain c)) \<and> ch_seq (snd (send wc env m retain c)) \<le> ch_seq c + 1"
proof (cases "ch_closed c")
  case True
  then show ?thesis using assms(1) by (simp add: send_def)
next
  case False
  obtain r c' where st: "stampLocked (env_now env) m retain c = (r, c')" by fastforce
  have ok: "out_ok c'" "ch_seq c' \<le> ch_seq c + 1"
    using stampLocked_out_ok [OF assms, of "env_now env" m retain] st by simp_all
  show ?thesis
  proof (cases r)
    case (Inl e)
    then show ?thesis using False st ok by (simp add: send_def)
  next
    case (Inr m')
    then have res: "snd (send wc env m retain c) = snd (writeMessage wc env m' c')"
      using False st by (simp add: send_def)
    have "outbound (snd (writeMessage wc env m' c')) = outbound c'" by (rule writeMessage_frame)
    then show ?thesis using ok out_ok_cong [of "snd (writeMessage wc env m' c')" c'] unfolding res
      by (simp add: outbound_def)
  qed
qed

lemma send_ok:
  assumes "chan_ok c" "numbers_left 1 c"
  shows "chan_ok (snd (send wc env m retain c)) \<and> ch_seq (snd (send wc env m retain c)) \<le> ch_seq c + 1"
  using assms send_out_ok [of c wc env m retain] in_ok_cong [OF send_frame(1)] end_ok_cong [OF send_frame(2)]
  by (simp add: chan_ok_def)

lemma chan_ok_frame:
  "inbound c' = inbound c \<Longrightarrow> outbound c' = outbound c \<Longrightarrow> ending c' = ending c \<Longrightarrow> chan_ok c' = chan_ok c"
  by (simp only: chan_ok_def in_ok_cong [of c' c] out_ok_cong [of c' c] end_ok_cong [of c' c])

lemma fresh_ok: "fresh_message env c = (m, c1) \<Longrightarrow> (chan_ok c1 \<longleftrightarrow> chan_ok c) \<and> ch_seq c1 = ch_seq c"
  using fresh_message_frame [of env c] chan_ok_frame [of c1 c] by (auto simp: fresh_message_def)

lemma write_from_ok:
  "chan_ok c \<Longrightarrow> numbers_left (length p) c \<Longrightarrow> chan_ok (snd (write_from wc env off p c))"
proof (induction wc env off p c rule: write_from.induct)
  case (1 wc env off p c)
  show ?case
  proof (cases "p = []")
    case True
    then show ?thesis using 1(2) by (simp add: write_from.simps)
  next
    case False
    obtain m0 c1 where f: "fresh_message env c = (m0, c1)" by fastforce
    let ?m = "m0\<lparr>am_messageType := msgInputStreamData, am_payloadType := payloadOutput,
                  am_payload := take maxOutboundPayload p\<rparr>"
    obtain e c2 where s: "send wc env ?m True c1 = (e, c2)" by fastforce
    have c1: "chan_ok c1" "ch_seq c1 = ch_seq c" using fresh_ok [OF f] 1(2) by simp_all
    have "numbers_left 1 c1" using 1(3) c1(2) False by (cases p) (simp_all add: numbers_left_def)
    from send_ok [OF c1(1) this, of wc env ?m True] s
    have c2: "chan_ok c2" "ch_seq c2 \<le> ch_seq c + 1" using c1(2) by simp_all
    show ?thesis
    proof (cases e)
      case (Some e')
      then show ?thesis using False f s c2 by (simp add: write_from.simps)
    next
      case None
      have "numbers_left (length (drop maxOutboundPayload p)) c2"
        using 1(3) c2(2) False by (cases p) (simp_all add: numbers_left_def maxOutboundPayload_def)
      from 1(1) [OF False refl f [symmetric] refl s [symmetric] None c2(1) this] show ?thesis
        using False f s None by (subst write_from.simps) simp
    qed
  qed
qed

subsection \<open>Receiving\<close>

lemma reassemble_frame [chan_simps]:
  "outbound (snd (reassemble m c)) = outbound c" "ending (snd (reassemble m c)) = ending c"
  by (auto simp: reassemble_def outbound_def ending_def Let_def split: prod.split)

lemma AList_delete_update: "AList.delete k (AList.update k v al) = AList.delete k al"
  by (induction al) auto

lemma weight_delete_le:
  "distinct (map fst al) \<Longrightarrow> (\<And>v. 0 \<le> f v) \<Longrightarrow> weight f (AList.delete k al) \<le> weight f al"
  using weight_delete [of al k _ f] by (cases "map_of al k") (auto simp: map_of_eq_None_iff delete_id)

text \<open>Filing the frame at the watermark: it leaves the buffer again at once.\<close>

lemma drain_at_watermark:
  assumes d: "drain s (AList.update s p buf) n = (run, s', buf', n')" and dist: "distinct (map fst buf)"
    and n: "n = weight blen (AList.update s p buf)"
  shows "n' = weight blen buf' \<and> distinct (map fst buf') \<and> length buf' \<le> length buf \<and> n' \<le> weight blen buf"
proof -
  have at: "map_of (AList.update s p buf) s = Some p" by (simp add: update_conv')
  obtain run1 where rec: "drain (int64 (s + 1)) (AList.delete s buf) (n - int (length p)) = (run1, s', buf', n')"
    using d at by (subst (asm) drain.simps) (auto simp: AList_delete_update split: prod.splits)
  have "n - int (length p) = weight blen (AList.delete s buf)"
    using weight_delete [OF distinct_update [OF dist] at, of blen] n
    by (simp add: AList_delete_update blen_def [of p])
  from drain_bytes [OF rec distinct_delete [OF dist] this] this show ?thesis
    using weight_delete_le [OF dist, of blen s] length_delete_le [of s buf] by (simp add: blen_def)
qed

lemma reassemble_in_ok:
  assumes ok: "in_ok c0"
  shows "in_ok (snd (reassemble m c0))"
proof -
  let ?n = "frame_number m"
  define c where "c = (if \<not> ch_inSeqSeeded c0 then c0\<lparr>ch_inSeq := ?n, ch_inLowest := ?n, ch_inSeqSeeded := True\<rparr> else c0)"
  let ?buf = "ch_inBuf c" and ?s = "ch_inSeq c" and ?full = "AList.update ?n (am_payload m) (ch_inBuf c)"
  let ?w = "ch_inBufBytes c + (blen (am_payload m) - blen (case map_of ?buf ?n of None \<Rightarrow> [] | Some h \<Rightarrow> h))"
  have ok_c: "in_ok c" using ok by (simp add: c_def in_ok_def)
  then have dist: "distinct (map fst ?buf)" and bytes: "ch_inBufBytes c = weight blen ?buf" by (simp_all add: in_ok_def)
  have w: "?w = weight blen ?full"
    using weight_update [OF dist, of blen] bytes by (simp add: blen_def split: option.split)
  obtain run s' buf' n' where d: "drain ?s ?full ?w = (run, s', buf', n')" by (metis prod_cases4)
  have eq: "snd (reassemble m c0) =
     (if ch_inSeqSeeded c0 \<and> ?n < ch_inLowest c0 then c
      else if ch_inSeqSeeded c0 \<and> ?n < ch_inSeq c0 then c
      else if ?n \<noteq> ?s \<and> (length ?buf \<ge> maxBacklogFrames \<or> ch_inBufBytes c + blen (am_payload m) > maxBacklogBytes) then c
      else c\<lparr>ch_inSeq := s', ch_inBuf := buf', ch_inBufBytes := n'\<rparr>)"
    unfolding reassemble_def Let_def c_def [symmetric] blen_def d [unfolded blen_def] prod.case by simp
  have filed: "in_ok (c\<lparr>ch_inSeq := s', ch_inBuf := buf', ch_inBufBytes := n'\<rparr>)"
    if room: "?n = ?s \<or> (length ?buf < maxBacklogFrames \<and> ch_inBufBytes c + blen (am_payload m) \<le> maxBacklogBytes)"
  proof (cases "?n = ?s")
    case True
    have "n' = weight blen buf' \<and> distinct (map fst buf') \<and> length buf' \<le> length ?buf \<and> n' \<le> weight blen ?buf"
      by (rule drain_at_watermark [OF _ dist]) (use d True w in simp_all)
    then show ?thesis using ok_c bytes by (simp add: in_ok_def)
  next
    case False
    have "n' = weight blen buf' \<and> distinct (map fst buf') \<and> length buf' \<le> length ?full \<and> n' \<le> ?w"
      by (rule drain_bytes [OF d distinct_update [OF dist] w])
    moreover have "length ?full \<le> Suc (length ?buf)" by (simp add: SsmChannel.length_update)
    moreover have "?w \<le> ch_inBufBytes c + blen (am_payload m)" by (simp add: blen_def)
    ultimately show ?thesis using room False by (simp add: in_ok_def)
  qed
  show ?thesis unfolding eq using ok_c filed by (simp add: not_le not_less)
qed

lemma reassemble_ok: "chan_ok c \<Longrightarrow> chan_ok (snd (reassemble m c))"
  using reassemble_in_ok [of c m] out_ok_cong [OF reassemble_frame(1)] end_ok_cong [OF reassemble_frame(2)]
  unfolding chan_ok_def by blast

lemma hand_on_frame [chan_simps]:
  "inbound (snd (hand_on env i run c)) = inbound c" "outbound (snd (hand_on env i run c)) = outbound c"
  "ending (snd (hand_on env i run c)) = ending c"
  by (induction env i run c rule: hand_on.induct) (auto simp: inbound_def outbound_def ending_def)

lemma acknowledge_ok:
  assumes "chan_ok c" "numbers_left 1 c"
  shows "chan_ok (snd (acknowledge wc env m c)) \<and> ch_seq (snd (acknowledge wc env m c)) \<le> ch_seq c + 1"
proof -
  obtain a c1 where f: "fresh_message env c = (a, c1)" by fastforce
  then show ?thesis
    using send_ok [of c1] fresh_ok [OF f] assms by (simp add: acknowledge_def numbers_left_def)
qed

lemma deliver_ok:
  assumes "chan_ok c" "numbers_left 1 c"
  shows "chan_ok (snd (deliver wc env m c))"
proof -
  obtain e c1 where a: "acknowledge wc env m c = (e, c1)" by fastforce
  obtain r c2 where r: "reassemble m c1 = (r, c2)" by fastforce
  have "chan_ok c1" using acknowledge_ok [OF assms, of wc env m] a by simp
  then have "chan_ok c2" using reassemble_ok [of c1 m] r by simp
  then have "chan_ok (snd (hand_on env 0 run c2))" for run
    using chan_ok_frame [OF hand_on_frame] by blast
  with \<open>chan_ok c1\<close> \<open>chan_ok c2\<close> show ?thesis
    by (simp add: deliver_def a r split: option.split sum.split)
qed

lemma answerHandshake_ok:
  assumes "chan_ok c" "numbers_left 2 c"
  shows "chan_ok (snd (answerHandshake wc env m c))"
proof -
  obtain e c1 where a: "acknowledge wc env m c = (e, c1)" by fastforce
  have "numbers_left 1 c" using assms(2) by (simp add: numbers_left_def)
  from acknowledge_ok [OF assms(1) this, of wc env m] a
  have c1: "chan_ok c1" "numbers_left 1 c1" using assms(2) by (simp_all add: numbers_left_def)
  have "chan_ok (snd (send wc env q False c2))" if "fresh_message env (c1\<lparr>ch_agentVersion := v\<rparr>) = (r, c2)" for q r c2 v
  proof -
    have "chan_ok (c1\<lparr>ch_agentVersion := v\<rparr>)"
      using c1(1) chan_ok_frame [of "c1\<lparr>ch_agentVersion := v\<rparr>" c1] by (simp add: inbound_def outbound_def ending_def)
    then show ?thesis
      using send_ok [of c2] fresh_ok [OF that] c1(2) by (simp add: numbers_left_def)
  qed
  then show ?thesis
    using c1(1) by (auto simp: answerHandshake_def a split: option.split prod.split)
qed

lemma clearAcked_ok:
  assumes "chan_ok c"
  shows "chan_ok (clearAcked wc m c)"
proof -
  have out: "out_ok c" using assms by (simp add: chan_ok_def)
  have "out_ok (c\<lparr>ch_unackedBytes := ch_unackedBytes c - int (length (am_payload h)), ch_unacked := AList.delete k (ch_unacked c)\<rparr>)"
    if "map_of (ch_unacked c) k = Some (h, t)" for k h t
  proof -
    have sub: "fst ` set (AList.delete k (ch_unacked c)) \<subseteq> fst ` set (ch_unacked c)"
      by (auto simp: AList.delete_eq)
    have w: "weight held_bytes (AList.delete k (ch_unacked c)) = ch_unackedBytes c - int (length (am_payload h))"
      using out weight_delete [OF _ that, of held_bytes] by (simp add: out_ok_def held_bytes_def)
    have keys: "\<forall>i \<in> fst ` set (AList.delete k (ch_unacked c)). ch_synSent c \<and> i \<le> ch_seq c"
      using out sub unfolding out_ok_def by blast
    have rest: "distinct (map fst (ch_unacked c))" "ch_unackedBytes c \<le> maxBacklogBytes" "0 \<le> ch_seq c"
      using out unfolding out_ok_def by blast+
    show ?thesis
      using keys rest w unfolding out_ok_def channel.simps by (cases c) (simp add: distinct_delete)
  qed
  note out' = this
  define sq where "sq = (case wc_dec_ack wc (am_payload m) of
      Some a \<Rightarrow> if ac_type a \<noteq> [] then sint (ac_seq a) else frame_number m | None \<Rightarrow> frame_number m)"
  show ?thesis
  proof (cases "map_of (ch_unacked c) sq")
    case None
    then show ?thesis using assms by (simp add: clearAcked_def Let_def sq_def [symmetric])
  next
    case (Some e)
    obtain h t where e: "e = (h, t)" by fastforce
    let ?c' = "c\<lparr>ch_unackedBytes := ch_unackedBytes c - int (length (am_payload h)), ch_unacked := AList.delete sq (ch_unacked c)\<rparr>"
    have "clearAcked wc m c = ?c'"
      unfolding clearAcked_def Let_def sq_def [symmetric] by (simp add: Some e)
    moreover have "out_ok ?c'" using out' Some e by simp
    moreover have "in_ok ?c' = in_ok c" "end_ok ?c' = end_ok c" by (simp_all add: in_ok_def end_ok_def)
    ultimately show ?thesis using assms by (simp add: chan_ok_def)
  qed
qed

subsection \<open>Every operation\<close>

lemma fail_ok: "chan_ok c \<Longrightarrow> chan_ok (fail e c)"
  by (auto simp: chan_ok_def in_ok_def out_ok_def end_ok_def fail_def split: option.split)

lemma outputStream_ok:
  assumes "chan_ok c" "numbers_left 2 c"
  shows "chan_ok (snd (outputStream wc env m c))"
proof -
  have one: "numbers_left 1 c" using assms(2) by (simp add: numbers_left_def)
  have "chan_ok (c\<lparr>ch_handshaked := True\<rparr>)" "numbers_left 1 (c\<lparr>ch_handshaked := True\<rparr>)"
    using assms(1) one chan_ok_frame [of "c\<lparr>ch_handshaked := True\<rparr>" c]
    by (simp_all add: inbound_def outbound_def ending_def numbers_left_def)
  from acknowledge_ok [OF this, of wc env m] show ?thesis
    using assms one by (simp add: outputStream_def deliver_ok answerHandshake_ok reserve_def)
qed

lemma handle_ok:
  "chan_ok c \<Longrightarrow> numbers_left 2 c \<Longrightarrow> chan_ok (snd (handle wc env bs c))"
  by (simp add: handle_def outputStream_ok clearAcked_ok split: sum.split)

lemma read_turn_ok:
  assumes "chan_ok c" "numbers_left 2 c"
  shows "chan_ok (read_turn wc env r c)"
proof (cases r)
  case (WsFrame bs)
  obtain e c' where h: "handle wc env bs c = (e, c')" by fastforce
  have "chan_ok c'" using handle_ok [OF assms, of wc env bs] h by simp
  then show ?thesis using WsFrame fail_ok h by (cases e) (simp_all add: read_turn_def)
qed (simp_all add: read_turn_def fail_ok assms(1))

lemma channel_Read_ok: "channel_Read n c = Some (r, c') \<Longrightarrow> chan_ok c \<Longrightarrow> chan_ok c'"
  using chan_ok_frame [of c' c]
  by (auto simp: channel_Read_def inbound_def outbound_def ending_def split: if_splits list.splits)

lemma resend_all_ok: "chan_ok c \<Longrightarrow> chan_ok (resend_all wc env ms c)"
proof (induction wc env ms c rule: resend_all.induct)
  case (2 wc env m ms c)
  obtain e c' where w: "writeMessage wc env m c = (e, c')" by fastforce
  then have "chan_ok c'" using chan_ok_frame [OF writeMessage_frame, of wc env m c] 2(2) by simp
  then show ?case using 2(1) w fail_ok by (cases e) simp_all
qed simp

lemma resendUnacked_ok:
  assumes "chan_ok c"
  shows "chan_ok (resendUnacked wc env c)"
proof -
  let ?al = "map (\<lambda>(k, e). if resend_due (env_now env) e then (k, (fst e, env_now env)) else (k, e)) (ch_unacked c)"
  have same: "map fst (map (\<lambda>(k, e). if resend_due t e then (k, (fst e, t)) else (k, e)) al) = map fst al"
    "weight held_bytes (map (\<lambda>(k, e). if resend_due t e then (k, (fst e, t)) else (k, e)) al) = weight held_bytes al"
    for t al by (induction al) (auto simp: held_bytes_def)
  have keys: "map fst ?al = map fst (ch_unacked c)" and w: "weight held_bytes ?al = weight held_bytes (ch_unacked c)"
    by (rule same)+
  have "fst ` set ?al = fst ` set (ch_unacked c)" using arg_cong [OF keys, of set] by (simp only: set_map)
  then have "out_ok (c\<lparr>ch_unacked := ?al\<rparr>)"
    using assms keys w unfolding chan_ok_def out_ok_def by (cases c) (simp only: channel.simps, blast)
  then have "chan_ok (c\<lparr>ch_unacked := ?al\<rparr>)"
    using assms by (simp add: chan_ok_def in_ok_def end_ok_def)
  then show ?thesis unfolding resendUnacked_def Let_def by (rule resend_all_ok)
qed

lemma channel_Close_ok:
  assumes "chan_ok c" "numbers_left 1 c"
  shows "chan_ok (snd (channel_Close wc env w c))"
proof -
  obtain t c1 where f: "fresh_message env c = (t, c1)" by fastforce
  have "chan_ok (snd (send wc env q False c1))" for q
    using send_ok [of c1 wc env q False] fresh_ok [OF f] assms by (simp add: numbers_left_def)
  then have "chan_ok (fail ChanEOF (snd (send wc env q False c1)))" for q by (rule fail_ok)
  then have "chan_ok ((fail ChanEOF (snd (send wc env q False c1)))\<lparr>ch_closeResult := r\<rparr>)" for q r
    by (subst chan_ok_frame) (simp_all add: inbound_def outbound_def ending_def)
  then show ?thesis using assms(1) by (simp add: channel_Close_def shutdown_def f split: option.split)
qed

inductive chan_step :: "wire_codec \<Rightarrow> channel \<Rightarrow> channel \<Rightarrow> bool" for wc where
  ssm_turn: "numbers_left 2 c \<Longrightarrow> chan_step wc c (read_turn wc env r c)"
| ssm_write: "numbers_left (length p) c \<Longrightarrow> chan_step wc c (snd (channel_Write wc env p c))"
| ssm_read: "channel_Read n c = Some (r, c') \<Longrightarrow> chan_step wc c c'"
| ssm_resend: "chan_step wc c (resendUnacked wc env c)"
| ssm_close: "numbers_left 1 c \<Longrightarrow> chan_step wc c (snd (channel_Close wc env w c))"

inductive_cases chan_stepE: "chan_step wc c c'"

lemma chan_step_ok: "chan_step wc c c' \<Longrightarrow> chan_ok c \<Longrightarrow> chan_ok c'"
  by (erule chan_stepE)
     (simp_all add: read_turn_ok channel_Write_def write_from_ok channel_Read_ok resendUnacked_ok channel_Close_ok)

interpretation ssm: invariant_system "\<lambda>c. c = new_channel" "chan_step wc" chan_ok
proof
  show "chan_ok c" if "c = new_channel" for c using that new_channel_ok by simp
qed (rule chan_step_ok)

subsection \<open>Properties\<close>

text \<open>C3: whatever order the agent's frames arrive in, with whatever repeats, what reassembly hands on
  is the stream from the first frame seen, each frame's bytes once and in order, up to the first number
  not yet received.\<close>

theorem ssm_stream_in_order:
  assumes "\<not> ch_inSeqSeeded c" and "ch_inBuf c = []" and "ms \<noteq> []"
    and "\<And>m. m \<in> set ms \<Longrightarrow> frame_number m < 2 ^ 63 - 1 \<and> am_payload m = pay (frame_number m)"
    and "reassemble_all ms c = ((None, out), c')"
  shows "out = map pay [frame_number (hd ms) .. ch_inSeq c' - 1]
    \<and> (\<forall>k. frame_number (hd ms) \<le> k \<and> k < ch_inSeq c' \<longrightarrow> k \<in> frame_number ` set ms)
    \<and> ch_inSeq c' \<notin> frame_number ` set ms \<and> frame_number (hd ms) < ch_inSeq c'"
proof -
  let ?n = "frame_number (hd ms)"
  let ?c = "c\<lparr>ch_inSeq := ?n, ch_inLowest := ?n, ch_inSeqSeeded := True\<rparr>"
  have at: "stream_at ?n {} pay ?c" using assms(2) by (simp add: stream_at_def holds_def)
  have "reassemble (hd ms) c = reassemble (hd ms) ?c"
    using assms(1) by (simp add: reassemble_def Let_def)
  then have "reassemble_all ms ?c = ((None, out), c')"
    using assms(3,5) by (cases ms) simp_all
  from reassemble_all_stream [OF at this assms(4)]
  have res: "stream_at ?n (frame_number ` set ms) pay c'" "?n \<le> ch_inSeq c'" "out = map pay [?n .. ch_inSeq c' - 1]"
    by simp_all
  moreover have "?n \<noteq> ch_inSeq c'"
    using res(1) assms(3) by (cases ms) (auto simp: stream_at_def)
  ultimately show ?thesis by (auto simp: stream_at_def)
qed

definition frame :: "int \<Rightarrow> byte list \<Rightarrow> agent_message" where
  "frame n p = zero_message\<lparr>am_sequenceNumber := word_of_int n, am_payload := p\<rparr>"

theorem ssm_stream_in_order_witness:
  "fst (reassemble_all [frame 5 [1], frame 7 [3], frame 5 [1], frame 6 [2]] new_channel) = (None, [[1], [2], [3]])"
proof -
  let ?ms = "[frame 5 [1], frame 7 [3], frame 5 [1], frame 6 [2]]"
  let ?pay = "\<lambda>n. [word_of_int (n - 4)] :: byte list"
  have num: "frame_number (frame 5 p) = 5" "frame_number (frame 6 p) = 6" "frame_number (frame 7 p) = 7" for p
    by (simp_all add: frame_number_def frame_def)
  have pay: "am_payload (frame n p) = p" for n p by (simp add: frame_def)
  obtain e out c' where r: "reassemble_all ?ms new_channel = ((e, out), c')" by (metis surj_pair)
  have "fst (fst (reassemble_all ?ms new_channel)) = None" "ch_inSeq (snd (reassemble_all ?ms new_channel)) = 8"
    by (simp_all add: reassemble_def new_channel_def num pay drain.simps [of 5] drain.simps [of 6] drain.simps [of 7]
          drain.simps [of 8] int64_id maxBacklogFrames_def maxBacklogBytes_def Let_def)
  then have e: "e = None" and s: "ch_inSeq c' = 8" using r by simp_all
  have hyp: "frame_number m < 2 ^ 63 - 1 \<and> am_payload m = ?pay (frame_number m)" if "m \<in> set ?ms" for m
    using that by (auto simp: num pay)
  have "out = map ?pay [frame_number (hd ?ms) .. ch_inSeq c' - 1]"
    using ssm_stream_in_order [where c = new_channel and ms = ?ms and pay = ?pay and out = out and c' = c', OF _ _ _ hyp]
      r e by (simp add: new_channel_def del: reassemble_all.simps)
  then show ?thesis using r e by (simp add: s num upto_rec1)
qed

text \<open>C5: whatever the peer, the caller and the timers do, the bytes a channel holds for either
  direction are what its ledgers say and stay inside the caps.\<close>

theorem ssm_channel_bounded:
  assumes "(chan_step wc)\<^sup>*\<^sup>* new_channel c"
  shows "ch_inBufBytes c = weight blen (ch_inBuf c) \<and> ch_inBufBytes c \<le> maxBacklogBytes
    \<and> length (ch_inBuf c) \<le> maxBacklogFrames
    \<and> ch_unackedBytes c = weight held_bytes (ch_unacked c) \<and> ch_unackedBytes c \<le> maxBacklogBytes
    \<and> (ch_stopped c \<longrightarrow> ch_closeErr c \<noteq> None)"
  using ssm.reachable_inv [OF refl assms] by (auto simp: chan_ok_def in_ok_def out_ok_def end_ok_def)

definition toy_codec :: wire_codec where
  "toy_codec = \<lparr>wc_sha = toy_digest, wc_uuid_text = (\<lambda>u. u), wc_enc_ack = (\<lambda>a. put_u64 (ac_seq a)),
     wc_dec_ack = (\<lambda>b. Some \<lparr>ac_type = [0], ac_id = [], ac_seq = get_u64 b, ac_sequential = True\<rparr>),
     wc_dec_request = (\<lambda>b. None), wc_enc_response = (\<lambda>v as. []), wc_dec_closed = (\<lambda>b. None)\<rparr>"

definition calm :: env where
  "calm = \<lparr>env_now = 0, env_uuid = (\<lambda>n. replicate 16 (word_of_nat n)), env_write = (\<lambda>n. None), env_room = (\<lambda>n. True)\<rparr>"

theorem ssm_channel_bounded_witness:
  "ch_unackedBytes (snd (channel_Write toy_codec calm [1, 2, 3] new_channel))
     = weight held_bytes (ch_unacked (snd (channel_Write toy_codec calm [1, 2, 3] new_channel)))"
proof -
  have "numbers_left (length [1, 2, 3 :: byte]) new_channel" by (simp add: numbers_left_def new_channel_def)
  then have "(chan_step toy_codec)\<^sup>*\<^sup>* new_channel (snd (channel_Write toy_codec calm [1, 2, 3] new_channel))"
    by (intro r_into_rtranclp ssm_write)
  from ssm_channel_bounded [OF this] show ?thesis by blast
qed

text \<open>C12: every data frame the agent sends on a live channel is acknowledged by its own number, repeats
  and frames out of order included, before its bytes go anywhere.\<close>

theorem ssm_data_acknowledged:
  assumes "\<not> ch_closed c" and "env_write env (ch_writes c) = None"
  shows "\<exists>a. ch_wire (snd (deliver wc env m c)) = ch_wire c @ [marshal (wc_sha wc) a]
    \<and> am_messageType a = msgAcknowledge \<and> am_flags a = flagAck
    \<and> am_payload a = wc_enc_ack wc \<lparr>ac_type = am_messageType m, ac_id = wc_uuid_text wc (am_messageID m),
                       ac_seq = am_sequenceNumber m, ac_sequential = True\<rparr>"
proof -
  obtain a0 c1 where f: "fresh_message env c = (a0, c1)" by fastforce
  then have c1: "ch_closed c1 = ch_closed c" "ch_writes c1 = ch_writes c" "ch_wire c1 = ch_wire c"
    by (auto simp: fresh_message_def)
  let ?a = "a0\<lparr>am_messageType := msgAcknowledge, am_payloadType := payloadUndefined,
     am_sequenceNumber := am_sequenceNumber m, am_payload := wc_enc_ack wc \<lparr>ac_type = am_messageType m,
       ac_id = wc_uuid_text wc (am_messageID m), ac_seq = am_sequenceNumber m, ac_sequential = True\<rparr>, am_flags := flagAck\<rparr>"
  let ?c2 = "c1\<lparr>ch_writes := Suc (ch_writes c1), ch_wire := ch_wire c1 @ [marshal (wc_sha wc) ?a]\<rparr>"
  have ack: "acknowledge wc env m c = (None, ?c2)"
    using assms c1 by (simp add: acknowledge_def f send_def stampLocked_def writeMessage_def)
  have wire: "ch_wire (snd (reassemble m c')) = ch_wire c'" for c'
    by (auto simp: reassemble_def Let_def split: prod.split)
  have wire': "ch_wire (snd (hand_on env i run c')) = ch_wire c'" for i run c'
    by (induction env i run c' rule: hand_on.induct) auto
  have "ch_wire (snd (deliver wc env m c)) = ch_wire ?c2"
    using wire [of ?c2] wire' by (auto simp: deliver_def ack split: prod.split sum.split)
  then show ?thesis using c1(3) by (intro exI [of _ ?a]) simp
qed

theorem ssm_data_acknowledged_witness:
  "length (ch_wire (snd (deliver toy_codec calm (frame 5 [1]) new_channel))) = 1"
proof -
  have "\<not> ch_closed new_channel" "env_write calm (ch_writes new_channel) = None"
    by (simp_all add: new_channel_def calm_def)
  from ssm_data_acknowledged [OF this, of toy_codec "frame 5 [1]"] show ?thesis
    by (auto simp: new_channel_def)
qed



end
