(* ===== verification/IapChannel.thy ===== *)
theory IapChannel
  imports Prelude
begin

text \<open>
  \<^verbatim>\<open>internal/venue/iapdial/channel.go\<close>, with the constants of \<^verbatim>\<open>protocol.go\<close>: a
  Cloud IAP relay session as a byte pipe. Outbound bytes go in DATA frames of a bounded size and are
  counted; inbound ones are handed to Read and acknowledged cumulatively once enough has accumulated.

  The model is given, per operation, whether each websocket write succeeded (\<open>wr\<close>, by the number of the
  write) and, once the channel is stopped, which case a select took (\<open>room\<close>). The ping ticker and the dial
  are not modelled.
\<close>

definition tagConnectSuccessSID :: u16 where "tagConnectSuccessSID = 1"
definition tagReconnectSuccessAck :: u16 where "tagReconnectSuccessAck = 2"
definition tagData :: u16 where "tagData = 4"
definition tagAck :: u16 where "tagAck = 7"

lemmas tags = tagConnectSuccessSID_def tagReconnectSuccessAck_def tagData_def tagAck_def

definition tagLen :: nat where "tagLen = 2"
definition frameHeaderLen :: nat where "frameHeaderLen = tagLen + 4"
definition maxDataFrame :: nat where "maxDataFrame = 16384"
definition ackWindow :: nat where "ackWindow = 2 * maxDataFrame"

datatype prefix_error = NoPrefix nat | ShortBody u32 nat

datatype iap_error =
    IapEOF
  | IapNetClosed
  | IapTransport string
  | ConnectionEnded string
  | ErrBackendNotReached nat
  | ErrRelayClosed nat
  | NoTag nat
  | SecondConnect
  | UnexpectedReconnect
  | NotConnected
  | BadPrefix prefix_error
  | ShortAck nat
  | ConfirmedLess u64 u64
  | ConfirmedMore u64 u64

record iap_channel =
  ic_closed :: bool
  ic_closeErr :: "iap_error option"
  ic_totalSent :: u64
  ic_totalConfirmed :: u64
  ic_totalReceived :: u64
  ic_lastAcked :: u64
  ic_sid :: "byte list"
  ic_delivered :: "byte list list"
  ic_pending :: "byte list"
  ic_connected :: bool
  ic_stopped :: bool
  ic_closeResult :: "string option option"
  ic_wire :: "byte list list"
  ic_writes :: nat

definition new_iap :: iap_channel where
  "new_iap = \<lparr>ic_closed = False, ic_closeErr = None, ic_totalSent = 0, ic_totalConfirmed = 0,
     ic_totalReceived = 0, ic_lastAcked = 0, ic_sid = [], ic_delivered = [], ic_pending = [],
     ic_connected = False, ic_stopped = False, ic_closeResult = None, ic_wire = [], ic_writes = 0\<rparr>"

subsection \<open>Operations\<close>

definition iap_fail :: "iap_error \<Rightarrow> iap_channel \<Rightarrow> iap_channel" where
  "iap_fail e c = c\<lparr>ic_closeErr := (case ic_closeErr c of None \<Rightarrow> Some e | Some e' \<Rightarrow> Some e'),
                    ic_closed := True, ic_stopped := True\<rparr>"

definition iap_err :: "iap_channel \<Rightarrow> iap_error" where
  "iap_err c = (case ic_closeErr c of None \<Rightarrow> IapEOF | Some e \<Rightarrow> e)"

text \<open>\<open>None\<close> is a Read that waits.\<close>

definition iap_Read :: "nat \<Rightarrow> iap_channel \<Rightarrow> ((byte list \<times> iap_error option) \<times> iap_channel) option" where
  "iap_Read n c =
     (if ic_pending c \<noteq> []
      then Some ((take n (ic_pending c), None), c\<lparr>ic_pending := drop n (ic_pending c)\<rparr>)
      else (case ic_delivered c of
              chunk # rest \<Rightarrow> Some ((take n chunk, None), c\<lparr>ic_delivered := rest, ic_pending := drop n chunk\<rparr>)
            | [] \<Rightarrow> if ic_stopped c then Some (([], Some (iap_err c)), c) else None))"

definition writeFrame :: "(nat \<Rightarrow> string option) \<Rightarrow> byte list \<Rightarrow> iap_channel \<Rightarrow> iap_error option \<times> iap_channel" where
  "writeFrame wr frame c =
     (case wr (ic_writes c) of
        Some e \<Rightarrow> (Some (IapTransport e), c\<lparr>ic_writes := Suc (ic_writes c)\<rparr>)
      | None \<Rightarrow> (None, c\<lparr>ic_writes := Suc (ic_writes c), ic_wire := ic_wire c @ [frame]\<rparr>))"

definition data_frame :: "byte list \<Rightarrow> byte list" where
  "data_frame chunk = put_u16 tagData @ put_u32 (word_of_nat (length chunk)) @ chunk"

function iap_write_from ::
  "(nat \<Rightarrow> string option) \<Rightarrow> nat \<Rightarrow> byte list \<Rightarrow> iap_channel \<Rightarrow> (nat \<times> iap_error option) \<times> iap_channel" where
  "iap_write_from wr off p c =
     (if p = [] then ((off, None), c)
      else let chunk = take maxDataFrame p in
      if ic_closed c
      then ((off, Some (case ic_closeErr c of
              None \<Rightarrow> IapNetClosed | Some cause \<Rightarrow> if cause = IapEOF then IapNetClosed else cause)), c)
      else (case writeFrame wr (data_frame chunk) (c\<lparr>ic_totalSent := ic_totalSent c + word_of_nat (length chunk)\<rparr>) of
              (Some e, c') \<Rightarrow> ((off, Some e), c')
            | (None, c') \<Rightarrow> iap_write_from wr (off + length chunk) (drop maxDataFrame p) c'))"
  by pat_completeness auto

termination iap_write_from
  by (relation "measure (\<lambda>(wr, off, p, c). length p)") (auto simp: maxDataFrame_def)

declare iap_write_from.simps [simp del]

definition iap_Write :: "(nat \<Rightarrow> string option) \<Rightarrow> byte list \<Rightarrow> iap_channel \<Rightarrow> (nat \<times> iap_error option) \<times> iap_channel" where
  "iap_Write wr p c = iap_write_from wr 0 p c"

definition lengthPrefixed :: "byte list \<Rightarrow> prefix_error + byte list" where
  "lengthPrefixed body =
     (if length body < 4 then Inl (NoPrefix (length body))
      else let n = get_u32 body
           in if int (length body) - 4 < int (unat n) then Inl (ShortBody n (length body - 4))
              else Inr (take (unat n) (drop 4 body)))"

definition connectSuccess :: "byte list \<Rightarrow> iap_channel \<Rightarrow> iap_error option \<times> iap_channel" where
  "connectSuccess body c =
     (if ic_connected c then (Some SecondConnect, c)
      else (case lengthPrefixed body of
              Inl e \<Rightarrow> (Some (BadPrefix e), c)
            | Inr sid \<Rightarrow> (None, c\<lparr>ic_sid := sid, ic_connected := True\<rparr>)))"

definition ack_frame :: "u64 \<Rightarrow> byte list" where
  "ack_frame n = put_u16 tagAck @ put_u64 n"

definition iap_data :: "(nat \<Rightarrow> string option) \<Rightarrow> bool \<Rightarrow> byte list \<Rightarrow> iap_channel \<Rightarrow> iap_error option \<times> iap_channel" where
  "iap_data wr room body c =
     (if \<not> ic_connected c then (Some NotConnected, c)
      else (case lengthPrefixed body of
              Inl e \<Rightarrow> (Some (BadPrefix e), c)
            | Inr payload \<Rightarrow>
                (if payload = [] then (None, c)
                 else if ic_stopped c \<and> \<not> room then (Some (iap_err c), c)
                 else let c1 = c\<lparr>ic_delivered := ic_delivered c @ [payload],
                                ic_totalReceived := ic_totalReceived c + word_of_nat (length payload)\<rparr>
                      in if unat (ic_totalReceived c1 - ic_lastAcked c1) > ackWindow
                         then (case writeFrame wr (ack_frame (ic_totalReceived c1)) c1 of
                                 (Some e, c2) \<Rightarrow> (Some e, c2)
                               | (None, c2) \<Rightarrow> (None, c2\<lparr>ic_lastAcked := ic_totalReceived c2\<rparr>))
                         else (None, c1))))"

definition iap_ack :: "byte list \<Rightarrow> iap_channel \<Rightarrow> iap_error option \<times> iap_channel" where
  "iap_ack body c =
     (if \<not> ic_connected c then (Some NotConnected, c)
      else if length body < 8 then (Some (ShortAck (length body)), c)
      else let confirmed = get_u64 body
           in if confirmed < ic_totalConfirmed c then (Some (ConfirmedLess confirmed (ic_totalConfirmed c)), c)
              else if confirmed > ic_totalSent c then (Some (ConfirmedMore confirmed (ic_totalSent c)), c)
              else (None, c\<lparr>ic_totalConfirmed := confirmed\<rparr>))"

definition iap_handle :: "(nat \<Rightarrow> string option) \<Rightarrow> bool \<Rightarrow> byte list \<Rightarrow> iap_channel \<Rightarrow> iap_error option \<times> iap_channel" where
  "iap_handle wr room bs c =
     (if length bs < tagLen then (Some (NoTag (length bs)), c)
      else let tag = get_u16 bs; body = drop tagLen bs
           in if tag = tagConnectSuccessSID then connectSuccess body c
              else if tag = tagData then iap_data wr room body c
              else if tag = tagAck then iap_ack body c
              else if tag = tagReconnectSuccessAck then (Some UnexpectedReconnect, c)
              else (None, c))"

datatype relay_read = RelayFrame "byte list" | RelayClose nat | RelayError string

fun closeExplanation :: "relay_read \<Rightarrow> iap_error" where
  "closeExplanation (RelayClose code) =
     (if code = 1000 \<or> code = 1001 then IapEOF
      else if code = 4003 \<or> code = 4047 then ErrBackendNotReached code
      else ErrRelayClosed code)"
| "closeExplanation (RelayError e) = ConnectionEnded e"
| "closeExplanation (RelayFrame bs) = ConnectionEnded []"

definition iap_turn :: "(nat \<Rightarrow> string option) \<Rightarrow> bool \<Rightarrow> relay_read \<Rightarrow> iap_channel \<Rightarrow> iap_channel" where
  "iap_turn wr room r c =
     (case r of
        RelayFrame bs \<Rightarrow> (case iap_handle wr room bs c of (None, c') \<Rightarrow> c' | (Some e, c') \<Rightarrow> iap_fail e c')
      | _ \<Rightarrow> iap_fail (closeExplanation r) c)"

definition iap_Close :: "string option \<Rightarrow> iap_channel \<Rightarrow> string option \<times> iap_channel" where
  "iap_Close ws_close c =
     (case ic_closeResult c of
        Some r \<Rightarrow> (r, c)
      | None \<Rightarrow> (ws_close, (iap_fail IapEOF c)\<lparr>ic_closeResult := Some ws_close\<rparr>))"

subsection \<open>Lemmas: frames\<close>

lemma lengthPrefixed_frame:
  assumes "length chunk < 2 ^ 32"
  shows "lengthPrefixed (put_u32 (word_of_nat (length chunk)) @ chunk @ rest) = Inr chunk"
proof -
  have n: "unat (word_of_nat (length chunk) :: u32) = length chunk" using assms by (simp add: unat_of_nat)
  show ?thesis
    unfolding lengthPrefixed_def Let_def get_put_u32 n by simp
qed

lemma handle_data_frame:
  assumes "length chunk < 2 ^ 32"
  shows "iap_handle wr room (data_frame chunk @ rest) c
    = iap_data wr room (put_u32 (word_of_nat (length chunk)) @ chunk @ rest) c"
  by (simp add: iap_handle_def data_frame_def tagLen_def tags Let_def)

lemma handle_ack_frame: "iap_handle wr room (ack_frame n @ rest) c = iap_ack (put_u64 n @ rest) c"
  by (simp add: iap_handle_def ack_frame_def tagLen_def tags Let_def)

fun handle_all :: "(nat \<Rightarrow> string option) \<Rightarrow> bool \<Rightarrow> byte list list \<Rightarrow> iap_channel \<Rightarrow> iap_error option \<times> iap_channel" where
  "handle_all wr room [] c = (None, c)"
| "handle_all wr room (f # fs) c =
     (case iap_handle wr room f c of
        (Some e, c') \<Rightarrow> (Some e, c')
      | (None, c') \<Rightarrow> handle_all wr room fs c')"

definition live :: "iap_channel \<Rightarrow> bool" where
  "live c = (ic_connected c \<and> \<not> ic_stopped c)"

lemma data_frame_delivered:
  assumes "length chunk < 2 ^ 32" "chunk \<noteq> []" "live c"
  shows "\<exists>c'. iap_handle (\<lambda>_. None) room (data_frame chunk) c = (None, c') \<and> live c'
    \<and> ic_delivered c' = ic_delivered c @ [chunk]
    \<and> ic_totalReceived c' = ic_totalReceived c + word_of_nat (length chunk)"
proof -
  have "iap_handle (\<lambda>_. None) room (data_frame chunk) c
      = iap_data (\<lambda>_. None) room (put_u32 (word_of_nat (length chunk)) @ chunk) c"
    using handle_data_frame [OF assms(1), of _ _ "[]"] by simp
  moreover have "lengthPrefixed (put_u32 (word_of_nat (length chunk)) @ chunk) = Inr chunk"
    using lengthPrefixed_frame [OF assms(1), of "[]"] by simp
  ultimately show ?thesis
    using assms(2,3) by (simp add: iap_data_def live_def Let_def writeFrame_def)
qed

lemma data_frames_delivered:
  assumes "\<And>chunk. chunk \<in> set chunks \<Longrightarrow> length chunk < 2 ^ 32 \<and> chunk \<noteq> []" "live c"
  shows "\<exists>c'. handle_all (\<lambda>_. None) room (map data_frame chunks) c = (None, c') \<and> live c'
    \<and> ic_delivered c' = ic_delivered c @ chunks"
  using assms
proof (induction chunks arbitrary: c)
  case (Cons chunk chunks)
  have ok: "length chunk < 2 ^ 32" "chunk \<noteq> []" using Cons.prems(1) [of chunk] by simp_all
  obtain c1 where c1: "iap_handle (\<lambda>_. None) room (data_frame chunk) c = (None, c1)" "live c1"
    "ic_delivered c1 = ic_delivered c @ [chunk]"
    using data_frame_delivered [OF ok Cons.prems(2)] by blast
  have "\<And>x. x \<in> set chunks \<Longrightarrow> length x < 2 ^ 32 \<and> x \<noteq> []" using Cons.prems(1) by simp
  from Cons.IH [OF this c1(2)] show ?case using c1 by auto
qed simp

lemma write_from_frames:
  assumes "iap_write_from wr off p c = ((n, None), c')"
  shows "n = off + length p \<and> (\<exists>chunks. ic_wire c' = ic_wire c @ map data_frame chunks \<and> concat chunks = p
      \<and> (\<forall>chunk \<in> set chunks. chunk \<noteq> [] \<and> length chunk \<le> maxDataFrame))
    \<and> ic_totalSent c' = ic_totalSent c + word_of_nat (length p)"
  using assms
proof (induction wr off p c arbitrary: n c' rule: iap_write_from.induct)
  case (1 wr off p c)
  show ?case
  proof (cases "p = []")
    case True
    then show ?thesis using 1(2) by (subst (asm) iap_write_from.simps) auto
  next
    case False
    let ?chunk = "take maxDataFrame p" and ?rest = "drop maxDataFrame p"
    let ?c1 = "c\<lparr>ic_totalSent := ic_totalSent c + word_of_nat (length ?chunk)\<rparr>"
    have open_: "\<not> ic_closed c" using 1(2) False by (subst (asm) iap_write_from.simps) (auto simp: Let_def split: if_splits)
    obtain e c2 where w: "writeFrame wr (data_frame ?chunk) ?c1 = (e, c2)" by fastforce
    have e: "e = None" and rec: "iap_write_from wr (off + length ?chunk) ?rest c2 = ((n, None), c')"
      using 1(2) False open_ w by (subst (asm) iap_write_from.simps, auto simp: Let_def split: option.splits)+
    have c2: "ic_wire c2 = ic_wire c @ [data_frame ?chunk]" "ic_totalSent c2 = ic_totalSent c + word_of_nat (length ?chunk)"
      using w e by (auto simp: writeFrame_def split: option.splits)
    from 1(1) [OF False refl open_ w [symmetric] e rec]
    have n: "n = off + length ?chunk + length ?rest" and sent: "ic_totalSent c' = ic_totalSent c2 + word_of_nat (length ?rest)"
      and ex: "\<exists>chunks. ic_wire c' = ic_wire c2 @ map data_frame chunks \<and> concat chunks = ?rest
        \<and> (\<forall>chunk \<in> set chunks. chunk \<noteq> [] \<and> length chunk \<le> maxDataFrame)" by blast+
    have len: "length ?chunk + length ?rest = length p" by simp
    then have "ic_totalSent c' = ic_totalSent c + word_of_nat (length p)"
      unfolding sent c2(2) by (metis add.assoc of_nat_add)
    moreover obtain chunks where "ic_wire c' = ic_wire c2 @ map data_frame chunks" "concat chunks = ?rest"
      "\<forall>chunk \<in> set chunks. chunk \<noteq> [] \<and> length chunk \<le> maxDataFrame" using ex by blast
    then have "ic_wire c' = ic_wire c @ map data_frame (?chunk # chunks) \<and> concat (?chunk # chunks) = p
        \<and> (\<forall>chunk \<in> set (?chunk # chunks). chunk \<noteq> [] \<and> length chunk \<le> maxDataFrame)"
      using c2(1) False by (simp add: maxDataFrame_def)
    then have "\<exists>chunks. ic_wire c' = ic_wire c @ map data_frame chunks \<and> concat chunks = p
        \<and> (\<forall>chunk \<in> set chunks. chunk \<noteq> [] \<and> length chunk \<le> maxDataFrame)" by blast
    ultimately show ?thesis using n len by simp
  qed
qed

subsection \<open>Lemmas: the ledgers\<close>

definition iap_ok :: "iap_channel \<Rightarrow> bool" where
  "iap_ok c = (ic_stopped c = ic_closed c \<and> (ic_closed c \<longrightarrow> ic_closeErr c \<noteq> None)
     \<and> ic_totalConfirmed c \<le> ic_totalSent c \<and> ic_lastAcked c \<le> ic_totalReceived c
     \<and> (\<not> ic_closed c \<longrightarrow> unat (ic_totalReceived c - ic_lastAcked c) \<le> ackWindow))"

lemma new_iap_ok: "iap_ok new_iap"
  by (simp add: iap_ok_def new_iap_def)

lemma u64_grows: "unat (w :: u64) + n < 2 ^ 64 \<Longrightarrow> w \<le> w + word_of_nat n"
  by (simp add: word_le_nat_alt unat_word_ariths unat_of_nat)

lemma iap_fail_ok: "ic_totalConfirmed c \<le> ic_totalSent c \<Longrightarrow> ic_lastAcked c \<le> ic_totalReceived c \<Longrightarrow> iap_ok (iap_fail e c)"
  by (simp add: iap_ok_def iap_fail_def split: option.split)

lemma writeFrame_frame [chan_simps]:
  assumes "writeFrame wr f c = (e, c')"
  shows "ic_totalConfirmed c' = ic_totalConfirmed c" "ic_totalSent c' = ic_totalSent c"
    "ic_lastAcked c' = ic_lastAcked c" "ic_totalReceived c' = ic_totalReceived c"
    "ic_stopped c' = ic_stopped c" "ic_closed c' = ic_closed c" "ic_closeErr c' = ic_closeErr c"
  using assms by (auto simp: writeFrame_def split: option.splits)

lemma iap_write_from_ok:
  "iap_ok c \<Longrightarrow> unat (ic_totalSent c) + length p < 2 ^ 64 \<Longrightarrow> iap_ok (snd (iap_write_from wr off p c))"
proof (induction wr off p c rule: iap_write_from.induct)
  case (1 wr off p c)
  show ?case
  proof (cases "p = [] \<or> ic_closed c")
    case True
    then show ?thesis using 1(2) by (subst iap_write_from.simps) (auto simp: Let_def)
  next
    case False
    then have p: "p \<noteq> []" and open_: "\<not> ic_closed c" by simp_all
    let ?chunk = "take maxDataFrame p"
    let ?c1 = "c\<lparr>ic_totalSent := ic_totalSent c + word_of_nat (length ?chunk)\<rparr>"
    obtain e c2 where w: "writeFrame wr (data_frame ?chunk) ?c1 = (e, c2)" by fastforce
    have same: "ic_totalConfirmed c2 = ic_totalConfirmed c" "ic_lastAcked c2 = ic_lastAcked c"
      "ic_totalReceived c2 = ic_totalReceived c" "ic_stopped c2 = ic_stopped c" "ic_closed c2 = ic_closed c"
      "ic_closeErr c2 = ic_closeErr c"
      and sent: "ic_totalSent c2 = ic_totalSent c + word_of_nat (length ?chunk)"
      using writeFrame_frame [OF w] by simp_all
    have room: "unat (ic_totalSent c) + length ?chunk < 2 ^ 64" using 1(3) by simp
    have "ic_totalSent c \<le> ic_totalSent c2" unfolding sent by (rule u64_grows [OF room])
    then have ok2: "iap_ok c2"
      using 1(2) same unfolding iap_ok_def by (metis order_trans)
    show ?thesis
    proof (cases e)
      case (Some e')
      then show ?thesis using p open_ w ok2 by (subst iap_write_from.simps) (simp add: Let_def)
    next
      case None
      have "unat (ic_totalSent c2) = unat (ic_totalSent c) + length ?chunk"
        using room unfolding sent by (simp add: unat_word_ariths unat_of_nat)
      then have "unat (ic_totalSent c2) + length (drop maxDataFrame p) < 2 ^ 64" using 1(3) by simp
      from 1(1) [OF p refl open_ w [symmetric] None ok2 this] show ?thesis
        using p open_ w None by (subst iap_write_from.simps) (simp add: Let_def)
    qed
  qed
qed

lemma lengthPrefixed_le: "lengthPrefixed body = Inr payload \<Longrightarrow> length payload \<le> length body"
  by (auto simp: lengthPrefixed_def Let_def split: if_splits)

text \<open>What a frame leaves: the order of the ledgers, and the acknowledgement window unless the frame ended
  the session.\<close>

lemma iap_data_ok:
  assumes ok: "iap_ok c" and room: "unat (ic_totalReceived c) + length body < 2 ^ 64"
    and d: "iap_data wr r body c = (e, c')"
  shows "ic_totalConfirmed c' \<le> ic_totalSent c' \<and> ic_lastAcked c' \<le> ic_totalReceived c' \<and> (e = None \<longrightarrow> iap_ok c')"
proof (cases "lengthPrefixed body")
  case (Inl err)
  then show ?thesis using d ok by (auto simp: iap_data_def iap_ok_def split: if_splits)
next
  case (Inr payload)
  let ?c1 = "c\<lparr>ic_delivered := ic_delivered c @ [payload],
      ic_totalReceived := ic_totalReceived c + word_of_nat (length payload)\<rparr>"
  have "unat (ic_totalReceived c) + length payload < 2 ^ 64" using room lengthPrefixed_le [OF Inr] by linarith
  then have "ic_totalReceived c \<le> ic_totalReceived ?c1" using u64_grows by simp
  then have le: "ic_lastAcked c \<le> ic_totalReceived ?c1" using ok by (auto simp: iap_ok_def)
  obtain f c2 where w: "writeFrame wr (ack_frame (ic_totalReceived ?c1)) ?c1 = (f, c2)" by fastforce
  have c2: "ic_totalConfirmed c2 = ic_totalConfirmed c" "ic_totalSent c2 = ic_totalSent c" "ic_lastAcked c2 = ic_lastAcked c"
    "ic_totalReceived c2 = ic_totalReceived ?c1" "ic_stopped c2 = ic_stopped c" "ic_closed c2 = ic_closed c" "ic_closeErr c2 = ic_closeErr c"
    using writeFrame_frame [OF w] by simp_all
  show ?thesis
    using d ok le c2 w Inr
    by (cases "payload = []"; cases "ic_connected c"; cases "ic_stopped c \<and> \<not> r")
       (auto simp: iap_data_def iap_ok_def Let_def ackWindow_def maxDataFrame_def split: if_splits option.splits)
qed

lemma iap_handle_ok:
  assumes ok: "iap_ok c" and room: "unat (ic_totalReceived c) + length bs < 2 ^ 64"
    and h: "iap_handle wr r bs c = (e, c')"
  shows "ic_totalConfirmed c' \<le> ic_totalSent c' \<and> ic_lastAcked c' \<le> ic_totalReceived c' \<and> (e = None \<longrightarrow> iap_ok c')"
proof -
  let ?body = "drop tagLen bs"
  have c: "ic_totalConfirmed c \<le> ic_totalSent c" "ic_lastAcked c \<le> ic_totalReceived c" using ok by (simp_all add: iap_ok_def)
  have connect: "?thesis" if "connectSuccess ?body c = (e, c')"
    using that ok by (auto simp: connectSuccess_def iap_ok_def split: if_splits sum.splits)
  have ack: "?thesis" if "iap_ack ?body c = (e, c')"
    using that ok by (auto simp: iap_ack_def iap_ok_def Let_def not_less split: if_splits)
  have dat: "?thesis" if "iap_data wr r ?body c = (e, c')"
    by (rule iap_data_ok [OF ok _ that]) (use room in simp)
  show ?thesis
    using h connect ack dat ok c unfolding iap_handle_def Let_def by (auto split: if_splits)
qed

inductive iap_step :: "iap_channel \<Rightarrow> iap_channel \<Rightarrow> bool" where
  iap_turn: "(\<And>bs. r = RelayFrame bs \<Longrightarrow> unat (ic_totalReceived c) + length bs < 2 ^ 64) \<Longrightarrow> iap_step c (iap_turn wr room r c)"
| iap_write: "unat (ic_totalSent c) + length p < 2 ^ 64 \<Longrightarrow> iap_step c (snd (iap_Write wr p c))"
| iap_read: "iap_Read n c = Some (r, c') \<Longrightarrow> iap_step c c'"
| iap_close: "iap_step c (snd (iap_Close w c))"

inductive_cases iap_stepE: "iap_step c c'"

lemma iap_turn_ok:
  assumes "iap_ok c" "\<And>bs. r = RelayFrame bs \<Longrightarrow> unat (ic_totalReceived c) + length bs < 2 ^ 64"
  shows "iap_ok (iap_turn wr room r c)"
proof (cases r)
  case (RelayFrame bs)
  obtain e c' where h: "iap_handle wr room bs c = (e, c')" by fastforce
  from iap_handle_ok [OF assms(1) assms(2) [OF RelayFrame] h] show ?thesis
    using RelayFrame h iap_fail_ok by (cases e) (simp_all add: iap_turn_def)
qed (use assms(1) iap_fail_ok in \<open>simp_all add: iap_turn_def iap_ok_def\<close>)

lemma iap_step_ok: "iap_step c c' \<Longrightarrow> iap_ok c \<Longrightarrow> iap_ok c'"
proof (erule iap_stepE)
  fix n r
  assume "iap_ok c" "iap_Read n c = Some (r, c')"
  then show "iap_ok c'" by (auto simp: iap_Read_def iap_ok_def split: if_splits list.splits)
next
  fix w
  assume "iap_ok c" "c' = snd (iap_Close w c)"
  then show "iap_ok c'" by (auto simp: iap_Close_def iap_ok_def iap_fail_def split: option.splits)
qed (simp_all add: iap_turn_ok iap_Write_def iap_write_from_ok)

interpretation iap: invariant_system "\<lambda>c. c = new_iap" iap_step iap_ok
proof
  show "iap_ok c" if "c = new_iap" for c using that new_iap_ok by simp
qed (rule iap_step_ok)

subsection \<open>Properties\<close>

text \<open>C16: what one end's Write reports written is what the other end hands to its reader: the frames put
  on the wire, handled by a connected channel, deliver the written bytes, whole and in order.\<close>

theorem iap_pipe:
  assumes "iap_Write wr p c = ((n, None), c')" and "ic_connected d" and "\<not> ic_stopped d"
  shows "n = length p \<and> (\<exists>frames d'. ic_wire c' = ic_wire c @ frames
      \<and> handle_all (\<lambda>_. None) room frames d = (None, d')
      \<and> concat (ic_delivered d') = concat (ic_delivered d) @ p)"
proof -
  from write_from_frames [OF assms(1) [unfolded iap_Write_def]]
  obtain chunks where n: "n = length p" and w: "ic_wire c' = ic_wire c @ map data_frame chunks"
    and p: "concat chunks = p" and small: "\<forall>chunk \<in> set chunks. chunk \<noteq> [] \<and> length chunk \<le> maxDataFrame" by auto
  have "length chunk < 2 ^ 32 \<and> chunk \<noteq> []" if "chunk \<in> set chunks" for chunk
    using small that by (force simp: maxDataFrame_def)
  then obtain d' where "handle_all (\<lambda>_. None) room (map data_frame chunks) d = (None, d')"
    "ic_delivered d' = ic_delivered d @ chunks"
    using data_frames_delivered [of chunks d room] assms(2,3) by (auto simp: live_def)
  then show ?thesis using n w p by auto
qed

theorem iap_pipe_witness:
  "\<exists>frames d'. ic_wire (snd (iap_Write (\<lambda>_. None) [1, 2, 3] new_iap)) = ic_wire new_iap @ frames
    \<and> handle_all (\<lambda>_. None) True frames (new_iap\<lparr>ic_connected := True\<rparr>) = (None, d')
    \<and> concat (ic_delivered d') = [1, 2, 3]"
proof -
  have w: "iap_Write (\<lambda>_. None) [1, 2, 3] new_iap = ((3, None), snd (iap_Write (\<lambda>_. None) [1, 2, 3] new_iap))"
    by (simp add: iap_Write_def iap_write_from.simps [of _ 0] iap_write_from.simps [of _ _ "[]"] new_iap_def
          writeFrame_def Let_def maxDataFrame_def)
  have d: "ic_connected (new_iap\<lparr>ic_connected := True\<rparr>)" "\<not> ic_stopped (new_iap\<lparr>ic_connected := True\<rparr>)"
    "ic_delivered (new_iap\<lparr>ic_connected := True\<rparr>) = []"
    by (simp_all add: new_iap_def)
  from iap_pipe [OF w d(1,2), of True] show ?thesis by (simp add: d(3))
qed

text \<open>C17: in every reachable state the relay has confirmed no more than was sent, this end has
  acknowledged no more than it received and, while the session lives, is at most the window behind.\<close>

theorem iap_ledgers:
  assumes "iap_step\<^sup>*\<^sup>* new_iap c"
  shows "ic_totalConfirmed c \<le> ic_totalSent c \<and> ic_lastAcked c \<le> ic_totalReceived c
    \<and> (\<not> ic_closed c \<longrightarrow> unat (ic_totalReceived c - ic_lastAcked c) \<le> ackWindow)
    \<and> (ic_stopped c \<longrightarrow> ic_closeErr c \<noteq> None)"
  using iap.reachable_inv [OF refl assms] by (auto simp: iap_ok_def)

theorem iap_ledgers_witness:
  "ic_totalConfirmed (snd (iap_Write (\<lambda>_. None) [1, 2, 3] new_iap)) \<le> ic_totalSent (snd (iap_Write (\<lambda>_. None) [1, 2, 3] new_iap))"
proof -
  have "unat (ic_totalSent new_iap) + length [1, 2, 3 :: byte] < 2 ^ 64" by (simp add: new_iap_def)
  then have "iap_step\<^sup>*\<^sup>* new_iap (snd (iap_Write (\<lambda>_. None) [1, 2, 3] new_iap))"
    by (intro r_into_rtranclp iap_write)
  from iap_ledgers [OF this] show ?thesis by blast
qed

text \<open>C18: a confirmation the outbound ledger contradicts, of fewer bytes than before or of more than were
  sent, ends the session with the numbers that disagree and moves nothing; any other moves the ledger to
  exactly what it says.\<close>

theorem iap_ack_checked:
  assumes "ic_connected c"
  shows "iap_turn wr room (RelayFrame (ack_frame n @ trailing)) c =
    (if n < ic_totalConfirmed c then iap_fail (ConfirmedLess n (ic_totalConfirmed c)) c
     else if ic_totalSent c < n then iap_fail (ConfirmedMore n (ic_totalSent c)) c
     else c\<lparr>ic_totalConfirmed := n\<rparr>)"
  using assms by (simp add: iap_turn_def handle_ack_frame iap_ack_def Let_def)

theorem iap_ack_checked_witness:
  "iap_turn (\<lambda>_. None) True (RelayFrame (ack_frame 5 @ [])) (new_iap\<lparr>ic_connected := True\<rparr>)
     = iap_fail (ConfirmedMore 5 0) (new_iap\<lparr>ic_connected := True\<rparr>)"
proof -
  have "ic_connected (new_iap\<lparr>ic_connected := True\<rparr>)" by simp
  from iap_ack_checked [OF this, of "\<lambda>_. None" True 5 "[]"] show ?thesis by (simp add: new_iap_def)
qed

end
