(* ===== verification/Versions.thy ===== *)
theory Versions
  imports Prelude
begin

text \<open>
  \<^verbatim>\<open>internal/store/sqlite/history.go\<close> and the passed and consumed halves of
  \<^verbatim>\<open>versions.go\<close>: every version a pipeline has seen of each resource, in the order it saw
  them, which jobs went green on which, and how far each job has fanned out.

  A version is its canonical JSON text, the form every table keys on. One pipeline's rows are one record
  (every statement is scoped by the pipeline id); each SQL statement is one definition over it. \<open>GreenVersions\<close>
  and the others answer in check_order order, which \<open>sort_key\<close> gives.
\<close>

type_synonym version = string

record version_row =
  vr_res :: string
  vr_version :: version
  vr_order :: nat
  vr_from_check :: bool

record pass_row =
  pr_job :: string
  pr_res :: string
  pr_version :: version
  pr_build :: string

record version_db =
  vd_rows :: "version_row list"
  vd_passes :: "pass_row list"
  vd_marks :: "((string \<times> string) \<times> nat) list"

definition rows_of_res :: "string \<Rightarrow> version_db \<Rightarrow> version_row list" where
  "rows_of_res res db = filter (\<lambda>r. vr_res r = res) (vd_rows db)"

definition max_order :: "string \<Rightarrow> version_row list \<Rightarrow> nat" where
  "max_order res rows = fold max (map vr_order (filter (\<lambda>r. vr_res r = res) rows)) 0"

subsection \<open>What a check reported\<close>

text \<open>The versions of a report, each at its first position.\<close>

fun first_occurrences :: "'a list \<Rightarrow> 'a list" where
  "first_occurrences [] = []"
| "first_occurrences (x # xs) = x # filter (\<lambda>y. y \<noteq> x) (first_occurrences xs)"

definition checked :: "string \<Rightarrow> version_row list \<Rightarrow> version \<Rightarrow> bool" where
  "checked res rows v = list_ex (\<lambda>r. vr_res r = res \<and> vr_version r = v \<and> vr_from_check r) rows"

definition fresh_versions :: "string \<Rightarrow> version_row list \<Rightarrow> version list \<Rightarrow> version list" where
  "fresh_versions res rows vs = filter (\<lambda>v. \<not> checked res rows v) (first_occurrences vs)"

definition upsert :: "string \<Rightarrow> version \<times> nat \<Rightarrow> version_row list \<Rightarrow> version_row list" where
  "upsert res vo rows =
     (if list_ex (\<lambda>r. vr_res r = res \<and> vr_version r = fst vo) rows
      then map (\<lambda>r. if vr_res r = res \<and> vr_version r = fst vo
                    then r\<lparr>vr_order := snd vo, vr_from_check := True\<rparr> else r) rows
      else rows @ [\<lparr>vr_res = res, vr_version = fst vo, vr_order = snd vo, vr_from_check = True\<rparr>])"

fun numbered :: "nat \<Rightarrow> version list \<Rightarrow> (version \<times> nat) list" where
  "numbered n [] = []"
| "numbered n (v # vs) = (v, Suc n) # numbered (Suc n) vs"

definition insertNewVersions :: "string \<Rightarrow> version list \<Rightarrow> version_row list \<Rightarrow> nat \<times> version_row list" where
  "insertNewVersions res vs rows =
     (let fresh = fresh_versions res rows vs
      in (length fresh, fold (upsert res) (numbered (max_order res rows) fresh) rows))"

definition no_floor :: nat where "no_floor = 4611686018427387903"

definition report_floor :: "string \<Rightarrow> version list \<Rightarrow> version_row list \<Rightarrow> nat" where
  "report_floor res vs rows =
     (case map vr_order (filter (\<lambda>r. vr_res r = res \<and> vr_version r \<in> set vs) rows) of
        [] \<Rightarrow> no_floor
      | n # ns \<Rightarrow> fold min ns n)"

definition newest_orders :: "string \<Rightarrow> nat \<Rightarrow> version_row list \<Rightarrow> nat list" where
  "newest_orders res n rows = take n (rev (sort (map vr_order (filter (\<lambda>r. vr_res r = res) rows))))"

definition pruned :: "string \<Rightarrow> nat \<Rightarrow> version list \<Rightarrow> version_row list \<Rightarrow> version_row \<Rightarrow> bool" where
  "pruned res n vs rows r =
     (vr_res r = res \<and> vr_order r < report_floor res vs rows \<and> vr_order r \<notin> set (newest_orders res n rows))"

text \<open>The foreign key of \<^verbatim>\<open>job_versions\<close> deletes with the row it names.\<close>

definition pruneVersions :: "string \<Rightarrow> nat \<Rightarrow> version list \<Rightarrow> version_db \<Rightarrow> version_db" where
  "pruneVersions res n vs db =
     (let gone = filter (pruned res n vs (vd_rows db)) (vd_rows db)
      in db\<lparr>vd_rows := filter (\<lambda>r. \<not> pruned res n vs (vd_rows db) r) (vd_rows db),
            vd_passes := filter (\<lambda>p. \<not> list_ex (\<lambda>r. vr_res r = pr_res p \<and> vr_version r = pr_version p) gone)
              (vd_passes db)\<rparr>)"

definition DefaultResourceVersionCap :: nat where "DefaultResourceVersionCap = 1000"

definition RecordVersions :: "string \<Rightarrow> version list \<Rightarrow> int \<Rightarrow> version_db \<Rightarrow> nat \<times> version_db" where
  "RecordVersions res vs limit db =
     (if vs = [] then (0, db)
      else let n = (if limit < 0 then DefaultResourceVersionCap else nat limit);
               (added, rows) = insertNewVersions res vs (vd_rows db);
               db1 = db\<lparr>vd_rows := rows\<rparr>
           in (added, if n > 0 then pruneVersions res n vs db1 else db1))"

subsection \<open>Reading history\<close>

definition ResourceVersionsJSON :: "string \<Rightarrow> version_db \<Rightarrow> version list" where
  "ResourceVersionsJSON res db =
     map vr_version (sort_key vr_order (filter (\<lambda>r. vr_res r = res \<and> vr_from_check r) (vd_rows db)))"

definition VersionOrders :: "string \<Rightarrow> version_db \<Rightarrow> version \<Rightarrow> nat option" where
  "VersionOrders res db = map_of (map (\<lambda>r. (vr_version r, vr_order r)) (rows_of_res res db))"

definition ensureVersion :: "string \<Rightarrow> version \<Rightarrow> version_db \<Rightarrow> version_db" where
  "ensureVersion res v db =
     (if list_ex (\<lambda>r. vr_res r = res \<and> vr_version r = v) (vd_rows db) then db
      else db\<lparr>vd_rows := vd_rows db @ [\<lparr>vr_res = res, vr_version = v,
                vr_order = max_order res (vd_rows db) + 1, vr_from_check = False\<rparr>]\<rparr>)"

definition RecordVersionOrder :: "string \<Rightarrow> version \<Rightarrow> version_db \<Rightarrow> nat option \<times> version_db" where
  "RecordVersionOrder res v db =
     (let db' = ensureVersion res v db in (VersionOrders res db' v, db'))"

definition GreenVersions :: "string \<Rightarrow> string list \<Rightarrow> version_db \<Rightarrow> version list" where
  "GreenVersions res upstreams db =
     map vr_version (sort_key vr_order
       (filter (\<lambda>r. \<not> list_ex (\<lambda>j. \<not> list_ex (\<lambda>p. pr_job p = j \<and> pr_res p = res \<and> pr_version p = vr_version r)
                                     (vd_passes db)) upstreams)
          (rows_of_res res db)))"

subsection \<open>Green records\<close>

definition RecordPassedVersion :: "pass_row \<Rightarrow> version_db \<Rightarrow> version_db" where
  "RecordPassedVersion p db =
     (let db1 = ensureVersion (pr_res p) (pr_version p) db;
          same = (\<lambda>q. pr_job q = pr_job p \<and> pr_res q = pr_res p \<and> pr_version q = pr_version p)
      in db1\<lparr>vd_passes := (if list_ex same (vd_passes db1)
               then map (\<lambda>q. if same q then q\<lparr>pr_build := pr_build p\<rparr> else q) (vd_passes db1)
               else vd_passes db1 @ [p])\<rparr>)"

definition RecordPassedVersions :: "pass_row list \<Rightarrow> version_db \<Rightarrow> version_db" where
  "RecordPassedVersions ps db = fold RecordPassedVersion ps db"

text \<open>One build in which every wanted pair was green: the group a \<open>build_id\<close> makes holds a row of each
  wanted resource.\<close>

definition HasPassedVersionSet :: "string \<Rightarrow> (string \<times> version) list \<Rightarrow> version_db \<Rightarrow> bool" where
  "HasPassedVersionSet j want db =
     (want = []
      \<or> list_ex (\<lambda>p. length (remdups (map pr_res (filter (\<lambda>q. pr_job q = j \<and> pr_build q = pr_build p
                          \<and> (pr_res q, pr_version q) \<in> set want) (vd_passes db)))) = length want)
          (filter (\<lambda>p. pr_job p = j \<and> pr_build p \<noteq> [] \<and> (pr_res p, pr_version p) \<in> set want) (vd_passes db)))"

subsection \<open>The fan-out cursor\<close>

definition ConsumedMark :: "string \<Rightarrow> string \<Rightarrow> version_db \<Rightarrow> nat" where
  "ConsumedMark j res db = (case map_of (vd_marks db) (j, res) of None \<Rightarrow> 0 | Some n \<Rightarrow> n)"

definition RecordConsumedMark :: "string \<Rightarrow> string \<Rightarrow> nat \<Rightarrow> version_db \<Rightarrow> version_db" where
  "RecordConsumedMark j res order db =
     (if order = 0 then db
      else db\<lparr>vd_marks := (case map_of (vd_marks db) (j, res) of
               None \<Rightarrow> vd_marks db @ [((j, res), order)]
             | Some n \<Rightarrow> map (\<lambda>(k, m). if k = (j, res) then (k, max m order) else (k, m)) (vd_marks db))\<rparr>)"

end
