(* ===== verification/InputSets.thy ===== *)
theory InputSets
  imports Versions
begin

text \<open>
  Which versions one build binds: \<^verbatim>\<open>internal/pipeline/cursor.go\<close>, \<^verbatim>\<open>inputsets.go\<close> and
  \<^verbatim>\<open>backlog.go\<close>, with the resolution of \<^verbatim>\<open>internal/resource/resource.go\<close> and
  \<^verbatim>\<open>cache.go\<close> they go through.

  A version is carried as its canonical JSON text. Two things outside the repository are arguments:
  \<open>fld\<close>, a version's field as the standard library decodes and prints it, and \<open>chk\<close>, what the
  resource's own check command reports. A plan is its steps in order; one that is no get has an empty
  \<open>gs_get\<close>. Go maps are association lists without repeated keys.
\<close>

fun put :: "'k \<Rightarrow> 'v \<Rightarrow> ('k \<times> 'v) list \<Rightarrow> ('k \<times> 'v) list" where
  "put k v [] = [(k, v)]"
| "put k v ((k', v') # m) = (if k' = k then (k, v) # m else (k', v') # put k v m)"

subsection \<open>Get steps\<close>

datatype version_field = NoVersion | VersionText string | VersionMap "(string \<times> string) list"

record get_step =
  gs_get :: string
  gs_resource :: string
  gs_version :: version_field
  gs_passed :: "string list"

record job_plan =
  jp_name :: string
  jp_plan :: "get_step list"
  jp_gets :: "get_step list"

record res_config =
  rc_resources :: "(string \<times> string) list"
  rc_types :: "string list"

datatype resolve_mode = ModeLatest | ModeEvery | ModePinned

definition VersionEvery :: "get_step \<Rightarrow> bool" where
  "VersionEvery s = (gs_version s = VersionText ''every'')"

definition GetResourceName :: "get_step \<Rightarrow> string" where
  "GetResourceName s = (if gs_resource s \<noteq> [] then gs_resource s else gs_get s)"

definition VersionMode :: "get_step \<Rightarrow> resolve_mode \<times> (string \<times> string) list" where
  "VersionMode s =
     (if VersionEvery s then (ModeEvery, [])
      else (case gs_version s of
              VersionText t \<Rightarrow> (ModeLatest, [])
            | VersionMap m \<Rightarrow> (ModePinned, m)
            | NoVersion \<Rightarrow> (ModeLatest, [])))"

definition GetResourceNames :: "job_plan \<Rightarrow> string list" where
  "GetResourceNames job = first_occurrences (map GetResourceName (filter (\<lambda>s. gs_get s \<noteq> []) (jp_gets job)))"

definition PassedConstraints :: "job_plan \<Rightarrow> string \<Rightarrow> string list option" where
  "PassedConstraints job res =
     (let ss = filter (\<lambda>s. gs_get s \<noteq> [] \<and> gs_passed s \<noteq> [] \<and> GetResourceName s = res) (jp_gets job)
      in if ss = [] then None else Some (concat (map gs_passed ss)))"

subsection \<open>Resolving one get\<close>

datatype resolve_error =
    UnknownResource string
  | UnknownType string
  | CheckFailed string
  | NoVersionsAvailable string
  | NothingPassed string "string list"
  | NoVersionMatches string "(string \<times> string) list"
  | ResolvedToNone string
  | SharedCursor string string

definition matchesPin :: "(version \<Rightarrow> string \<Rightarrow> string option) \<Rightarrow> version \<Rightarrow> (string \<times> string) list \<Rightarrow> bool" where
  "matchesPin fld v pinned = list_all (\<lambda>(key, want). fld v key = Some want) pinned"

definition SelectVersion :: "(version \<Rightarrow> string \<Rightarrow> string option) \<Rightarrow> version list \<Rightarrow> (string \<times> string) list
    \<Rightarrow> version option" where
  "SelectVersion fld vs pinned =
     (if vs = [] then None
      else if pinned = [] then Some (last vs)
      else List.find (\<lambda>v. matchesPin fld v pinned) vs)"

definition versionsFor :: "(string \<Rightarrow> string + version list) \<Rightarrow> get_step \<Rightarrow> string
    \<Rightarrow> (string \<times> string) list \<Rightarrow> (string \<Rightarrow> version list option) \<Rightarrow> resolve_error + version list" where
  "versionsFor chk s res pinned supplied =
     (let checked = (case chk res of Inl e \<Rightarrow> Inl (CheckFailed e) | Inr vs \<Rightarrow> Inr vs) in
      if pinned = [] \<and> fst (VersionMode s) \<noteq> ModePinned
      then (case supplied res of Some vs \<Rightarrow> Inr vs | None \<Rightarrow> checked)
      else checked)"

definition ResolveVersions :: "(version \<Rightarrow> string \<Rightarrow> string option) \<Rightarrow> (string \<Rightarrow> string + version list)
    \<Rightarrow> res_config \<Rightarrow> get_step \<Rightarrow> (string \<times> string) list \<Rightarrow> (string \<Rightarrow> version list option)
    \<Rightarrow> resolve_error + string \<times> version list" where
  "ResolveVersions fld chk cfg s pinned supplied =
     (let res = GetResourceName s in
      case map_of (rc_resources cfg) res of
        None \<Rightarrow> Inl (UnknownResource res)
      | Some type \<Rightarrow>
          (if type \<notin> set (rc_types cfg) then Inl (UnknownType type)
           else case versionsFor chk s res pinned supplied of
             Inl e \<Rightarrow> Inl e
           | Inr vs \<Rightarrow>
               (if pinned = [] \<and> fst (VersionMode s) = ModeEvery then Inr (res, vs)
                else let pin = (if pinned = [] then snd (VersionMode s) else pinned) in
                  case SelectVersion fld vs pin of
                    Some v \<Rightarrow> Inr (res, [v])
                  | None \<Rightarrow>
                      (if vs = [] then (if gs_passed s \<noteq> [] then Inl (NothingPassed res (gs_passed s))
                                        else Inl (NoVersionsAvailable (gs_get s)))
                       else Inl (NoVersionMatches (gs_get s) pin)))))"

definition unconsumed :: "(string \<Rightarrow> version \<Rightarrow> bool) \<Rightarrow> get_step \<Rightarrow> (string \<times> string) list \<Rightarrow> string
    \<Rightarrow> version list \<Rightarrow> version list" where
  "unconsumed consumed s pinned res vs =
     (if pinned \<noteq> [] \<or> fst (VersionMode s) \<noteq> ModeEvery then vs
      else filter (\<lambda>v. \<not> consumed res v) vs)"

text \<open>The memo: an answer is filed under every field of the step resolution reads.\<close>

type_synonym cache_key = "string \<times> string \<times> version_field \<times> string list"

record cache_entry =
  ce_get :: string
  ce_answer :: "resolve_error + string \<times> version list"
  ce_suppressed :: nat

type_synonym resolve_cache = "(cache_key \<times> cache_entry) list"

definition cacheKey :: "get_step \<Rightarrow> cache_key" where
  "cacheKey s = (gs_get s, GetResourceName s, gs_version s, gs_passed s)"

definition fresh_entry :: "(version \<Rightarrow> string \<Rightarrow> string option) \<Rightarrow> (string \<Rightarrow> string + version list)
    \<Rightarrow> res_config \<Rightarrow> (string \<Rightarrow> version list option) \<Rightarrow> (string \<Rightarrow> version \<Rightarrow> bool) \<Rightarrow> (string \<times> string) list
    \<Rightarrow> get_step \<Rightarrow> cache_entry" where
  "fresh_entry fld chk cfg supplied consumed pinned s =
     (case ResolveVersions fld chk cfg s pinned supplied of
        Inl e \<Rightarrow> \<lparr>ce_get = gs_get s, ce_answer = Inl e, ce_suppressed = 0\<rparr>
      | Inr (res, found) \<Rightarrow>
          (let vs = unconsumed consumed s pinned res found
           in \<lparr>ce_get = gs_get s, ce_answer = Inr (res, vs), ce_suppressed = length found - length vs\<rparr>))"

definition ResolveVersionsCached :: "(version \<Rightarrow> string \<Rightarrow> string option) \<Rightarrow> (string \<Rightarrow> string + version list)
    \<Rightarrow> res_config \<Rightarrow> (string \<Rightarrow> version list option) \<Rightarrow> (string \<Rightarrow> version \<Rightarrow> bool) \<Rightarrow> (string \<times> string) list
    \<Rightarrow> get_step \<Rightarrow> resolve_cache \<Rightarrow> (resolve_error + string \<times> version list) \<times> resolve_cache" where
  "ResolveVersionsCached fld chk cfg supplied consumed pinned s cache =
     (case map_of cache (cacheKey s) of
        Some e \<Rightarrow> (ce_answer e, cache)
      | None \<Rightarrow> (let e = fresh_entry fld chk cfg supplied consumed pinned s
                 in (ce_answer e, put (cacheKey s) e cache)))"

definition Suppressed :: "get_step \<Rightarrow> resolve_cache \<Rightarrow> nat" where
  "Suppressed s cache = sum_list (map (\<lambda>(k, e). if ce_get e = gs_get s then ce_suppressed e else 0) cache)"

subsection \<open>The cursor and the history a run reads\<close>

record versionCursor =
  vc_marks :: "string \<Rightarrow> nat"
  vc_orders :: "string \<Rightarrow> version \<Rightarrow> nat option"
  vc_suppress :: bool

definition fansOutOverEveryVersion :: "get_step \<Rightarrow> bool" where
  "fansOutOverEveryVersion s = (fst (VersionMode s) = ModeEvery)"

definition loadVersionCursor :: "job_plan \<Rightarrow> bool \<Rightarrow> version_db \<Rightarrow> versionCursor option" where
  "loadVersionCursor job suppress db =
     (let rs = first_occurrences (map GetResourceName
                 (filter (\<lambda>s. gs_get s \<noteq> [] \<and> fansOutOverEveryVersion s) (jp_plan job)))
      in if rs = [] then None
         else Some \<lparr>vc_marks = (\<lambda>r. if r \<in> set rs then ConsumedMark (jp_name job) r db else 0),
                    vc_orders = (\<lambda>r. if r \<in> set rs then VersionOrders r db else (\<lambda>_. None)),
                    vc_suppress = suppress\<rparr>)"

record resourceHistory =
  rh_versions :: "(string \<times> version list) list"
  rh_gated :: "string list"

definition loadResourceHistory :: "job_plan \<Rightarrow> version_db \<Rightarrow> resourceHistory" where
  "loadResourceHistory job db =
     \<lparr>rh_versions = map (\<lambda>n. (n, case PassedConstraints job n of
                                   Some ups \<Rightarrow> GreenVersions n ups db
                                 | None \<Rightarrow> ResourceVersionsJSON n db)) (GetResourceNames job),
      rh_gated = filter (\<lambda>n. PassedConstraints job n \<noteq> None) (GetResourceNames job)\<rparr>"

definition history_get :: "resourceHistory \<Rightarrow> string \<Rightarrow> version list option" where
  "history_get h res =
     (let vs = (case map_of (rh_versions h) res of None \<Rightarrow> [] | Some vs \<Rightarrow> vs)
      in if vs = [] \<and> res \<notin> set (rh_gated h) then None else Some vs)"

definition history_list :: "resourceHistory \<Rightarrow> string \<Rightarrow> version list" where
  "history_list h res = (case history_get h res of None \<Rightarrow> [] | Some vs \<Rightarrow> vs)"

definition history_holds :: "resourceHistory \<Rightarrow> string \<Rightarrow> version \<Rightarrow> bool" where
  "history_holds h res v = (v \<in> set (history_list h res))"

definition cursor_has :: "versionCursor option \<Rightarrow> string \<Rightarrow> version \<Rightarrow> bool" where
  "cursor_has cur res v =
     (case cur of
        None \<Rightarrow> False
      | Some c \<Rightarrow> vc_suppress c \<and> (case vc_orders c res v of None \<Rightarrow> False | Some n \<Rightarrow> n \<le> vc_marks c res))"

definition cursor_take :: "string \<Rightarrow> string \<Rightarrow> version \<Rightarrow> versionCursor option \<times> version_db
    \<Rightarrow> versionCursor option \<times> version_db" where
  "cursor_take job res v cd =
     (case fst cd of
        None \<Rightarrow> cd
      | Some c \<Rightarrow>
          (case RecordVersionOrder res v (snd cd) of
             (None, db) \<Rightarrow> (Some c, db)
           | (Some n, db) \<Rightarrow>
               (Some (c\<lparr>vc_marks := (vc_marks c)(res := max n (vc_marks c res)),
                       vc_orders := (vc_orders c)(res := (vc_orders c res)(v \<mapsto> n))\<rparr>),
                RecordConsumedMark job res n db)))"

text \<open>Where an exhausted every-get holds: the newest candidate the cursor covers.\<close>

fun best_held :: "(version \<Rightarrow> nat option) \<Rightarrow> nat \<Rightarrow> version list \<Rightarrow> (version \<times> nat) option \<Rightarrow> (version \<times> nat) option" where
  "best_held orders mark [] best = best"
| "best_held orders mark (v # vs) best =
     (case orders v of
        None \<Rightarrow> best_held orders mark vs best
      | Some n \<Rightarrow>
          (if n > mark then best_held orders mark vs best
           else case best of
             None \<Rightarrow> best_held orders mark vs (Some (v, n))
           | Some (_, b) \<Rightarrow> best_held orders mark vs (if n > b then Some (v, n) else best)))"

definition heldVersion :: "versionCursor option \<Rightarrow> string \<Rightarrow> version list \<Rightarrow> version option" where
  "heldVersion cur res candidates =
     (case cur of None \<Rightarrow> None
      | Some c \<Rightarrow> map_option fst (best_held (vc_orders c res) (vc_marks c res) candidates None))"

subsection \<open>Input sets\<close>

type_synonym input_set = "(string \<times> version) list"

record everyInput =
  ei_input :: string
  ei_resource :: string

record setResolution =
  sr_sets :: "input_set list"
  sr_everyInputs :: "everyInput list"
  sr_resources :: "(string \<times> string) list"
  sr_recorded :: bool
  sr_rerun :: bool
  sr_blocking :: "string list"

record setInputs =
  si_fixed :: input_set
  si_unconsumed :: "(string \<times> version list) list"
  si_held :: "(string \<times> version) list"

definition no_inputs :: setInputs where
  "no_inputs = \<lparr>si_fixed = [], si_unconsumed = [], si_held = []\<rparr>"

definition no_resolution :: setResolution where
  "no_resolution = \<lparr>sr_sets = [], sr_everyInputs = [], sr_resources = [], sr_recorded = False, sr_rerun = False, sr_blocking = []\<rparr>"

text \<open>What one resolved get adds: a fixed binding, or one more input to fan out over.\<close>

definition gather_resolved :: "get_step \<Rightarrow> (string \<times> string) list \<Rightarrow> versionCursor option \<Rightarrow> resourceHistory
    \<Rightarrow> string \<Rightarrow> version list \<Rightarrow> setInputs \<Rightarrow> setResolution \<Rightarrow> resolve_error + setInputs \<times> setResolution" where
  "gather_resolved s pinned cur hist res vs inp r0 =
     (let r = r0\<lparr>sr_resources := put (gs_get s) res (sr_resources r0)\<rparr> in
      if fst (VersionMode s) \<noteq> ModeEvery \<or> pinned \<noteq> []
      then (if vs = [] then Inl (ResolvedToNone (gs_get s))
            else Inr (inp\<lparr>si_fixed := put (gs_get s) (last vs) (si_fixed inp)\<rparr>, r))
      else if list_ex (\<lambda>e. ei_resource e = res) (sr_everyInputs r) then Inl (SharedCursor (gs_get s) res)
      else
        (let r' = r\<lparr>sr_everyInputs := sr_everyInputs r @ [\<lparr>ei_input = gs_get s, ei_resource = res\<rparr>]\<rparr>;
             inp' = inp\<lparr>si_unconsumed := put (gs_get s) vs (si_unconsumed inp)\<rparr> in
         if vs \<noteq> [] then Inr (inp', r')
         else case heldVersion cur res (history_list hist res) of
                None \<Rightarrow> Inr (inp', r'\<lparr>sr_blocking := sr_blocking r' @ [res]\<rparr>)
              | Some h \<Rightarrow> Inr (inp'\<lparr>si_held := put (gs_get s) h (si_held inp')\<rparr>, r')))"

type_synonym resolver = "get_step \<Rightarrow> resolve_cache \<Rightarrow> (resolve_error + string \<times> version list) \<times> resolve_cache"

definition gatherOneInput :: "resolver \<Rightarrow> (string \<times> string) list \<Rightarrow> versionCursor option \<Rightarrow> resourceHistory
    \<Rightarrow> get_step \<Rightarrow> setInputs \<times> setResolution \<Rightarrow> resolve_cache
    \<Rightarrow> (resolve_error + setInputs \<times> setResolution) \<times> resolve_cache" where
  "gatherOneInput resolve pinned cur hist s ir cache =
     (case resolve s cache of
        (Inl e, cache') \<Rightarrow> (Inl e, cache')
      | (Inr (res, vs), cache') \<Rightarrow> (gather_resolved s pinned cur hist res vs (fst ir) (snd ir), cache'))"

fun gatherInputs :: "resolver \<Rightarrow> (string \<times> string) list \<Rightarrow> versionCursor option \<Rightarrow> resourceHistory
    \<Rightarrow> get_step list \<Rightarrow> setInputs \<times> setResolution \<Rightarrow> resolve_cache
    \<Rightarrow> (resolve_error + setInputs \<times> setResolution) \<times> resolve_cache" where
  "gatherInputs resolve pinned cur hist [] ir cache = (Inr ir, cache)"
| "gatherInputs resolve pinned cur hist (s # ss) ir cache =
     (if gs_get s = [] then gatherInputs resolve pinned cur hist ss ir cache
      else case gatherOneInput resolve pinned cur hist s ir cache of
             (Inl e, cache') \<Rightarrow> (Inl e, cache')
           | (Inr ir', cache') \<Rightarrow> gatherInputs resolve pinned cur hist ss ir' cache')"

definition lookup_list :: "'k \<Rightarrow> ('k \<times> 'v list) list \<Rightarrow> 'v list" where
  "lookup_list k m = (case map_of m k of None \<Rightarrow> [] | Some vs \<Rightarrow> vs)"

text \<open>A get that has nothing to hold at binds \<open>None\<close>, the nil map of the source; the blocking guard keeps
  such a set from being built.\<close>

definition every_binding :: "setInputs \<Rightarrow> nat \<Rightarrow> everyInput \<Rightarrow> version option" where
  "every_binding inp i e =
     (let vs = lookup_list (ei_input e) (si_unconsumed inp)
      in if i < length vs then Some (vs ! i)
         else if length vs > 0 then Some (vs ! (length vs - 1))
         else map_of (si_held inp) (ei_input e))"

definition assembleOneSet :: "setInputs \<Rightarrow> everyInput list \<Rightarrow> nat \<Rightarrow> input_set" where
  "assembleOneSet inp everys i =
     fold (\<lambda>e m. case every_binding inp i e of None \<Rightarrow> m | Some v \<Rightarrow> put (ei_input e) v m) everys (si_fixed inp)"

definition set_count :: "setInputs \<Rightarrow> nat" where
  "set_count inp = fold max (map (\<lambda>(k, vs). length vs) (si_unconsumed inp)) 0"

definition assembleSets :: "setInputs \<Rightarrow> setResolution \<Rightarrow> input_set list" where
  "assembleSets inp r =
     (if sr_everyInputs r = [] then [si_fixed inp]
      else if set_count inp = 0 \<or> sr_blocking r \<noteq> [] then []
      else map (assembleOneSet inp (sr_everyInputs r)) [0..<set_count inp])"

definition resolveInputSets :: "resolver \<Rightarrow> (string \<times> string) list \<Rightarrow> versionCursor option \<Rightarrow> resourceHistory
    \<Rightarrow> get_step list \<Rightarrow> resolve_cache \<Rightarrow> (resolve_error + setResolution) \<times> resolve_cache" where
  "resolveInputSets resolve pinned cur hist plan cache =
     (case gatherInputs resolve pinned cur hist plan (no_inputs, no_resolution) cache of
        (Inl e, cache') \<Rightarrow> (Inl e, cache')
      | (Inr (inp, r), cache') \<Rightarrow> (Inr (r\<lparr>sr_sets := assembleSets inp r\<rparr>), cache'))"

definition resolveJobInputs :: "(version \<Rightarrow> string \<Rightarrow> string option) \<Rightarrow> (string \<Rightarrow> string + version list)
    \<Rightarrow> res_config \<Rightarrow> job_plan \<Rightarrow> (string \<times> string) list \<Rightarrow> bool \<Rightarrow> version_db \<Rightarrow> resolve_error + setResolution" where
  "resolveJobInputs fld chk cfg job pinned reopenTaken db =
     (let cur = loadVersionCursor job (\<not> reopenTaken) db;
          hist = loadResourceHistory job db
      in fst (resolveInputSets (ResolveVersionsCached fld chk cfg (history_get hist) (cursor_has cur) pinned)
           pinned cur hist (jp_plan job) []))"

subsection \<open>One run is one build\<close>

definition oneBuild :: "nat \<Rightarrow> setResolution \<Rightarrow> setResolution \<times> nat" where
  "oneBuild index r =
     (if index \<ge> length (sr_sets r) then (r\<lparr>sr_sets := []\<rparr>, 0)
      else (r\<lparr>sr_sets := [sr_sets r ! index]\<rparr>, length (sr_sets r) - index - 1))"

type_synonym run_input = "(string \<times> string) \<times> (string \<times> version)"

definition RecordRunInput :: "string \<Rightarrow> string \<Rightarrow> string \<Rightarrow> version \<Rightarrow> run_input list \<Rightarrow> run_input list" where
  "RecordRunInput run inp res v rows =
     (if map_of rows (run, inp) \<noteq> None then rows else rows @ [((run, inp), (res, v))])"

definition RunInputs :: "string \<Rightarrow> run_input list \<Rightarrow> (string \<times> string \<times> version) list" where
  "RunInputs run rows = map (\<lambda>((r, i), (res, v)). (i, res, v)) (filter (\<lambda>((r, i), _). r = run) rows)"

definition lookup_name :: "string \<Rightarrow> (string \<times> string) list \<Rightarrow> string" where
  "lookup_name k m = (case map_of m k of None \<Rightarrow> [] | Some v \<Rightarrow> v)"

definition takeBuild :: "string \<Rightarrow> string \<Rightarrow> versionCursor option \<Rightarrow> setResolution \<Rightarrow> bool \<Rightarrow> nat
    \<Rightarrow> version_db \<times> run_input list \<Rightarrow> versionCursor option \<times> (version_db \<times> run_input list) \<times> nat option" where
  "takeBuild job run cur r pinnedRun waiting st =
     (case sr_sets r of
        [] \<Rightarrow> (cur, st, None)
      | s # _ \<Rightarrow>
          (if sr_recorded r then (cur, st, None)
           else
             (let rows = fold (\<lambda>(i, v). RecordRunInput run i (lookup_name i (sr_resources r)) v) s (snd st) in
              if pinnedRun \<or> sr_rerun r then (cur, (fst st, rows), None)
              else
                (let cd = fold (\<lambda>e cd. case map_of s (ei_input e) of
                                  None \<Rightarrow> cd | Some v \<Rightarrow> cursor_take job (ei_resource e) v cd)
                            (sr_everyInputs r) (cur, fst st)
                 in (fst cd, (snd cd, rows), if waiting > 0 then Some waiting else None)))))"

subsection \<open>Continuing a run\<close>

datatype continue_error =
    NotRecorded string
  | NoLongerHeld string string version

fun recordedInputSet :: "string \<Rightarrow> (string \<times> string \<times> version) list \<Rightarrow> resourceHistory \<Rightarrow> input_set
    \<Rightarrow> continue_error + input_set" where
  "recordedInputSet run [] hist s = Inr s"
| "recordedInputSet run ((i, res, v) # bs) hist s =
     (if \<not> history_holds hist res v then Inl (NoLongerHeld run res v)
      else recordedInputSet run bs hist (put i v s))"

text \<open>\<open>done\<close>: whether the build had completed steps.\<close>

definition resumeInputSets :: "(string \<times> bool) option \<Rightarrow> run_input list \<Rightarrow> resourceHistory \<Rightarrow> setResolution
    \<Rightarrow> continue_error + setResolution" where
  "resumeInputSets resuming rows hist r =
     (case resuming of
        None \<Rightarrow> Inr r
      | Some (run, completed) \<Rightarrow>
          (if RunInputs run rows = [] then (if completed then Inl (NotRecorded run) else Inr r)
           else case recordedInputSet run (RunInputs run rows) hist [] of
                  Inl e \<Rightarrow> Inl e
                | Inr s \<Rightarrow> Inr (r\<lparr>sr_sets := [s], sr_recorded := True\<rparr>)))"

definition rerunInputSets :: "string \<Rightarrow> run_input list \<Rightarrow> resourceHistory \<Rightarrow> setResolution
    \<Rightarrow> continue_error + setResolution" where
  "rerunInputSets orig rows hist r =
     (if orig = [] \<or> RunInputs orig rows = [] then Inr r
      else case recordedInputSet orig (RunInputs orig rows) hist [] of
             Inl e \<Rightarrow> Inl e
           | Inr s \<Rightarrow> Inr (r\<lparr>sr_sets := [s], sr_rerun := True\<rparr>))"

subsection \<open>One run's build\<close>

text \<open>From reading what the job has taken to taking this build's set, the section the cursor lock holds:
  resolve, narrow to the run's set, let a resume or a rerun put its own record in the place of it, and take.\<close>

datatype build_error = ResolveFailed resolve_error | ContinueFailed continue_error

record build_run =
  br_id :: string
  br_pinned :: "(string \<times> string) list"
  br_reopenTaken :: bool
  br_setIndex :: nat
  br_resume :: "(string \<times> bool) option"
  br_rerunOf :: string

definition startBuild :: "(version \<Rightarrow> string \<Rightarrow> string option) \<Rightarrow> (string \<Rightarrow> string + version list)
    \<Rightarrow> res_config \<Rightarrow> job_plan \<Rightarrow> build_run \<Rightarrow> version_db \<times> run_input list
    \<Rightarrow> build_error + input_set list \<times> (version_db \<times> run_input list) \<times> nat option" where
  "startBuild fld chk cfg job run st =
     (case resolveJobInputs fld chk cfg job (br_pinned run) (br_reopenTaken run) (fst st) of
        Inl e \<Rightarrow> Inl (ResolveFailed e)
      | Inr r \<Rightarrow>
          (let (r1, waiting) = oneBuild (br_setIndex run) r;
               hist = loadResourceHistory job (fst st) in
           case resumeInputSets (br_resume run) (snd st) hist r1 of
             Inl e \<Rightarrow> Inl (ContinueFailed e)
           | Inr r2 \<Rightarrow>
               (case rerunInputSets (br_rerunOf run) (snd st) hist r2 of
                  Inl e \<Rightarrow> Inl (ContinueFailed e)
                | Inr r3 \<Rightarrow>
                    (let (_, st', backlog) = takeBuild (jp_name job) (br_id run)
                           (loadVersionCursor job (\<not> br_reopenTaken run) (fst st)) r3 (br_pinned run \<noteq> []) waiting st
                     in Inr (sr_sets r3, st', backlog)))))"

end
