(* ===== verification/VersionsInv.thy ===== *)
theory VersionsInv
  imports Versions "HOL-Library.Multiset"
begin

text \<open>
  What the version history keeps: one row per version and one order per row in every resource, orders a
  check assigned never move, a report is filed whole and in its own order behind everything known, and
  reporting the same window again changes nothing.
\<close>

subsection \<open>Well-formed rows\<close>

definition vkey :: "version_row \<Rightarrow> string \<times> version" where "vkey r = (vr_res r, vr_version r)"
definition okey :: "version_row \<Rightarrow> string \<times> nat" where "okey r = (vr_res r, vr_order r)"

definition versions_wf :: "version_row list \<Rightarrow> bool" where
  "versions_wf rows = (distinct (map vkey rows) \<and> distinct (map okey rows) \<and> (\<forall>r \<in> set rows. 0 < vr_order r))"

lemma wf_vkey: "versions_wf rows \<Longrightarrow> r \<in> set rows \<Longrightarrow> s \<in> set rows \<Longrightarrow> vkey r = vkey s \<Longrightarrow> r = s"
  unfolding versions_wf_def distinct_map inj_on_def by blast

lemma wf_okey: "versions_wf rows \<Longrightarrow> r \<in> set rows \<Longrightarrow> s \<in> set rows \<Longrightarrow> okey r = okey s \<Longrightarrow> r = s"
  unfolding versions_wf_def distinct_map inj_on_def by blast

lemma wf_filter: "versions_wf rows \<Longrightarrow> versions_wf (filter P rows)"
  unfolding versions_wf_def by (simp add: distinct_map_filter)

lemma fold_max_ge: "n \<le> fold max xs (n :: nat)" "x \<in> set xs \<Longrightarrow> x \<le> fold max xs n"
proof (induction xs arbitrary: n)
  case (Cons a xs)
  { case 1 then show ?case using Cons(1) [of "max a n"] by simp }
  { case 2 then show ?case using Cons(1) [of "max a n"] Cons(2) [of "max a n"] by auto }
qed simp_all

lemma max_order_ge: "r \<in> set rows \<Longrightarrow> vr_res r = res \<Longrightarrow> vr_order r \<le> max_order res rows"
  unfolding max_order_def by (rule fold_max_ge(2)) simp

text \<open>Adding a row above every order of its resource.\<close>

lemma wf_snoc:
  assumes "versions_wf rows" "vkey r \<notin> vkey ` set rows" "0 < vr_order r"
    "\<And>s. s \<in> set rows \<Longrightarrow> vr_res s = vr_res r \<Longrightarrow> vr_order s < vr_order r"
  shows "versions_wf (rows @ [r])"
proof -
  have "okey r \<notin> okey ` set rows"
  proof
    assume "okey r \<in> okey ` set rows"
    then obtain s where "s \<in> set rows" "okey r = okey s" by blast
    then show False using assms(4) [of s] by (simp add: okey_def)
  qed
  with assms(1-3) show ?thesis unfolding versions_wf_def by simp
qed

subsection \<open>Filing one version\<close>

definition minted :: "string \<Rightarrow> version \<times> nat \<Rightarrow> version_row" where
  "minted res vo = \<lparr>vr_res = res, vr_version = fst vo, vr_order = snd vo, vr_from_check = True\<rparr>"

lemma minted_sel [simp]:
  "vr_res (minted res vo) = res" "vr_version (minted res vo) = fst vo" "vr_order (minted res vo) = snd vo"
  "vr_from_check (minted res vo)" "vkey (minted res vo) = (res, fst vo)" "okey (minted res vo) = (res, snd vo)"
  by (simp_all add: minted_def vkey_def okey_def)

lemma upsert_split:
  assumes "versions_wf rows" "\<not> checked res rows v"
  obtains (new) "upsert res (v, n) rows = rows @ [minted res (v, n)]" "(res, v) \<notin> vkey ` set rows"
  | (remint) us r vs where "rows = us @ r # vs" "vkey r = (res, v)" "\<not> vr_from_check r"
      "upsert res (v, n) rows = us @ minted res (v, n) # vs"
proof (cases "list_ex (\<lambda>r. vr_res r = res \<and> vr_version r = v) rows")
  case False
  then have "(res, v) \<notin> vkey ` set rows" unfolding list_ex_iff vkey_def by auto
  with False show ?thesis by (intro new) (simp_all add: upsert_def minted_def)
next
  case True
  then obtain r where r: "r \<in> set rows" "vr_res r = res" "vr_version r = v" unfolding list_ex_iff by blast
  then obtain us vs where rows: "rows = us @ r # vs" by (metis split_list)
  have uc: "\<not> vr_from_check r" using assms(2) r unfolding checked_def list_ex_iff by blast
  have d: "distinct (map vkey (us @ r # vs))" using assms(1) rows by (simp add: versions_wf_def)
  let ?f = "\<lambda>x. if vr_res x = res \<and> vr_version x = v then x\<lparr>vr_order := n, vr_from_check := True\<rparr> else x"
  have "?f x = x" if "x \<in> set us \<union> set vs" for x
  proof -
    have "vkey x \<noteq> vkey r" using d that by (auto simp: image_iff)
    then show ?thesis using r(2,3) by (auto simp: vkey_def)
  qed
  then have "map ?f us = us" "map ?f vs = vs" by (simp_all add: map_idI)
  moreover have "?f r = minted res (v, n)" using r(2,3) by (cases r) (simp add: minted_def)
  ultimately have "upsert res (v, n) rows = us @ minted res (v, n) # vs"
    using True unfolding upsert_def fst_conv snd_conv by (simp only: rows if_True map_append list.map)
  then show ?thesis using remint rows r(2,3) uc by (simp add: vkey_def)
qed

lemma upsert_wf:
  assumes wf: "versions_wf rows" and uc: "\<not> checked res rows v" and pos: "0 < n"
    and above: "\<And>s. s \<in> set rows \<Longrightarrow> vr_res s = res \<Longrightarrow> vr_order s < n"
  shows "versions_wf (upsert res (v, n) rows)"
proof (rule upsert_split [OF wf uc, of n])
  assume "upsert res (v, n) rows = rows @ [minted res (v, n)]" "(res, v) \<notin> vkey ` set rows"
  then show ?thesis
    using wf_snoc [OF wf, of "minted res (v, n)"] above pos by simp
next
  fix us r vs
  assume rows: "rows = us @ r # vs" and r: "vkey r = (res, v)" and up: "upsert res (v, n) rows = us @ minted res (v, n) # vs"
  have keys: "map vkey (us @ minted res (v, n) # vs) = map vkey rows"
    using r by (simp add: rows)
  have new: "(res, n) \<notin> okey ` set rows"
  proof
    assume "(res, n) \<in> okey ` set rows"
    then obtain s where "s \<in> set rows" "okey s = (res, n)" by (metis imageE)
    then show False using above [of s] by (simp add: okey_def)
  qed
  have "distinct (map okey (us @ r # vs))" using wf by (simp add: versions_wf_def rows)
  then have "distinct (map okey (us @ minted res (v, n) # vs))"
    using new by (simp add: rows image_Un)
  moreover have "\<forall>s \<in> set (us @ minted res (v, n) # vs). 0 < vr_order s"
    using wf pos by (simp add: versions_wf_def rows)
  moreover have "distinct (map vkey (us @ minted res (v, n) # vs))"
    unfolding keys using wf by (simp add: versions_wf_def)
  ultimately show ?thesis unfolding up versions_wf_def by blast
qed

text \<open>The rows after a filing: the new row, and the others' as they were.\<close>

lemma set_upsert:
  assumes "versions_wf rows" "\<not> checked res rows v"
  shows "set (upsert res (v, n) rows) = insert (minted res (v, n)) {s \<in> set rows. vkey s \<noteq> (res, v)}"
proof (rule upsert_split [OF assms, of n])
  assume up: "upsert res (v, n) rows = rows @ [minted res (v, n)]" and new: "(res, v) \<notin> vkey ` set rows"
  have "vkey s \<noteq> (res, v)" if "s \<in> set rows" for s
    using new that by (metis imageI)
  then show ?thesis unfolding up by auto
next
  fix us r vs
  assume rows: "rows = us @ r # vs" "vkey r = (res, v)" "upsert res (v, n) rows = us @ minted res (v, n) # vs"
  have "distinct (map vkey (us @ r # vs))" using assms(1) rows(1) by (simp add: versions_wf_def)
  then have "vkey s \<noteq> (res, v)" if "s \<in> set us \<union> set vs" for s
    using rows(2) that by (metis Un_iff distinct.simps(2) distinct_append image_eqI list.simps(9) map_append not_distinct_conv_prefix
        set_map disjoint_iff list.set_intros(1))
  then show ?thesis unfolding rows(3) unfolding rows(1) using rows(2) by auto
qed

lemma upsert_above:
  assumes "versions_wf rows" "\<not> checked res rows v"
    and "\<And>s. s \<in> set rows \<Longrightarrow> vr_res s = res \<Longrightarrow> vr_order s \<le> m" "m < n"
    and "s \<in> set (upsert res (v, n) rows)" "vr_res s = res"
  shows "vr_order s \<le> n"
proof (cases "s = minted res (v, n)")
  case False
  then have "s \<in> set rows" using assms(5) unfolding set_upsert [OF assms(1,2)] by blast
  then show ?thesis using assms(3) [of s] assms(4,6) by simp
qed simp

lemma upsert_checked:
  assumes "versions_wf rows" "\<not> checked res rows v" "w \<noteq> v"
  shows "checked res (upsert res (v, n) rows) w = checked res rows w"
  using assms(3) unfolding checked_def list_ex_iff set_upsert [OF assms(1,2)] by (auto simp: vkey_def)

subsection \<open>Filing a report\<close>

lemma sort_key_add_max:
  assumes "mset xs' = add_mset x (mset xs)" "\<And>y. y \<in> set xs \<Longrightarrow> f y < f x" "distinct (map f xs)"
  shows "sort_key f xs' = sort_key f xs @ [x]"
proof (rule properties_for_sort_key)
  show "mset (sort_key f xs @ [x]) = mset xs'" using assms(1) by simp
  have "f x \<notin> f ` set xs" using assms(2) by (metis imageE less_irrefl)
  then have dx: "distinct (f x # map f xs)" using assms(3) by simp
  have "set xs' = insert x (set xs)" using arg_cong [OF assms(1), of set_mset] by simp
  moreover have d': "distinct (map f xs')"
  proof -
    have "mset (map f xs') = mset (f x # map f xs)" using assms(1) by simp
    with dx show ?thesis by (metis mset_eq_imp_distinct_iff)
  qed
  have single: "distinct (map f ys) \<Longrightarrow> k \<in> set ys \<Longrightarrow> filter (\<lambda>y. f k = f y) ys = [k]" for k ys
    by (induction ys) (auto simp: filter_empty_conv image_iff)
  have d: "distinct (map f (sort_key f xs @ [x]))"
  proof -
    have "mset (map f (sort_key f xs @ [x])) = mset (f x # map f xs)" by simp
    with dx show ?thesis by (metis mset_eq_imp_distinct_iff)
  qed
  show "filter (\<lambda>y. f k = f y) (sort_key f xs @ [x]) = filter (\<lambda>y. f k = f y) xs'" if "k \<in> set (sort_key f xs @ [x])" for k
    using single [OF d that] single [OF d', of k] that \<open>set xs' = _\<close> by simp
  show "sorted (map f (sort_key f xs @ [x]))"
    using assms(2) by (auto simp: sorted_append less_imp_le)
qed

definition history_rows :: "string \<Rightarrow> version_row list \<Rightarrow> version_row list" where
  "history_rows res rows = sort_key vr_order (filter (\<lambda>r. vr_res r = res \<and> vr_from_check r) rows)"

lemma ResourceVersions_rows: "ResourceVersionsJSON res db = map vr_version (history_rows res (vd_rows db))"
  by (simp add: ResourceVersionsJSON_def history_rows_def)

lemma wf_orders_distinct:
  assumes "versions_wf rows"
  shows "distinct (map vr_order (filter (\<lambda>r. vr_res r = res \<and> P r) rows))"
proof -
  have "distinct (map okey (filter (\<lambda>r. vr_res r = res \<and> P r) rows))"
    using assms by (simp add: versions_wf_def distinct_map_filter)
  then show ?thesis by (auto simp: distinct_map inj_on_def okey_def)
qed

lemma history_upsert:
  assumes wf: "versions_wf rows" and uc: "\<not> checked res rows v"
    and above: "\<And>s. s \<in> set rows \<Longrightarrow> vr_res s = res \<Longrightarrow> vr_order s < n"
  shows "history_rows res (upsert res (v, n) rows) = history_rows res rows @ [minted res (v, n)]"
  unfolding history_rows_def
proof (rule sort_key_add_max)
  show "mset (filter (\<lambda>r. vr_res r = res \<and> vr_from_check r) (upsert res (v, n) rows))
      = add_mset (minted res (v, n)) (mset (filter (\<lambda>r. vr_res r = res \<and> vr_from_check r) rows))"
    by (rule upsert_split [OF wf uc, of n]) auto
  show "vr_order y < vr_order (minted res (v, n))" if "y \<in> set (filter (\<lambda>r. vr_res r = res \<and> vr_from_check r) rows)" for y
    using that above by simp
qed (rule wf_orders_distinct [OF wf])

lemma map_fst_numbered [simp]: "map fst (numbered m vs) = vs"
  by (induction m vs rule: numbered.induct) simp_all

lemma file_report:
  assumes "versions_wf rows" "distinct vs" "\<And>v. v \<in> set vs \<Longrightarrow> \<not> checked res rows v"
    "\<And>s. s \<in> set rows \<Longrightarrow> vr_res s = res \<Longrightarrow> vr_order s \<le> m"
  shows "versions_wf (fold (upsert res) (numbered m vs) rows)
    \<and> history_rows res (fold (upsert res) (numbered m vs) rows) = history_rows res rows @ map (minted res) (numbered m vs)
    \<and> set (fold (upsert res) (numbered m vs) rows)
        = minted res ` set (numbered m vs) \<union> {s \<in> set rows. vkey s \<notin> Pair res ` set vs}"
  using assms
proof (induction vs arbitrary: rows m)
  case Nil
  then show ?case by simp
next
  case (Cons v vs)
  let ?rows = "upsert res (v, Suc m) rows"
  have uc: "\<not> checked res rows v" and v: "v \<notin> set vs" and d: "distinct vs" using Cons.prems by simp_all
  have above: "\<And>s. s \<in> set rows \<Longrightarrow> vr_res s = res \<Longrightarrow> vr_order s < Suc m" using Cons.prems(4) by (simp add: less_Suc_eq_le)
  have wf: "versions_wf ?rows" by (rule upsert_wf [OF Cons.prems(1) uc _ above]) simp_all
  have uc': "\<not> checked res ?rows w" if "w \<in> set vs" for w
    using upsert_checked [OF Cons.prems(1) uc, of w] Cons.prems(3) [of w] that v by auto
  have le: "vr_order s \<le> Suc m" if "s \<in> set ?rows" "vr_res s = res" for s
    using upsert_above [OF Cons.prems(1) uc Cons.prems(4) lessI that] .
  note IH = Cons.IH [OF wf d uc' le]
  have "{s \<in> set ?rows. vkey s \<notin> Pair res ` set vs}
      = insert (minted res (v, Suc m)) {s \<in> set rows. vkey s \<notin> Pair res ` set (v # vs)}"
    unfolding set_upsert [OF Cons.prems(1) uc] using v by auto
  then have "minted res ` set (numbered (Suc m) vs) \<union> {s \<in> set ?rows. vkey s \<notin> Pair res ` set vs}
      = minted res ` set (numbered m (v # vs)) \<union> {s \<in> set rows. vkey s \<notin> Pair res ` set (v # vs)}"
    by simp
  moreover have "history_rows res ?rows @ map (minted res) (numbered (Suc m) vs)
      = history_rows res rows @ map (minted res) (numbered m (v # vs))"
    using history_upsert [OF Cons.prems(1) uc above] by simp
  ultimately show ?case using IH by (simp only: numbered.simps fold_simps)
qed

lemma first_occurrences_distinct [simp]: "distinct (first_occurrences xs)"
  by (induction xs) auto

lemma set_first_occurrences [simp]: "set (first_occurrences xs) = set xs"
  by (induction xs) auto

text \<open>The rows an insert leaves.\<close>

lemma insertNewVersions_rows:
  fixes res :: string and vs :: "version list" and rows :: "version_row list"
  assumes "versions_wf rows"
  defines "fresh \<equiv> fresh_versions res rows vs"
  shows "insertNewVersions res vs rows = (length fresh, snd (insertNewVersions res vs rows))"
    "versions_wf (snd (insertNewVersions res vs rows))"
    "history_rows res (snd (insertNewVersions res vs rows))
       = history_rows res rows @ map (minted res) (numbered (max_order res rows) fresh)"
    "set (snd (insertNewVersions res vs rows))
       = minted res ` set (numbered (max_order res rows) fresh) \<union> {s \<in> set rows. vkey s \<notin> Pair res ` set fresh}"
proof -
  have d: "distinct fresh" and uc: "\<And>v. v \<in> set fresh \<Longrightarrow> \<not> checked res rows v"
    by (simp_all add: fresh_def fresh_versions_def)
  have rows': "snd (insertNewVersions res vs rows) = fold (upsert res) (numbered (max_order res rows) fresh) rows"
    by (simp add: insertNewVersions_def Let_def fresh_def)
  show "insertNewVersions res vs rows = (length fresh, snd (insertNewVersions res vs rows))"
    by (simp add: insertNewVersions_def Let_def fresh_def)
  note all = file_report [OF assms(1) d uc max_order_ge]
  show "versions_wf (snd (insertNewVersions res vs rows))"
    "history_rows res (snd (insertNewVersions res vs rows))
       = history_rows res rows @ map (minted res) (numbered (max_order res rows) fresh)"
    "set (snd (insertNewVersions res vs rows))
       = minted res ` set (numbered (max_order res rows) fresh) \<union> {s \<in> set rows. vkey s \<notin> Pair res ` set fresh}"
    unfolding rows' using all by simp_all
qed

subsection \<open>Pruning\<close>

lemma fold_min_le: "fold min ns (n :: nat) \<le> n \<and> (\<forall>x \<in> set ns. fold min ns n \<le> x)"
proof (induction ns arbitrary: n)
  case Nil
  then show ?case by simp
next
  case (Cons a ns)
  have "fold min ns (min a n) \<le> min a n" "\<forall>x \<in> set ns. fold min ns (min a n) \<le> x"
    using Cons.IH [of "min a n"] by blast+
  then show ?case by simp
qed

lemma report_floor_le:
  assumes "r \<in> set rows" "vr_res r = res" "vr_version r \<in> set vs"
  shows "report_floor res vs rows \<le> vr_order r"
proof -
  let ?os = "map vr_order (filter (\<lambda>r. vr_res r = res \<and> vr_version r \<in> set vs) rows)"
  have "vr_order r \<in> set ?os" using assms by simp
  then show ?thesis
    unfolding report_floor_def using fold_min_le by (cases ?os) (auto split: list.split)
qed

lemma reported_not_pruned: "r \<in> set rows \<Longrightarrow> vr_version r \<in> set vs \<Longrightarrow> \<not> pruned res n vs rows r"
  unfolding pruned_def using report_floor_le [of r rows res vs] by auto

lemma prune_rows [simp]: "vd_rows (pruneVersions res n vs db) = filter (\<lambda>r. \<not> pruned res n vs (vd_rows db) r) (vd_rows db)"
  by (simp add: pruneVersions_def Let_def)

lemma history_filter:
  "history_rows res (filter P rows) = filter P (history_rows res rows)"
  unfolding history_rows_def filter_sort by (simp add: filter_filter conj_commute)

definition kept_by :: "string \<Rightarrow> int \<Rightarrow> version list \<Rightarrow> version_row list \<Rightarrow> version_row \<Rightarrow> bool" where
  "kept_by res limit vs rows r =
     (limit = 0 \<or> \<not> pruned res (if limit < 0 then DefaultResourceVersionCap else nat limit) vs rows r)"

lemma RecordVersions_rows:
  assumes "vs \<noteq> []"
  shows "vd_rows (snd (RecordVersions res vs limit db)) =
      filter (kept_by res limit vs (snd (insertNewVersions res vs (vd_rows db)))) (snd (insertNewVersions res vs (vd_rows db)))"
    "fst (RecordVersions res vs limit db) = length (fresh_versions res (vd_rows db) vs)"
  using assms
  by (auto simp: RecordVersions_def Let_def kept_by_def [abs_def] DefaultResourceVersionCap_def insertNewVersions_def
      split: prod.split)

lemma RecordVersions_Nil [simp]: "RecordVersions res [] limit db = (0, db)"
  by (simp add: RecordVersions_def)

lemma fresh_or_checked:
  assumes "versions_wf rows" "v \<in> set vs"
  shows "checked res (snd (insertNewVersions res vs rows)) v"
proof -
  note rows' = insertNewVersions_rows(4) [OF assms(1), of res vs]
  show ?thesis
  proof (cases "v \<in> set (fresh_versions res rows vs)")
    case True
    then have "v \<in> fst ` set (numbered (max_order res rows) (fresh_versions res rows vs))"
      by (metis map_fst_numbered set_map)
    then obtain n where "(v, n) \<in> set (numbered (max_order res rows) (fresh_versions res rows vs))" by auto
    then have "minted res (v, n) \<in> set (snd (insertNewVersions res vs rows))" unfolding rows' by blast
    then show ?thesis unfolding checked_def list_ex_iff by (intro bexI [of _ "minted res (v, n)"]) simp_all
  next
    case False
    then obtain r where r: "r \<in> set rows" "vr_res r = res" "vr_version r = v" "vr_from_check r"
      using assms(2) unfolding fresh_versions_def checked_def list_ex_iff by auto
    then have "r \<in> set (snd (insertNewVersions res vs rows))" unfolding rows' using False by (auto simp: vkey_def)
    then show ?thesis using r unfolding checked_def list_ex_iff by blast
  qed
qed

lemma checked_history: "v \<in> vr_version ` set (history_rows res rows) \<longleftrightarrow> checked res rows v"
  unfolding history_rows_def checked_def list_ex_iff set_sort by auto

subsection \<open>Steps\<close>

text \<open>The foreign key: a green record names a version of the history.\<close>

definition passes_ok :: "version_db \<Rightarrow> bool" where
  "passes_ok db = (\<forall>p \<in> set (vd_passes db). (pr_res p, pr_version p) \<in> vkey ` set (vd_rows db))"

definition pass_keys_ok :: "version_db \<Rightarrow> bool" where
  "pass_keys_ok db = distinct (map (\<lambda>p. (pr_job p, pr_res p, pr_version p)) (vd_passes db))"

definition vdb_ok :: "version_db \<Rightarrow> bool" where
  "vdb_ok db = (versions_wf (vd_rows db) \<and> passes_ok db \<and> pass_keys_ok db)"

lemma insert_keeps_keys:
  assumes "versions_wf rows"
  shows "vkey ` set rows \<subseteq> vkey ` set (snd (insertNewVersions res vs rows))"
proof
  fix k
  assume "k \<in> vkey ` set rows"
  then obtain r where r: "r \<in> set rows" "k = vkey r" by blast
  note rows' = insertNewVersions_rows(4) [OF assms, of res vs]
  show "k \<in> vkey ` set (snd (insertNewVersions res vs rows))"
  proof (cases "vkey r \<in> Pair res ` set (fresh_versions res rows vs)")
    case True
    then obtain v where v: "vkey r = (res, v)" "v \<in> set (fresh_versions res rows vs)" by blast
    then have "v \<in> fst ` set (numbered (max_order res rows) (fresh_versions res rows vs))"
      by (metis map_fst_numbered set_map)
    then obtain n where "(v, n) \<in> set (numbered (max_order res rows) (fresh_versions res rows vs))" by auto
    then have "minted res (v, n) \<in> set (snd (insertNewVersions res vs rows))" unfolding rows' by blast
    then show ?thesis using v(1) r(2) by (intro image_eqI [of _ _ "minted res (v, n)"]) simp_all
  next
    case False
    then have "r \<in> set (snd (insertNewVersions res vs rows))" unfolding rows' using r(1) by blast
    then show ?thesis using r(2) by blast
  qed
qed

lemma prune_ok:
  assumes "vdb_ok db"
  shows "vdb_ok (pruneVersions res n vs db)"
proof -
  have "passes_ok (pruneVersions res n vs db)"
    unfolding passes_ok_def
  proof
    fix p
    assume "p \<in> set (vd_passes (pruneVersions res n vs db))"
    then have p: "p \<in> set (vd_passes db)"
      and kept: "\<And>r. r \<in> set (vd_rows db) \<Longrightarrow> pruned res n vs (vd_rows db) r \<Longrightarrow> \<not> (vr_res r = pr_res p \<and> vr_version r = pr_version p)"
      unfolding pruneVersions_def Let_def by (auto simp: list_ex_iff)
    obtain r where r: "r \<in> set (vd_rows db)" "(pr_res p, pr_version p) = vkey r"
      using assms p unfolding vdb_ok_def passes_ok_def by blast
    then have "\<not> pruned res n vs (vd_rows db) r" using kept [of r] by (auto simp: vkey_def)
    then show "(pr_res p, pr_version p) \<in> vkey ` set (vd_rows (pruneVersions res n vs db))" using r by simp
  qed
  moreover have "pass_keys_ok (pruneVersions res n vs db)"
    using assms by (simp add: vdb_ok_def pass_keys_ok_def pruneVersions_def Let_def distinct_map_filter)
  ultimately show ?thesis using assms wf_filter by (simp add: vdb_ok_def)
qed

lemma RecordVersions_ok:
  assumes "vdb_ok db"
  shows "vdb_ok (snd (RecordVersions res vs limit db))"
proof -
  let ?db1 = "db\<lparr>vd_rows := snd (insertNewVersions res vs (vd_rows db))\<rparr>"
  have wf: "versions_wf (vd_rows db)" using assms by (simp add: vdb_ok_def)
  have "vdb_ok ?db1"
    using assms insertNewVersions_rows(2) [OF wf] insert_keeps_keys [OF wf, of res vs]
    by (auto simp: vdb_ok_def passes_ok_def pass_keys_ok_def)
  then show ?thesis
    using assms prune_ok by (auto simp: RecordVersions_def Let_def split: prod.split)
qed

lemma ensureVersion_ok:
  assumes "vdb_ok db"
  shows "vdb_ok (ensureVersion res v db) \<and> (res, v) \<in> vkey ` set (vd_rows (ensureVersion res v db))
    \<and> vd_passes (ensureVersion res v db) = vd_passes db"
proof (cases "list_ex (\<lambda>r. vr_res r = res \<and> vr_version r = v) (vd_rows db)")
  case True
  then show ?thesis using assms by (auto simp: ensureVersion_def list_ex_iff vkey_def image_iff)
next
  case False
  let ?r = "\<lparr>vr_res = res, vr_version = v, vr_order = max_order res (vd_rows db) + 1, vr_from_check = False\<rparr>"
  have "versions_wf (vd_rows db @ [?r])"
  proof (rule wf_snoc)
    show "versions_wf (vd_rows db)" using assms by (simp add: vdb_ok_def)
    show "vkey ?r \<notin> vkey ` set (vd_rows db)" using False unfolding list_ex_iff by (auto simp: vkey_def)
    show "vr_order s < vr_order ?r" if "s \<in> set (vd_rows db)" "vr_res s = vr_res ?r" for s
      using max_order_ge [OF that(1), of res] that(2) by simp
  qed simp
  then show ?thesis using assms False by (auto simp: ensureVersion_def vdb_ok_def passes_ok_def pass_keys_ok_def vkey_def)
qed

lemma RecordPassedVersion_ok:
  assumes "vdb_ok db"
  shows "vdb_ok (RecordPassedVersion p db)"
proof -
  let ?db1 = "ensureVersion (pr_res p) (pr_version p) db"
  let ?same = "\<lambda>q. pr_job q = pr_job p \<and> pr_res q = pr_res p \<and> pr_version q = pr_version p"
  have ok: "vdb_ok ?db1" "(pr_res p, pr_version p) \<in> vkey ` set (vd_rows ?db1)"
    using ensureVersion_ok [OF assms] by simp_all
  let ?key = "\<lambda>p. (pr_job p, pr_res p, pr_version p)"
  show ?thesis
  proof (cases "list_ex ?same (vd_passes ?db1)")
    case True
    have keys: "map ?key (map (\<lambda>q. if ?same q then q\<lparr>pr_build := pr_build p\<rparr> else q) (vd_passes ?db1)) = map ?key (vd_passes ?db1)"
      by simp
    show ?thesis
      using ok True keys by (auto simp: RecordPassedVersion_def Let_def vdb_ok_def passes_ok_def pass_keys_ok_def simp del: map_map)
  next
    case False
    then have "?key p \<notin> ?key ` set (vd_passes ?db1)" unfolding list_ex_iff by auto
    then show ?thesis
      using ok False by (auto simp: RecordPassedVersion_def Let_def vdb_ok_def passes_ok_def pass_keys_ok_def)
  qed
qed

inductive version_step :: "version_db \<Rightarrow> version_db \<Rightarrow> bool" where
  report: "version_step db (snd (RecordVersions res vs limit db))"
| note_order: "version_step db (snd (RecordVersionOrder res v db))"
| passed: "version_step db (RecordPassedVersions ps db)"
| mark: "version_step db (RecordConsumedMark j res n db)"

lemma RecordPassedVersions_ok: "vdb_ok db \<Longrightarrow> vdb_ok (RecordPassedVersions ps db)"
  unfolding RecordPassedVersions_def by (induction ps arbitrary: db) (simp_all add: RecordPassedVersion_ok)

lemma version_step_ok: "version_step db db' \<Longrightarrow> vdb_ok db \<Longrightarrow> vdb_ok db'"
proof (induction rule: version_step.induct)
  case note_order
  then show ?case using ensureVersion_ok by (simp add: RecordVersionOrder_def Let_def)
next
  case mark
  then show ?case by (simp add: RecordConsumedMark_def vdb_ok_def passes_ok_def pass_keys_ok_def)
qed (simp_all add: RecordVersions_ok RecordPassedVersions_ok)

definition versions_init :: "version_db \<Rightarrow> bool" where
  "versions_init db = (vd_rows db = [] \<and> vd_passes db = [])"

interpretation versions: invariant_system versions_init version_step vdb_ok
proof
  show "vdb_ok db" if "versions_init db" for db
    using that by (simp add: versions_init_def vdb_ok_def versions_wf_def passes_ok_def pass_keys_ok_def)
qed (rule version_step_ok)

subsection \<open>What the steps promise\<close>

text \<open>C23: In every reachable history each version of a resource has one row and each discovery order one
  version, orders start at one, and every green record names a version that is still in the history and
  is the only record of its job, resource and version.\<close>

theorem versions_reachable_well_formed:
  assumes "versions_init db0" "version_step\<^sup>*\<^sup>* db0 db"
  shows "distinct (map (\<lambda>r. (vr_res r, vr_version r)) (vd_rows db))
    \<and> distinct (map (\<lambda>r. (vr_res r, vr_order r)) (vd_rows db))
    \<and> (\<forall>r \<in> set (vd_rows db). 0 < vr_order r)
    \<and> (\<forall>p \<in> set (vd_passes db). \<exists>r \<in> set (vd_rows db). vr_res r = pr_res p \<and> vr_version r = pr_version p)
    \<and> distinct (map (\<lambda>p. (pr_job p, pr_res p, pr_version p)) (vd_passes db))"
proof (intro conjI)
  have ok: "vdb_ok db" using versions.reachable_inv [OF assms] .
  then show "distinct (map (\<lambda>r. (vr_res r, vr_version r)) (vd_rows db))"
    "distinct (map (\<lambda>r. (vr_res r, vr_order r)) (vd_rows db))" "\<forall>r \<in> set (vd_rows db). 0 < vr_order r"
    "distinct (map (\<lambda>p. (pr_job p, pr_res p, pr_version p)) (vd_passes db))"
    by (simp_all add: vdb_ok_def versions_wf_def vkey_def [abs_def] okey_def [abs_def] pass_keys_ok_def)
  show "\<forall>p \<in> set (vd_passes db). \<exists>r \<in> set (vd_rows db). vr_res r = pr_res p \<and> vr_version r = pr_version p"
  proof
    fix p
    assume "p \<in> set (vd_passes db)"
    then have "(pr_res p, pr_version p) \<in> vkey ` set (vd_rows db)" using ok unfolding vdb_ok_def passes_ok_def by blast
    then obtain r where "r \<in> set (vd_rows db)" "(pr_res p, pr_version p) = vkey r" by blast
    then show "\<exists>r \<in> set (vd_rows db). vr_res r = pr_res p \<and> vr_version r = pr_version p"
      by (intro bexI [of _ r]) (simp_all add: vkey_def)
  qed
qed

definition no_versions :: version_db where
  "no_versions = \<lparr>vd_rows = [], vd_passes = [], vd_marks = []\<rparr>"

definition two_reported :: version_db where
  "two_reported = snd (RecordVersions ''repo'' [''v1'', ''v2''] 1 no_versions)"

lemma versions_reachable_well_formed_witness:
  "version_step\<^sup>*\<^sup>* no_versions (RecordPassedVersions [\<lparr>pr_job = ''test'', pr_res = ''repo'', pr_version = ''v9'', pr_build = ''b''\<rparr>] two_reported)
   \<and> distinct (map (\<lambda>r. (vr_res r, vr_version r))
       (vd_rows (RecordPassedVersions [\<lparr>pr_job = ''test'', pr_res = ''repo'', pr_version = ''v9'', pr_build = ''b''\<rparr>] two_reported)))"
proof -
  have init: "versions_init no_versions" by (simp add: versions_init_def no_versions_def)
  have steps: "version_step\<^sup>*\<^sup>* no_versions (RecordPassedVersions [\<lparr>pr_job = ''test'', pr_res = ''repo'', pr_version = ''v9'', pr_build = ''b''\<rparr>] two_reported)"
    unfolding two_reported_def
    by (rule rtranclp.rtrancl_into_rtrancl [where b = "snd (RecordVersions ''repo'' [''v1'', ''v2''] 1 no_versions)"])
      (rule r_into_rtranclp version_step.report version_step.passed)+
  show ?thesis using steps versions_reachable_well_formed [OF init steps] by blast
qed

lemma kept_history:
  assumes "vdb_ok db" "vs \<noteq> []"
  shows "\<exists>K. ResourceVersionsJSON res (snd (RecordVersions res vs limit db))
      = filter K (ResourceVersionsJSON res db @ fresh_versions res (vd_rows db) vs)
    \<and> (\<forall>v \<in> set vs. K v) \<and> (limit = 0 \<longrightarrow> (\<forall>v. K v))"
proof -
  let ?fresh = "fresh_versions res (vd_rows db) vs"
  let ?rows1 = "snd (insertNewVersions res vs (vd_rows db))"
  have wf: "versions_wf (vd_rows db)" using assms(1) by (simp add: vdb_ok_def)
  note ins = insertNewVersions_rows [OF wf, of res vs]
  let ?H = "history_rows res ?rows1"
  define K where "K v = (limit = 0 \<or> (\<forall>r \<in> set ?H. vr_version r = v \<longrightarrow> kept_by res limit vs ?rows1 r))" for v
  have H: "map vr_version ?H = ResourceVersionsJSON res db @ ?fresh"
    unfolding ins(3) ResourceVersions_rows map_append map_map by (simp add: comp_def)
  have inH: "r \<in> set ?rows1 \<and> vr_res r = res" if "r \<in> set ?H" for r
    using that by (simp add: history_rows_def)
  have K: "K (vr_version r) = kept_by res limit vs ?rows1 r" if "r \<in> set ?H" for r
  proof -
    have "s = r" if "s \<in> set ?H" "vr_version s = vr_version r" for s
      using wf_vkey [OF ins(2), of s r] inH [OF that(1)] inH [OF \<open>r \<in> set ?H\<close>] that(2) by (simp add: vkey_def)
    then have "(\<forall>s \<in> set ?H. vr_version s = vr_version r \<longrightarrow> kept_by res limit vs ?rows1 s) = kept_by res limit vs ?rows1 r"
      using \<open>r \<in> set ?H\<close> by blast
    then show ?thesis unfolding K_def by (auto simp: kept_by_def)
  qed
  have "ResourceVersionsJSON res (snd (RecordVersions res vs limit db)) = map vr_version (filter (kept_by res limit vs ?rows1) ?H)"
    unfolding ResourceVersions_rows RecordVersions_rows(1) [OF assms(2)] history_filter by (rule refl)
  also have "\<dots> = map vr_version (filter (K \<circ> vr_version) ?H)"
    using K by (intro arg_cong [of _ _ "map vr_version"] filter_cong) simp_all
  also have "\<dots> = filter K (ResourceVersionsJSON res db @ ?fresh)"
    unfolding H [symmetric] filter_map by (rule refl)
  finally have "ResourceVersionsJSON res (snd (RecordVersions res vs limit db)) = filter K (ResourceVersionsJSON res db @ ?fresh)" .
  moreover have "K v" if "v \<in> set vs" for v
    using reported_not_pruned inH that unfolding K_def kept_by_def by blast
  moreover have "limit = 0 \<longrightarrow> (\<forall>v. K v)" by (simp add: K_def)
  ultimately show ?thesis by blast
qed

text \<open>C19: After a check is recorded the history is what it was with the newly seen versions behind it in
  report order, less what the cap pruned; every version the check reported is in it whatever the cap, the
  count answered is the number of versions new to it, and with no cap nothing is lost.\<close>

theorem report_joins_history:
  fixes db :: version_db and vs :: "version list" and res :: string and limit :: int
  assumes "vdb_ok db" "vs \<noteq> []"
  defines "fresh \<equiv> filter (\<lambda>v. v \<notin> set (ResourceVersionsJSON res db)) (first_occurrences vs)"
  shows "fst (RecordVersions res vs limit db) = length fresh
    \<and> (\<exists>K. ResourceVersionsJSON res (snd (RecordVersions res vs limit db)) = filter K (ResourceVersionsJSON res db @ fresh)
          \<and> (\<forall>v \<in> set vs. K v) \<and> (limit = 0 \<longrightarrow> (\<forall>v. K v)))
    \<and> set vs \<subseteq> set (ResourceVersionsJSON res (snd (RecordVersions res vs limit db)))"
proof (intro conjI)
  have fresh: "fresh = fresh_versions res (vd_rows db) vs"
    unfolding fresh_def fresh_versions_def ResourceVersions_rows by (simp add: checked_history)
  show "fst (RecordVersions res vs limit db) = length fresh"
    unfolding fresh by (rule RecordVersions_rows(2) [OF assms(2)])
  show ex: "\<exists>K. ResourceVersionsJSON res (snd (RecordVersions res vs limit db)) = filter K (ResourceVersionsJSON res db @ fresh)
          \<and> (\<forall>v \<in> set vs. K v) \<and> (limit = 0 \<longrightarrow> (\<forall>v. K v))"
    unfolding fresh by (rule kept_history [OF assms(1,2)])
  show "set vs \<subseteq> set (ResourceVersionsJSON res (snd (RecordVersions res vs limit db)))"
    using ex by (auto simp: fresh_def)
qed

lemma no_versions_ok: "vdb_ok no_versions"
  by (simp add: vdb_ok_def versions_wf_def passes_ok_def pass_keys_ok_def no_versions_def)

lemma report_joins_history_witness:
  "fst (RecordVersions ''repo'' [''v1'', ''v2'', ''v1''] 1 no_versions) = 2
   \<and> ResourceVersionsJSON ''repo'' (snd (RecordVersions ''repo'' [''v1'', ''v2'', ''v1''] 1 no_versions)) = [''v1'', ''v2'']"
proof -
  have new: "filter (\<lambda>v. v \<notin> set (ResourceVersionsJSON ''repo'' no_versions)) (first_occurrences [''v1'', ''v2'', ''v1'']) = [''v1'', ''v2'']"
    "ResourceVersionsJSON ''repo'' no_versions = []"
    by (simp_all add: ResourceVersionsJSON_def no_versions_def)
  note all = report_joins_history [OF no_versions_ok, of "[''v1'', ''v2'', ''v1'']" "''repo''" 1, unfolded new, simplified]
  show ?thesis using all by auto
qed

subsection \<open>A steady poll\<close>

lemma take_filter_covered:
  assumes "\<And>x. x \<in> set (take n xs) \<Longrightarrow> P x"
  shows "take n (filter P xs) = take n xs"
proof -
  have "filter P xs = filter P (take n xs) @ filter P (drop n xs)"
    by (metis append_take_drop_id filter_append)
  also have "filter P (take n xs) = take n xs" using assms by (simp add: filter_id_conv)
  finally show ?thesis by simp (cases "n \<le> length xs"; simp)
qed

lemma newest_filter:
  assumes "\<And>r. r \<in> set rows \<Longrightarrow> vr_res r = res \<Longrightarrow> Q r = P (vr_order r)"
    and "\<And>x. x \<in> set (newest_orders res n rows) \<Longrightarrow> P x"
  shows "newest_orders res n (filter Q rows) = newest_orders res n rows"
proof -
  have "map vr_order (filter (\<lambda>r. vr_res r = res) (filter Q rows)) = filter P (map vr_order (filter (\<lambda>r. vr_res r = res) rows))"
    unfolding filter_map filter_filter using assms(1)
    by (intro arg_cong [of _ _ "map vr_order"] filter_cong) auto
  then have "newest_orders res n (filter Q rows)
      = take n (filter P (rev (sort (map vr_order (filter (\<lambda>r. vr_res r = res) rows)))))"
    unfolding newest_orders_def by (simp add: filter_sort [of P "\<lambda>x. x", symmetric] rev_filter [symmetric])
  also have "\<dots> = newest_orders res n rows"
    using assms(2) unfolding newest_orders_def by (intro take_filter_covered) blast
  finally show ?thesis .
qed

lemma floor_filter:
  assumes "\<And>r. r \<in> set rows \<Longrightarrow> vr_res r = res \<Longrightarrow> vr_version r \<in> set vs \<Longrightarrow> Q r"
  shows "report_floor res vs (filter Q rows) = report_floor res vs rows"
proof -
  have "filter (\<lambda>r. vr_res r = res \<and> vr_version r \<in> set vs) (filter Q rows)
      = filter (\<lambda>r. vr_res r = res \<and> vr_version r \<in> set vs) rows"
    unfolding filter_filter using assms by (intro filter_cong) auto
  then show ?thesis unfolding report_floor_def by simp
qed

lemma prune_twice:
  "pruned res n vs (filter (\<lambda>r. \<not> pruned res n vs rows r) rows) s = pruned res n vs rows s"
proof -
  let ?P = "\<lambda>x. \<not> (x < report_floor res vs rows \<and> x \<notin> set (newest_orders res n rows))"
  have new: "newest_orders res n (filter (\<lambda>r. \<not> pruned res n vs rows r) rows) = newest_orders res n rows"
    by (rule newest_filter [where P = ?P]) (auto simp: pruned_def)
  have "report_floor res vs (filter (\<lambda>r. \<not> pruned res n vs rows r) rows) = report_floor res vs rows"
    by (rule floor_filter) (rule reported_not_pruned)
  with new show ?thesis unfolding pruned_def by simp
qed

lemma known_report:
  assumes "\<forall>v \<in> set vs. checked res rows v"
  shows "insertNewVersions res vs rows = (0, rows)"
  using assms by (auto simp: insertNewVersions_def fresh_versions_def filter_empty_conv)

lemma prune_nothing:
  assumes "\<And>r. r \<in> set (vd_rows db) \<Longrightarrow> \<not> pruned res n vs (vd_rows db) r"
  shows "pruneVersions res n vs db = db"
proof -
  have "filter (pruned res n vs (vd_rows db)) (vd_rows db) = []" using assms by (simp add: filter_empty_conv)
  moreover have "filter (\<lambda>r. \<not> pruned res n vs (vd_rows db) r) (vd_rows db) = vd_rows db" using assms by (simp add: filter_id_conv)
  ultimately show ?thesis by (simp add: pruneVersions_def Let_def)
qed

lemma reported_checked:
  assumes "vdb_ok db" "v \<in> set vs"
  shows "checked res (vd_rows (snd (RecordVersions res vs limit db))) v"
proof -
  have ne: "vs \<noteq> []" using assms(2) by auto
  obtain K where K: "ResourceVersionsJSON res (snd (RecordVersions res vs limit db))
      = filter K (ResourceVersionsJSON res db @ fresh_versions res (vd_rows db) vs)" "\<forall>v \<in> set vs. K v"
    using kept_history [OF assms(1) ne] by blast
  have "v \<in> set (ResourceVersionsJSON res db @ fresh_versions res (vd_rows db) vs)"
    using assms(2) by (cases "checked res (vd_rows db) v")
      (simp_all add: ResourceVersions_rows checked_history fresh_versions_def)
  then have "v \<in> set (ResourceVersionsJSON res (snd (RecordVersions res vs limit db)))"
    unfolding K(1) using K(2) assms(2) by simp
  then show ?thesis by (simp add: ResourceVersions_rows checked_history)
qed

text \<open>C20: Polling again with nothing new changes nothing: a report filed twice in a row, under any cap,
  finds no new version the second time and leaves every row, order and green record as the first left them.\<close>

theorem steady_poll_changes_nothing:
  assumes "vdb_ok db"
  shows "RecordVersions res vs limit (snd (RecordVersions res vs limit db)) = (0, snd (RecordVersions res vs limit db))"
proof (cases "vs = []")
  case False
  let ?db' = "snd (RecordVersions res vs limit db)"
  let ?n = "if limit < 0 then DefaultResourceVersionCap else nat limit"
  have ins: "insertNewVersions res vs (vd_rows ?db') = (0, vd_rows ?db')"
    by (rule known_report) (simp add: reported_checked [OF assms])
  have "pruneVersions res ?n vs ?db' = ?db'" if "?n > 0"
  proof (rule prune_nothing)
    fix r
    assume r: "r \<in> set (vd_rows ?db')"
    let ?rows1 = "snd (insertNewVersions res vs (vd_rows db))"
    have "vd_rows ?db' = filter (\<lambda>r. \<not> pruned res ?n vs ?rows1 r) ?rows1"
      using that False by (simp add: RecordVersions_def Let_def case_prod_beta)
    with r show "\<not> pruned res ?n vs (vd_rows ?db') r" by (simp only: prune_twice set_filter) simp
  qed
  then show ?thesis using ins False by (subst RecordVersions_def) (auto simp: Let_def)
qed simp

lemma steady_poll_changes_nothing_witness:
  "RecordVersions ''repo'' [''v1'', ''v2''] 1 two_reported = (0, two_reported)"
  unfolding two_reported_def by (rule steady_poll_changes_nothing [OF no_versions_ok])

text \<open>C21: A version a check has filed keeps its place: no operation changes the order, or the origin, of a
  row a check filed, as long as the row is there.\<close>

theorem checked_orders_never_move:
  assumes "vdb_ok db" "version_step db db'"
    and "r \<in> set (vd_rows db)" "vr_from_check r"
    and "s \<in> set (vd_rows db')" "vr_res s = vr_res r" "vr_version s = vr_version r"
  shows "s = r"
proof -
  have wf: "versions_wf (vd_rows db)" using assms(1) by (simp add: vdb_ok_def)
  have wf': "versions_wf (vd_rows db')" using version_step_ok [OF assms(2,1)] by (simp add: vdb_ok_def)
  have same: "s = r" if "s \<in> set (vd_rows db)"
    using wf_vkey [OF wf that assms(3)] assms(6,7) by (simp add: vkey_def)
  have ens: "s = r" if "s \<in> set (vd_rows (ensureVersion res v db))" for res v
  proof (cases "s \<in> set (vd_rows db)")
    case False
    then have "\<not> list_ex (\<lambda>r. vr_res r = res \<and> vr_version r = v) (vd_rows db)" "vr_res s = res" "vr_version s = v"
      using that by (auto simp: ensureVersion_def split: if_splits)
    then show ?thesis using assms(3,6,7) unfolding list_ex_iff by auto
  qed (rule same)
  from assms(2) show ?thesis
  proof cases
    case (report res vs limit)
    show ?thesis
    proof (cases "vs = []")
      case True
      then show ?thesis using report same assms(5) by simp
    next
      case False
      have "s \<in> set (snd (insertNewVersions res vs (vd_rows db)))"
        using assms(5) unfolding report RecordVersions_rows(1) [OF False] by simp
      then consider (minted) vo where "s = minted res vo" "vo \<in> set (numbered (max_order res (vd_rows db)) (fresh_versions res (vd_rows db) vs))"
        | (old) "s \<in> set (vd_rows db)"
        unfolding insertNewVersions_rows(4) [OF wf] by blast
      then show ?thesis
      proof cases
        case minted
        then have "vr_version s \<in> fst ` set (numbered (max_order res (vd_rows db)) (fresh_versions res (vd_rows db) vs))" "vr_res s = res"
          by simp_all
        then have "vr_version r \<in> set (fresh_versions res (vd_rows db) vs)" "vr_res r = res"
          using assms(6,7) by (metis map_fst_numbered set_map, metis)
        then have "\<not> checked res (vd_rows db) (vr_version r)" by (simp add: fresh_versions_def)
        then show ?thesis using assms(3,4) \<open>vr_res r = res\<close> unfolding checked_def list_ex_iff by blast
      qed (rule same)
    qed
  next
    case (note_order res v)
    then show ?thesis using ens assms(5) by (simp add: RecordVersionOrder_def Let_def)
  next
    case (passed ps)
    have "r \<in> set (vd_rows (fold RecordPassedVersion ps d)) \<and>
      (\<forall>s \<in> set (vd_rows (fold RecordPassedVersion ps d)). vkey s = vkey r \<longrightarrow> s = r)" if "vdb_ok d" "r \<in> set (vd_rows d)" for d
      using that
    proof (induction ps arbitrary: d)
      case Nil
      then show ?case using wf_vkey unfolding vdb_ok_def by fastforce
    next
      case (Cons p ps)
      have "vd_rows (RecordPassedVersion p d) = vd_rows (ensureVersion (pr_res p) (pr_version p) d)"
        by (simp add: RecordPassedVersion_def Let_def)
      then have "r \<in> set (vd_rows (RecordPassedVersion p d))"
        using Cons.prems(2) by (simp add: ensureVersion_def)
      then show ?case using Cons.IH [OF RecordPassedVersion_ok [OF Cons.prems(1)]] by simp
    qed
    from this [OF assms(1,3)] show ?thesis
      using assms(5-7) unfolding passed RecordPassedVersions_def vkey_def by simp
  next
    case (mark j res n)
    then show ?thesis using same assms(5) by (simp add: RecordConsumedMark_def split: if_splits)
  qed
qed

lemma checked_orders_never_move_witness:
  "vd_rows (snd (RecordVersions ''repo'' [''v0''] 0 two_reported)) ! 0
   = \<lparr>vr_res = ''repo'', vr_version = ''v1'', vr_order = 1, vr_from_check = True\<rparr>"
proof -
  let ?r = "\<lparr>vr_res = ''repo'', vr_version = ''v1'', vr_order = 1, vr_from_check = True\<rparr>"
  let ?db' = "snd (RecordVersions ''repo'' [''v0''] 0 two_reported)"
  have ok: "vdb_ok two_reported" unfolding two_reported_def by (rule RecordVersions_ok [OF no_versions_ok])
  have r: "?r \<in> set (vd_rows two_reported)" by code_simp
  have "length (vd_rows ?db') = 3" "vr_res (vd_rows ?db' ! 0) = ''repo''" "vr_version (vd_rows ?db' ! 0) = ''v1''"
    by code_simp+
  then show ?thesis
    by (intro checked_orders_never_move [OF ok version_step.report [of _ "''repo''" "[''v0'']" 0] r]) (simp_all add: nth_mem)
qed

subsection \<open>The passed gate\<close>



end
