(* ===== verification/InputSetsInv.thy ===== *)
theory InputSetsInv
  imports InputSets VersionsInv
begin

text \<open>
  What the input sets of a run are: the memo of resolution never changes an answer, the sets pair the
  unconsumed versions of every fanning get in lockstep, and one run taking one set leaves exactly the
  rest of the fan-out for the runs behind it.
\<close>

subsection \<open>The memo\<close>

lemma put_fresh: "k \<notin> fst ` set m \<Longrightarrow> put k v m = m @ [(k, v)]"
  by (induction k v m rule: put.induct) auto

lemma map_of_put [simp]: "map_of (put k v m) = (map_of m)(k \<mapsto> v)"
  by (induction k v m rule: put.induct) (auto simp: fun_eq_iff)

lemma fresh_entry_key:
  assumes "cacheKey s = cacheKey t"
  shows "fresh_entry fld chk cfg supplied consumed pinned s = fresh_entry fld chk cfg supplied consumed pinned t"
proof -
  have eq: "gs_get s = gs_get t" "GetResourceName s = GetResourceName t" "gs_version s = gs_version t" "gs_passed s = gs_passed t"
    using assms by (simp_all add: cacheKey_def)
  have mode: "VersionMode s = VersionMode t" by (simp add: VersionMode_def VersionEvery_def eq)
  have "ResolveVersions fld chk cfg s pinned supplied = ResolveVersions fld chk cfg t pinned supplied"
    unfolding ResolveVersions_def versionsFor_def mode eq by (rule refl)
  moreover have "unconsumed consumed s pinned res vs = unconsumed consumed t pinned res vs" for res vs
    unfolding unconsumed_def mode by (rule refl)
  ultimately show ?thesis unfolding fresh_entry_def eq by (simp split: sum.split prod.split)
qed

definition cache_ok :: "(get_step \<Rightarrow> cache_entry) \<Rightarrow> resolve_cache \<Rightarrow> bool" where
  "cache_ok f cache = (\<forall>s. map_of cache (cacheKey s) \<noteq> None \<longrightarrow> map_of cache (cacheKey s) = Some (f s))"

lemma cached_answer:
  assumes "cache_ok (fresh_entry fld chk cfg supplied consumed pinned) cache"
  shows "fst (ResolveVersionsCached fld chk cfg supplied consumed pinned s cache) = ce_answer (fresh_entry fld chk cfg supplied consumed pinned s)
    \<and> cache_ok (fresh_entry fld chk cfg supplied consumed pinned) (snd (ResolveVersionsCached fld chk cfg supplied consumed pinned s cache))"
proof (cases "map_of cache (cacheKey s)")
  case None
  have "cache_ok (fresh_entry fld chk cfg supplied consumed pinned) (put (cacheKey s) (fresh_entry fld chk cfg supplied consumed pinned s) cache)"
    using assms fresh_entry_key unfolding cache_ok_def map_of_put fun_upd_apply by (metis option.distinct(1))
  with None show ?thesis by (simp add: ResolveVersionsCached_def Let_def)
next
  case (Some e)
  then have "e = fresh_entry fld chk cfg supplied consumed pinned s" using assms unfolding cache_ok_def by (metis option.distinct(1) option.inject)
  with Some assms show ?thesis by (simp add: ResolveVersionsCached_def)
qed

lemma gather_uncached:
  assumes "cache_ok (fresh_entry fld chk cfg supplied consumed pinned) cache"
  shows "fst (gatherInputs (ResolveVersionsCached fld chk cfg supplied consumed pinned) pn cur hist plan ir cache)
    = fst (gatherInputs (\<lambda>s c. (ce_answer (fresh_entry fld chk cfg supplied consumed pinned s), c)) pn cur hist plan ir [])"
  using assms
proof (induction plan arbitrary: ir cache)
  case (Cons s ss)
  let ?R = "ResolveVersionsCached fld chk cfg supplied consumed pinned"
  have ok: "cache_ok (fresh_entry fld chk cfg supplied consumed pinned) (snd (?R s cache))"
    and ans: "fst (?R s cache) = ce_answer (fresh_entry fld chk cfg supplied consumed pinned s)"
    using cached_answer [OF Cons.prems, of s] by simp_all
  obtain a c where a: "?R s cache = (a, c)" by fastforce
  show ?case
    using Cons.IH [OF Cons.prems] Cons.IH [OF ok] ans unfolding a
    by (auto simp: gatherOneInput_def a split: sum.split prod.split)
qed simp


subsection \<open>What gathering leaves\<close>

text \<open>The inputs and the resolution after a list of gets that all resolved, read off the list.\<close>

type_synonym answer = "resolve_error + string \<times> version list"

definition res_of :: "(get_step \<Rightarrow> answer) \<Rightarrow> get_step \<Rightarrow> string" where
  "res_of R s = (case R s of Inl e \<Rightarrow> [] | Inr (res, vs) \<Rightarrow> res)"

definition vers_of :: "(get_step \<Rightarrow> answer) \<Rightarrow> get_step \<Rightarrow> version list" where
  "vers_of R s = (case R s of Inl e \<Rightarrow> [] | Inr (res, vs) \<Rightarrow> vs)"

definition fans :: "(string \<times> string) list \<Rightarrow> get_step \<Rightarrow> bool" where
  "fans pn s = (fst (VersionMode s) = ModeEvery \<and> pn = [])"

definition held_of :: "(get_step \<Rightarrow> answer) \<Rightarrow> versionCursor option \<Rightarrow> resourceHistory \<Rightarrow> get_step \<Rightarrow> version option" where
  "held_of R cur hist s = heldVersion cur (res_of R s) (history_list hist (res_of R s))"

definition gathered :: "(get_step \<Rightarrow> answer) \<Rightarrow> (string \<times> string) list \<Rightarrow> versionCursor option \<Rightarrow> resourceHistory
    \<Rightarrow> get_step list \<Rightarrow> setInputs \<times> setResolution" where
  "gathered R pn cur hist gs =
     (\<lparr>si_fixed = map (\<lambda>s. (gs_get s, last (vers_of R s))) (filter (\<lambda>s. \<not> fans pn s) gs),
       si_unconsumed = map (\<lambda>s. (gs_get s, vers_of R s)) (filter (fans pn) gs),
       si_held = concat (map (\<lambda>s. case held_of R cur hist s of None \<Rightarrow> [] | Some h \<Rightarrow> [(gs_get s, h)])
                   (filter (\<lambda>s. fans pn s \<and> vers_of R s = []) gs))\<rparr>,
      \<lparr>sr_sets = [],
       sr_everyInputs = map (\<lambda>s. \<lparr>ei_input = gs_get s, ei_resource = res_of R s\<rparr>) (filter (fans pn) gs),
       sr_resources = map (\<lambda>s. (gs_get s, res_of R s)) gs,
       sr_recorded = False, sr_rerun = False,
       sr_blocking = map (res_of R) (filter (\<lambda>s. fans pn s \<and> vers_of R s = [] \<and> held_of R cur hist s = None) gs)\<rparr>)"

definition resolves :: "(get_step \<Rightarrow> answer) \<Rightarrow> (string \<times> string) list \<Rightarrow> get_step list \<Rightarrow> get_step \<Rightarrow> bool" where
  "resolves R pn before s = (\<exists>res vs. R s = Inr (res, vs) \<and> (\<not> fans pn s \<longrightarrow> vs \<noteq> [])
     \<and> (fans pn s \<longrightarrow> res \<notin> res_of R ` set (filter (fans pn) before)))"

lemma gather_one:
  assumes "gs_get s \<notin> gs_get ` set gs" "R s = Inr (res, vs)"
  shows "gather_resolved s pn cur hist res vs (fst (gathered R pn cur hist gs)) (snd (gathered R pn cur hist gs))
      = (if resolves R pn gs s then Inr (gathered R pn cur hist (gs @ [s]))
         else if fans pn s then Inl (SharedCursor (gs_get s) res) else Inl (ResolvedToNone (gs_get s)))"
proof -
  have R: "res_of R s = res" "vers_of R s = vs" using assms(2) by (simp_all add: res_of_def vers_of_def)
  have put1: "put (gs_get s) w (map (\<lambda>s. (gs_get s, f s)) (filter P gs)) = map (\<lambda>s. (gs_get s, f s)) (filter P gs) @ [(gs_get s, w)]" for P f w
    by (rule put_fresh) (use assms(1) in auto)
  have put2: "put (gs_get s) w (map (\<lambda>s. (gs_get s, f s)) gs) = map (\<lambda>s. (gs_get s, f s)) gs @ [(gs_get s, w)]" for f w
    by (rule put_fresh) (use assms(1) in auto)
  have put3: "put (gs_get s) w (si_held (fst (gathered R pn cur hist gs))) = si_held (fst (gathered R pn cur hist gs)) @ [(gs_get s, w)]" for w
    by (rule put_fresh) (use assms(1) in \<open>auto simp: gathered_def split: option.splits\<close>)
  have ex: "list_ex (\<lambda>e. ei_resource e = res) (sr_everyInputs (snd (gathered R pn cur hist gs)))
      \<longleftrightarrow> res \<in> res_of R ` set (filter (fans pn) gs)"
    by (auto simp: gathered_def list_ex_iff)
  show ?thesis
  proof (cases "fans pn s")
    case False
    then have "fst (VersionMode s) \<noteq> ModeEvery \<or> pn \<noteq> []" by (simp add: fans_def)
    with False show ?thesis
      using assms(2) R by (auto simp: gather_resolved_def resolves_def gathered_def put1 put2)
  next
    case True
    then have m: "fst (VersionMode s) = ModeEvery" "pn = []" by (simp_all add: fans_def)
    show ?thesis
    proof (cases "res \<in> res_of R ` set (filter (fans pn) gs)")
      case True
      then show ?thesis using m ex \<open>fans pn s\<close> assms(2) by (auto simp: gather_resolved_def Let_def resolves_def)
    next
      case False
      then have "resolves R pn gs s" using assms(2) \<open>fans pn s\<close> by (simp add: resolves_def)
      moreover have "\<not> list_ex (\<lambda>e. ei_resource e = res) (sr_everyInputs (snd (gathered R pn cur hist gs)))"
        using False ex by simp
      ultimately show ?thesis
        using m \<open>fans pn s\<close> put3 R
        by (cases vs; cases "heldVersion cur res (history_list hist res)")
          (simp_all add: gather_resolved_def Let_def held_of_def gathered_def put1 put2)
    qed
  qed
qed

definition gets_of :: "get_step list \<Rightarrow> get_step list" where
  "gets_of plan = filter (\<lambda>s. gs_get s \<noteq> []) plan"

fun all_resolve :: "(get_step \<Rightarrow> answer) \<Rightarrow> (string \<times> string) list \<Rightarrow> get_step list \<Rightarrow> get_step list \<Rightarrow> bool" where
  "all_resolve R pn before [] = True"
| "all_resolve R pn before (s # ss) = (resolves R pn before s \<and> all_resolve R pn (before @ [s]) ss)"

lemma gather_from:
  assumes "distinct (map gs_get (gs @ gets_of plan))"
  shows "(\<exists>ir. fst (gatherInputs (\<lambda>s c. (R s, c)) pn cur hist plan (gathered R pn cur hist gs) []) = Inr ir) = all_resolve R pn gs (gets_of plan)
    \<and> (all_resolve R pn gs (gets_of plan) \<longrightarrow>
        fst (gatherInputs (\<lambda>s c. (R s, c)) pn cur hist plan (gathered R pn cur hist gs) []) = Inr (gathered R pn cur hist (gs @ gets_of plan)))"
  using assms
proof (induction plan arbitrary: gs)
  case Nil
  then show ?case by (simp add: gets_of_def)
next
  case (Cons s ss)
  show ?case
  proof (cases "gs_get s = []")
    case True
    then show ?thesis using Cons.IH [of gs] Cons.prems by (simp add: gets_of_def)
  next
    case False
    have gets: "gets_of (s # ss) = s # gets_of ss" using False by (simp add: gets_of_def)
    have fresh: "gs_get s \<notin> gs_get ` set gs" and d: "distinct (map gs_get ((gs @ [s]) @ gets_of ss))"
      using Cons.prems unfolding gets by auto
    show ?thesis
    proof (cases "R s")
      case (Inl e)
      then show ?thesis using False by (simp add: gets gatherOneInput_def resolves_def)
    next
      case (Inr a)
      then obtain res vs where a: "R s = Inr (res, vs)" by (cases a) simp
      note one = gather_one [where R = R, OF fresh a, of pn cur hist]
      show ?thesis
      proof (cases "resolves R pn gs s")
        case True
        then show ?thesis using Cons.IH [OF d] False a one by (simp add: gets gatherOneInput_def)
      next
        case no: False
        then show ?thesis using False a one by (simp add: gets gatherOneInput_def)
      qed
    qed
  qed
qed

lemma gathered_Nil [simp]: "gathered R pn cur hist [] = (no_inputs, no_resolution)"
  by (simp add: gathered_def no_inputs_def no_resolution_def)

lemma all_resolve_iff:
  "all_resolve R pn gs ss \<longleftrightarrow> (\<forall>s \<in> set ss. \<exists>res vs. R s = Inr (res, vs) \<and> (\<not> fans pn s \<longrightarrow> vs \<noteq> []))
    \<and> distinct (map (res_of R) (filter (fans pn) ss))
    \<and> res_of R ` set (filter (fans pn) gs) \<inter> res_of R ` set (filter (fans pn) ss) = {}"
proof (induction ss arbitrary: gs)
  case (Cons s ss)
  have res: "R s = Inr (res, vs) \<Longrightarrow> res_of R s = res" for res vs by (simp add: res_of_def)
  show ?case
    unfolding all_resolve.simps Cons.IH resolves_def
    using res by (cases "fans pn s") (auto; blast)+
qed simp

subsection \<open>The sets\<close>

definition binding :: "(get_step \<Rightarrow> answer) \<Rightarrow> versionCursor option \<Rightarrow> resourceHistory \<Rightarrow> nat \<Rightarrow> get_step \<Rightarrow> version option" where
  "binding R cur hist i s =
     (let vs = vers_of R s in
      if i < length vs then Some (vs ! i) else if vs \<noteq> [] then Some (last vs) else held_of R cur hist s)"

lemma map_of_gets:
  assumes "distinct (map gs_get gs)" "s \<in> set gs" "P s"
  shows "map_of (map (\<lambda>s. (gs_get s, f s)) (filter P gs)) (gs_get s) = Some (f s)"
proof (rule map_of_is_SomeI)
  show "distinct (map fst (map (\<lambda>s. (gs_get s, f s)) (filter P gs)))"
    using assms(1) by (simp add: comp_def distinct_map_filter)
qed (use assms(2,3) in auto)

lemma map_of_held:
  assumes "distinct (map gs_get gs)" "s \<in> set gs" "P s"
  shows "map_of (concat (map (\<lambda>s. case f s of None \<Rightarrow> [] | Some h \<Rightarrow> [(gs_get s, h)]) (filter P gs))) (gs_get s) = f s"
  using assms
proof (induction gs)
  case (Cons t gs)
  show ?case
  proof (cases "s = t")
    case True
    have "gs_get t \<notin> gs_get ` set gs" using Cons.prems(1) by simp
    then have none: "map_of (concat (map (\<lambda>s. case f s of None \<Rightarrow> [] | Some h \<Rightarrow> [(gs_get s, h)]) (filter P gs))) (gs_get t) = None"
      unfolding map_of_eq_None_iff by (auto split: option.splits)
    then show ?thesis using True Cons.prems(3) by (cases "f t") (simp_all add: none)
  next
    case False
    then have "s \<in> set gs" "gs_get s \<noteq> gs_get t" using Cons.prems by (auto simp: image_iff)
    then show ?thesis using Cons by (cases "P t"; cases "f t") simp_all
  qed
qed simp

lemma every_binding_gathered:
  assumes "distinct (map gs_get gs)" "s \<in> set gs" "fans pn s"
  shows "every_binding (fst (gathered R pn cur hist gs)) i \<lparr>ei_input = gs_get s, ei_resource = res_of R s\<rparr>
    = binding R cur hist i s"
proof -
  have "map_of (map (\<lambda>s. (gs_get s, vers_of R s)) (filter (fans pn) gs)) (gs_get s) = Some (vers_of R s)"
    by (rule map_of_gets [where P = "fans pn", OF assms])
  moreover have "map_of (concat (map (\<lambda>s. case held_of R cur hist s of None \<Rightarrow> [] | Some h \<Rightarrow> [(gs_get s, h)])
      (filter (\<lambda>s. fans pn s \<and> vers_of R s = []) gs))) (gs_get s) = held_of R cur hist s" if "vers_of R s = []"
    using map_of_held [where P = "\<lambda>s. fans pn s \<and> vers_of R s = []", OF assms(1,2)] assms(3) that by blast
  ultimately show ?thesis
    by (auto simp: every_binding_def lookup_list_def gathered_def binding_def Let_def last_conv_nth)
qed

lemma assemble_from:
  assumes "distinct (map ei_input es)" "\<forall>e \<in> set es. ei_input e \<notin> fst ` set m" "\<forall>e \<in> set es. b e \<noteq> None"
  shows "fold (\<lambda>e m. case b e of None \<Rightarrow> m | Some v \<Rightarrow> put (ei_input e) v m) es m = m @ map (\<lambda>e. (ei_input e, the (b e))) es"
  using assms
proof (induction es arbitrary: m)
  case (Cons e es)
  obtain v where v: "b e = Some v" using Cons.prems(3) by auto
  have put: "put (ei_input e) v m = m @ [(ei_input e, v)]" using Cons.prems(2) by (intro put_fresh) simp
  have "\<forall>e' \<in> set es. ei_input e' \<notin> fst ` set (m @ [(ei_input e, v)])"
    using Cons.prems(1,2) by (auto simp: image_iff)
  then have "fold (\<lambda>e m. case b e of None \<Rightarrow> m | Some v \<Rightarrow> put (ei_input e) v m) es (m @ [(ei_input e, v)])
      = (m @ [(ei_input e, v)]) @ map (\<lambda>e. (ei_input e, the (b e))) es"
    using Cons.prems(1,3) by (intro Cons.IH) simp_all
  then show ?case by (simp only: fold_simps v put option.case list.map option.sel append_assoc append.simps)
qed simp

definition the_set :: "(get_step \<Rightarrow> answer) \<Rightarrow> (string \<times> string) list \<Rightarrow> versionCursor option \<Rightarrow> resourceHistory
    \<Rightarrow> get_step list \<Rightarrow> nat \<Rightarrow> input_set" where
  "the_set R pn cur hist gs i =
     map (\<lambda>s. (gs_get s, last (vers_of R s))) (filter (\<lambda>s. \<not> fans pn s) gs)
     @ map (\<lambda>s. (gs_get s, the (binding R cur hist i s))) (filter (fans pn) gs)"

lemma assembleOneSet_gathered:
  assumes "distinct (map gs_get gs)" "\<forall>s \<in> set gs. fans pn s \<longrightarrow> binding R cur hist i s \<noteq> None"
  shows "assembleOneSet (fst (gathered R pn cur hist gs)) (sr_everyInputs (snd (gathered R pn cur hist gs))) i
    = the_set R pn cur hist gs i"
proof -
  let ?inp = "fst (gathered R pn cur hist gs)"
  let ?es = "map (\<lambda>s. \<lparr>ei_input = gs_get s, ei_resource = res_of R s\<rparr>) (filter (fans pn) gs)"
  have es: "sr_everyInputs (snd (gathered R pn cur hist gs)) = ?es" by (simp add: gathered_def)
  have fixed: "si_fixed ?inp = map (\<lambda>s. (gs_get s, last (vers_of R s))) (filter (\<lambda>s. \<not> fans pn s) gs)"
    by (simp add: gathered_def)
  have b: "every_binding ?inp i \<lparr>ei_input = gs_get s, ei_resource = res_of R s\<rparr> = binding R cur hist i s"
    if "s \<in> set (filter (fans pn) gs)" for s
    using every_binding_gathered [OF assms(1), of s] that by simp
  have "distinct (map ei_input ?es)" using assms(1) by (simp add: comp_def distinct_map_filter)
  moreover have "\<forall>e \<in> set ?es. ei_input e \<notin> fst ` set (si_fixed ?inp)"
  proof -
    have "gs_get s \<noteq> gs_get t" if "s \<in> set gs" "t \<in> set gs" "fans pn s" "\<not> fans pn t" for s t
      using assms(1) that by (auto simp: distinct_map inj_on_def)
    then show ?thesis unfolding fixed by force
  qed
  moreover have "\<forall>e \<in> set ?es. every_binding ?inp i e \<noteq> None"
    using assms(2) b by auto
  ultimately have "assembleOneSet ?inp ?es i = si_fixed ?inp @ map (\<lambda>e. (ei_input e, the (every_binding ?inp i e))) ?es"
    unfolding assembleOneSet_def by (rule assemble_from)
  moreover have "map (\<lambda>e. (ei_input e, the (every_binding ?inp i e))) ?es = map (\<lambda>s. (gs_get s, the (binding R cur hist i s))) (filter (fans pn) gs)"
    using b by simp
  ultimately show ?thesis unfolding es fixed the_set_def by (simp only:)
qed

definition widest :: "(get_step \<Rightarrow> answer) \<Rightarrow> (string \<times> string) list \<Rightarrow> get_step list \<Rightarrow> nat" where
  "widest R pn gs = fold max (map (length \<circ> vers_of R) (filter (fans pn) gs)) 0"

lemma set_count_gathered: "set_count (fst (gathered R pn cur hist gs)) = widest R pn gs"
  by (simp add: set_count_def gathered_def widest_def comp_def)

definition blocked :: "(get_step \<Rightarrow> answer) \<Rightarrow> (string \<times> string) list \<Rightarrow> versionCursor option \<Rightarrow> resourceHistory
    \<Rightarrow> get_step list \<Rightarrow> bool" where
  "blocked R pn cur hist gs = (\<exists>s \<in> set gs. fans pn s \<and> vers_of R s = [] \<and> held_of R cur hist s = None)"

definition sets_of :: "(get_step \<Rightarrow> answer) \<Rightarrow> (string \<times> string) list \<Rightarrow> versionCursor option \<Rightarrow> resourceHistory
    \<Rightarrow> get_step list \<Rightarrow> input_set list" where
  "sets_of R pn cur hist gs =
     (if filter (fans pn) gs = [] then [the_set R pn cur hist gs 0]
      else if blocked R pn cur hist gs then []
      else map (the_set R pn cur hist gs) [0..<widest R pn gs])"

lemma assembleSets_gathered:
  assumes "distinct (map gs_get gs)"
  shows "assembleSets (fst (gathered R pn cur hist gs)) (snd (gathered R pn cur hist gs)) = sets_of R pn cur hist gs"
proof (cases "filter (fans pn) gs = []")
  case True
  then show ?thesis
    unfolding assembleSets_def sets_of_def by (simp add: gathered_def the_set_def)
next
  case False
  have block: "sr_blocking (snd (gathered R pn cur hist gs)) = [] \<longleftrightarrow> \<not> blocked R pn cur hist gs"
    by (auto simp: gathered_def blocked_def filter_empty_conv)
  have every: "sr_everyInputs (snd (gathered R pn cur hist gs)) \<noteq> []"
    using False by (simp add: gathered_def)
  have "assembleOneSet (fst (gathered R pn cur hist gs)) (sr_everyInputs (snd (gathered R pn cur hist gs))) i
      = the_set R pn cur hist gs i" if "\<not> blocked R pn cur hist gs" for i
    using that by (intro assembleOneSet_gathered [OF assms]) (auto simp: blocked_def binding_def Let_def)
  then show ?thesis
    using False every block unfolding assembleSets_def sets_of_def set_count_gathered by auto
qed

lemma fans_every [simp]: "fans [] s = VersionEvery s"
  by (auto simp: fans_def VersionMode_def split: version_field.split)

definition answers :: "(version \<Rightarrow> string \<Rightarrow> string option) \<Rightarrow> (string \<Rightarrow> string + version list) \<Rightarrow> res_config \<Rightarrow> job_plan
    \<Rightarrow> (string \<times> string) list \<Rightarrow> bool \<Rightarrow> version_db \<Rightarrow> get_step \<Rightarrow> answer" where
  "answers fld chk cfg job pn reopen db s =
     ce_answer (fresh_entry fld chk cfg (history_get (loadResourceHistory job db))
       (cursor_has (loadVersionCursor job (\<not> reopen) db)) pn s)"

lemma resolve_char:
  fixes fld :: "version \<Rightarrow> string \<Rightarrow> string option" and chk :: "string \<Rightarrow> string + version list" and cfg :: res_config
    and job :: job_plan and pn :: "(string \<times> string) list" and reopen :: bool and db :: version_db
  assumes "distinct (map gs_get (gets_of (jp_plan job)))"
  defines "R \<equiv> answers fld chk cfg job pn reopen db"
    and "cur \<equiv> loadVersionCursor job (\<not> reopen) db" and "hist \<equiv> loadResourceHistory job db"
  shows "resolveJobInputs fld chk cfg job pn reopen db = Inr r \<longleftrightarrow>
    all_resolve R pn [] (gets_of (jp_plan job))
    \<and> r = (snd (gathered R pn cur hist (gets_of (jp_plan job))))\<lparr>sr_sets := sets_of R pn cur hist (gets_of (jp_plan job))\<rparr>"
proof -
  let ?gs = "gets_of (jp_plan job)"
  let ?C = "ResolveVersionsCached fld chk cfg (history_get hist) (cursor_has cur) pn"
  let ?P = "\<lambda>s c. (R s, c) :: answer \<times> resolve_cache"
  have "cache_ok (fresh_entry fld chk cfg (history_get hist) (cursor_has cur) pn) []" by (simp add: cache_ok_def)
  note un = gather_uncached [OF this, of pn cur hist "jp_plan job" "(no_inputs, no_resolution)"]
  have eq: "fst (gatherInputs ?C pn cur hist (jp_plan job) (no_inputs, no_resolution) [])
      = fst (gatherInputs ?P pn cur hist (jp_plan job) (gathered R pn cur hist []) [])"
    unfolding un by (simp add: R_def answers_def [abs_def] cur_def hist_def)
  have d: "distinct (map gs_get ([] @ ?gs))" using assms(1) by simp
  note g = gather_from [where gs = "[]" and R = R and pn = pn and cur = cur and hist = hist, OF d, folded eq]
  have run: "resolveJobInputs fld chk cfg job pn reopen db = Inr r \<longleftrightarrow>
      (\<exists>ir. fst (gatherInputs ?C pn cur hist (jp_plan job) (no_inputs, no_resolution) []) = Inr ir
        \<and> r = (snd ir)\<lparr>sr_sets := assembleSets (fst ir) (snd ir)\<rparr>)"
    unfolding resolveJobInputs_def resolveInputSets_def Let_def cur_def [symmetric] hist_def [symmetric]
    by (cases "gatherInputs ?C pn cur hist (jp_plan job) (no_inputs, no_resolution) []")
      (auto split: sum.splits)
  show ?thesis
  proof (cases "all_resolve R pn [] ?gs")
    case True
    then have "fst (gatherInputs ?C pn cur hist (jp_plan job) (no_inputs, no_resolution) []) = Inr (gathered R pn cur hist ?gs)"
      using g by simp
    then show ?thesis using True unfolding run by (auto simp: assembleSets_gathered [OF assms(1)])
  next
    case False
    then show ?thesis using g unfolding run by blast
  qed
qed

lemma answer_shape:
  fixes fld :: "version \<Rightarrow> string \<Rightarrow> string option" and chk :: "string \<Rightarrow> string + version list" and cfg :: res_config
    and job :: job_plan and reopen :: bool and db :: version_db
  assumes "answers fld chk cfg job [] reopen db s = Inr (res, vs)"
  defines "hist \<equiv> loadResourceHistory job db" and "cur \<equiv> loadVersionCursor job (\<not> reopen) db"
  shows "res = GetResourceName s \<and> (\<exists>found. ResolveVersions fld chk cfg s [] (history_get hist) = Inr (res, found)
    \<and> vs = (if VersionEvery s then filter (\<lambda>v. \<not> cursor_has cur res v) found else found)
    \<and> (VersionEvery s \<longrightarrow> versionsFor chk s res [] (history_get hist) = Inr found)
    \<and> (\<not> VersionEvery s \<longrightarrow> (\<exists>v. found = [v])))"
proof -
  have mode: "fst (VersionMode s) = ModeEvery \<longleftrightarrow> VersionEvery s"
    using fans_every [of s] unfolding fans_def by simp
  obtain res' found where found: "ResolveVersions fld chk cfg s [] (history_get hist) = Inr (res', found)"
    and vs: "res' = res" "vs = unconsumed (cursor_has cur) s [] res found"
    using assms(1) unfolding answers_def fresh_entry_def hist_def cur_def
    by (auto simp: Let_def split: sum.splits prod.splits)
  have "res = GetResourceName s \<and> (VersionEvery s \<longrightarrow> versionsFor chk s res [] (history_get hist) = Inr found)
      \<and> (\<not> VersionEvery s \<longrightarrow> (\<exists>v. found = [v]))"
    using found unfolding vs(1) ResolveVersions_def Let_def by (auto simp: mode split: option.splits if_splits sum.splits)
  then show ?thesis using found vs mode by (auto simp: unconsumed_def)
qed

lemma the_set_every:
  assumes "distinct (map gs_get gs)" "s \<in> set gs" "VersionEvery s" "\<not> blocked R [] cur hist gs"
  shows "map_of (the_set R [] cur hist gs i) (gs_get s) = binding R cur hist i s"
proof -
  have "gs_get s \<noteq> gs_get t" if "t \<in> set gs" "\<not> VersionEvery t" for t
    using assms(1-3) that by (auto simp: distinct_map inj_on_def)
  then have "map_of (map (\<lambda>s. (gs_get s, last (vers_of R s))) (filter (\<lambda>s. \<not> fans [] s) gs)) (gs_get s) = None"
    unfolding map_of_eq_None_iff by fastforce
  moreover have "map_of (map (\<lambda>s. (gs_get s, the (binding R cur hist i s))) (filter (fans []) gs)) (gs_get s) = Some (the (binding R cur hist i s))"
    by (rule map_of_gets [where P = "fans []"]) (use assms(1-3) in simp_all)
  moreover have "binding R cur hist i s \<noteq> None"
    using assms(2-4) by (auto simp: blocked_def binding_def Let_def)
  ultimately show ?thesis by (simp add: the_set_def map_add_def)
qed

lemma the_set_fixed:
  assumes "distinct (map gs_get gs)" "s \<in> set gs" "\<not> VersionEvery s"
  shows "map_of (the_set R [] cur hist gs i) (gs_get s) = Some (last (vers_of R s))"
proof -
  have "gs_get s \<noteq> gs_get t" if "t \<in> set gs" "VersionEvery t" for t
    using assms(1-3) that by (auto simp: distinct_map inj_on_def)
  then have "map_of (map (\<lambda>s. (gs_get s, the (binding R cur hist i s))) (filter (fans []) gs)) (gs_get s) = None"
    unfolding map_of_eq_None_iff by fastforce
  moreover have "map_of (map (\<lambda>s. (gs_get s, last (vers_of R s))) (filter (\<lambda>s. \<not> fans [] s) gs)) (gs_get s) = Some (last (vers_of R s))"
    by (rule map_of_gets [where P = "\<lambda>s. \<not> fans [] s"]) (use assms in simp_all)
  ultimately show ?thesis by (simp add: the_set_def map_add_def)
qed

lemma the_set_keys:
  assumes "distinct (map gs_get gs)"
  shows "set (map fst (the_set R [] cur hist gs i)) = gs_get ` set gs \<and> distinct (map fst (the_set R [] cur hist gs i))"
proof -
  have "gs_get s \<noteq> gs_get t" if "s \<in> set gs" "t \<in> set gs" "VersionEvery s" "\<not> VersionEvery t" for s t
    using assms that by (auto simp: distinct_map inj_on_def)
  then show ?thesis using assms by (force simp: the_set_def comp_def distinct_map_filter)
qed

lemma fold_max_Max: "xs \<noteq> [] \<Longrightarrow> fold max xs (0 :: nat) = Max (set xs)"
  by (cases xs) (simp_all add: Max.set_eq_fold [symmetric])

lemma hold_row:
  assumes "length U \<le> n"
  shows "map (\<lambda>i. if i < length U then Some (U ! i) else Some (last U)) [0..<n]
      = map Some U @ replicate (n - length U) (Some (last U))"
  using assms by (intro nth_equalityI) (auto simp: nth_append)

lemma length_le_widest: "s \<in> set gs \<Longrightarrow> fans pn s \<Longrightarrow> length (vers_of R s) \<le> widest R pn gs"
  unfolding widest_def by (rule fold_max_ge(2)) auto

lemma row_of_sets:
  assumes "distinct (map gs_get gs)" "s \<in> set gs" "VersionEvery s" "\<not> blocked R [] cur hist gs"
  shows "map (\<lambda>bound. map_of bound (gs_get s)) (map (the_set R [] cur hist gs) [0..<widest R [] gs])
    = (if vers_of R s = [] then replicate (widest R [] gs) (held_of R cur hist s)
       else map Some (vers_of R s) @ replicate (widest R [] gs - length (vers_of R s)) (Some (last (vers_of R s))))"
proof -
  have "map (\<lambda>bound. map_of bound (gs_get s)) (map (the_set R [] cur hist gs) [0..<widest R [] gs])
      = map (\<lambda>i. binding R cur hist i s) [0..<widest R [] gs]"
    using the_set_every [OF assms] by simp
  also have "\<dots> = (if vers_of R s = [] then replicate (widest R [] gs) (held_of R cur hist s)
       else map Some (vers_of R s) @ replicate (widest R [] gs - length (vers_of R s)) (Some (last (vers_of R s))))"
  proof (cases "vers_of R s = []")
    case True
    then show ?thesis by (simp add: binding_def Let_def map_replicate_const)
  next
    case False
    have "length (vers_of R s) \<le> widest R [] gs" using length_le_widest [of s gs "[]" R] assms(2,3) by simp
    then show ?thesis using False hold_row [of "vers_of R s" "widest R [] gs"] by (simp add: binding_def [abs_def] Let_def)
  qed
  finally show ?thesis .
qed

end
