(* ===== verification/InputSetsRun.thy ===== *)
theory InputSetsRun
  imports InputSetsInv
begin

text \<open>
  One run is one build: taking a set advances every fanning get's cursor exactly past what the set binds,
  so the next resolution is the rest of the fan-out, and claiming until idle builds each set once, in order.
\<close>

subsection \<open>A history and a mark\<close>

definition ordered :: "(version \<Rightarrow> nat option) \<Rightarrow> version list \<Rightarrow> bool" where
  "ordered f vs = (sorted_wrt (\<lambda>v w. the (f v) < the (f w)) vs \<and> (\<forall>v \<in> set vs. f v \<noteq> None))"

definition above :: "(version \<Rightarrow> nat option) \<Rightarrow> nat \<Rightarrow> version \<Rightarrow> bool" where
  "above f m v = (case f v of None \<Rightarrow> True | Some n \<Rightarrow> m < n)"

lemma best_held_last:
  assumes "ordered f vs" "\<forall>v \<in> set vs. case best of None \<Rightarrow> True | Some (w, n) \<Rightarrow> n < the (f v)"
  shows "best_held f m vs best = (if filter (\<lambda>v. \<not> above f m v) vs = [] then best
    else Some (last (filter (\<lambda>v. \<not> above f m v) vs), the (f (last (filter (\<lambda>v. \<not> above f m v) vs)))))"
  using assms
proof (induction vs arbitrary: best)
  case (Cons v vs)
  obtain n where n: "f v = Some n" using Cons.prems(1) by (auto simp: ordered_def)
  have ord: "ordered f vs" and later: "\<forall>w \<in> set vs. n < the (f w)" using Cons.prems(1) n by (auto simp: ordered_def)
  show ?case
  proof (cases "m < n")
    case True
    then show ?thesis using Cons.IH [OF ord, of best] Cons.prems(2) n by (simp add: above_def)
  next
    case False
    have "best_held f m (v # vs) best = best_held f m vs (Some (v, n))"
      using False n Cons.prems(2) by (auto split: option.split)
    then show ?thesis using Cons.IH [OF ord, of "Some (v, n)"] False n later by (simp add: above_def)
  qed
qed simp

lemma ordered_split:
  assumes "ordered f vs"
  shows "vs = filter (\<lambda>v. \<not> above f m v) vs @ filter (above f m) vs"
  using assms
proof (induction vs)
  case (Cons v vs)
  have ord: "ordered f vs" using Cons.prems by (simp add: ordered_def)
  show ?case
  proof (cases "above f m v")
    case True
    have "above f m w" if "w \<in> set vs" for w
      using Cons.prems True that by (fastforce simp: ordered_def above_def split: option.splits)
    then have "filter (\<lambda>v. \<not> above f m v) vs = []" "filter (above f m) vs = vs" by (simp_all add: filter_empty_conv filter_id_conv)
    then show ?thesis using True by simp
  next
    case False
    then show ?thesis using Cons.IH [OF ord] by simp
  qed
qed simp

lemma take_advances:
  assumes "ordered f vs" "filter (above f m) vs = b # rest"
  shows "filter (above f (the (f b))) vs = rest \<and> filter (\<lambda>v. \<not> above f (the (f b)) v) vs = filter (\<lambda>v. \<not> above f m v) vs @ [b]
    \<and> m < the (f b)"
proof -
  have vs: "vs = filter (\<lambda>v. \<not> above f m v) vs @ b # rest" using ordered_split [OF assms(1), of m] assms(2) by simp
  have ord: "ordered f (filter (\<lambda>v. \<not> above f m v) vs @ b # rest)"
    unfolding vs [symmetric] by (rule assms(1))
  have "above f m b" using assms(2) by (metis (mono_tags) filter_eq_ConsD)
  moreover have b: "b \<in> set vs" using assms(2) by (metis filter_is_subset list.set_intros(1) subsetD)
  ultimately obtain n where n: "f b = Some n" "m < n" using assms(1) by (auto simp: ordered_def above_def split: option.splits)
  have low: "\<not> above f n v" if "v \<in> set (filter (\<lambda>v. \<not> above f m v) vs)" for v
    using that n(2) by (auto simp: above_def split: option.splits)
  have "sorted_wrt (\<lambda>v w. the (f v) < the (f w)) (b # rest)" "\<forall>v \<in> set rest. f v \<noteq> None"
    using ord by (simp_all add: ordered_def sorted_wrt_append)
  then have high: "above f n v" if "v \<in> set rest" for v
    using that n by (auto simp: above_def split: option.splits)
  have "\<not> above f n b" using n by (simp add: above_def)
  moreover have "filter (above f n) low = [] \<and> filter (\<lambda>v. \<not> above f n v) low = low"
    if "low = filter (\<lambda>v. \<not> above f m v) vs" for low
    using low unfolding that filter_empty_conv filter_id_conv by blast
  moreover have "filter (above f n) rest = rest \<and> filter (\<lambda>v. \<not> above f n v) rest = []"
    using high unfolding filter_empty_conv filter_id_conv by blast
  moreover obtain low where low_eq: "low = filter (\<lambda>v. \<not> above f m v) vs" by blast
  ultimately have parts: "filter (above f n) (low @ b # rest) = rest" "filter (\<lambda>v. \<not> above f n v) (low @ b # rest) = low @ [b]"
    by simp_all
  have whole: "low @ b # rest = vs" unfolding low_eq by (rule vs [symmetric])
  have b_n: "the (f b) = n" using n(1) by simp
  show ?thesis using parts [unfolded whole] n(2) unfolding b_n low_eq [symmetric] by blast
qed

subsection \<open>Marks\<close>

lemma VersionOrders_rows_only: "vd_rows a = vd_rows b \<Longrightarrow> VersionOrders res a = VersionOrders res b"
  by (simp add: VersionOrders_def rows_of_res_def)

lemma map_of_bump:
  "map_of (map (\<lambda>(k, m). if k = K then (k, g m) else (k, m)) l) k'
    = (if k' = K then map_option g (map_of l K) else map_of l k')"
  by (induction l) (auto split: if_splits)

lemma ConsumedMark_Record:
  "ConsumedMark j' r' (RecordConsumedMark j r n db)
    = (if j' = j \<and> r' = r then max (ConsumedMark j r db) n else ConsumedMark j' r' db)"
  by (auto simp: RecordConsumedMark_def ConsumedMark_def map_of_bump split: option.splits)

lemma Record_keeps [simp]:
  "vd_rows (RecordConsumedMark j r n db) = vd_rows db" "vd_passes (RecordConsumedMark j r n db) = vd_passes db"
  by (simp_all add: RecordConsumedMark_def)

lemma take_known:
  assumes "VersionOrders res db v = Some n"
  shows "\<exists>c'. cursor_take job res v (Some c, db) = (Some c', RecordConsumedMark job res n db)"
proof -
  have "list_ex (\<lambda>r. vr_res r = res \<and> vr_version r = v) (vd_rows db)"
    using map_of_SomeD [OF assms [unfolded VersionOrders_def]] by (auto simp: rows_of_res_def list_ex_iff)
  then have "RecordVersionOrder res v db = (Some n, db)"
    using assms by (simp add: RecordVersionOrder_def ensureVersion_def Let_def)
  then show ?thesis by (simp add: cursor_take_def)
qed

lemma take_all:
  assumes "\<forall>e \<in> set es. \<exists>v. b e = Some v \<and> VersionOrders (ei_resource e) db v = Some (n e)" "distinct (map ei_resource es)"
  shows "\<exists>c'. \<exists>db'. fold (\<lambda>e cd. case b e of None \<Rightarrow> cd | Some v \<Rightarrow> cursor_take job (ei_resource e) v cd) es (Some c, db) = (Some c', db')
    \<and> vd_rows db' = vd_rows db \<and> vd_passes db' = vd_passes db
    \<and> (\<forall>e \<in> set es. ConsumedMark job (ei_resource e) db' = max (ConsumedMark job (ei_resource e) db) (n e))
    \<and> (\<forall>r. r \<notin> ei_resource ` set es \<longrightarrow> ConsumedMark job r db' = ConsumedMark job r db)"
  using assms
proof (induction es arbitrary: c db)
  case (Cons e es)
  let ?db1 = "RecordConsumedMark job (ei_resource e) (n e) db"
  obtain v where v: "b e = Some v" "VersionOrders (ei_resource e) db v = Some (n e)" using Cons.prems(1) by auto
  obtain c1 where c1: "cursor_take job (ei_resource e) v (Some c, db) = (Some c1, ?db1)" using take_known [OF v(2)] by blast
  have "VersionOrders r ?db1 = VersionOrders r db" for r by (rule VersionOrders_rows_only) simp
  then have "\<forall>e \<in> set es. \<exists>v. b e = Some v \<and> VersionOrders (ei_resource e) ?db1 v = Some (n e)" using Cons.prems(1) by simp
  from Cons.IH [OF this, of c1] Cons.prems(2)
  obtain c' db' where f: "fold (\<lambda>e cd. case b e of None \<Rightarrow> cd | Some v \<Rightarrow> cursor_take job (ei_resource e) v cd) es (Some c1, ?db1) = (Some c', db')"
    and rows: "vd_rows db' = vd_rows ?db1" "vd_passes db' = vd_passes ?db1"
    and marks: "\<forall>e \<in> set es. ConsumedMark job (ei_resource e) db' = max (ConsumedMark job (ei_resource e) ?db1) (n e)"
    and other: "\<forall>r. r \<notin> ei_resource ` set es \<longrightarrow> ConsumedMark job r db' = ConsumedMark job r ?db1" by auto
  have apart: "ei_resource e \<notin> ei_resource ` set es" using Cons.prems(2) by simp
  have "fold (\<lambda>e cd. case b e of None \<Rightarrow> cd | Some v \<Rightarrow> cursor_take job (ei_resource e) v cd) (e # es) (Some c, db) = (Some c', db')"
    using f by (simp add: v(1) c1)
  moreover have "ConsumedMark job (ei_resource e) db' = max (ConsumedMark job (ei_resource e) db) (n e)"
    using other apart by (simp add: ConsumedMark_Record)
  moreover have "ConsumedMark job (ei_resource e') db' = max (ConsumedMark job (ei_resource e') db) (n e')" if "e' \<in> set es" for e'
  proof -
    have "ei_resource e' \<noteq> ei_resource e" using that apart by (metis imageI)
    then show ?thesis using marks that by (simp add: ConsumedMark_Record)
  qed
  moreover have "ConsumedMark job r db' = ConsumedMark job r db" if "r \<notin> ei_resource ` set (e # es)" for r
    using other that by (auto simp: ConsumedMark_Record)
  ultimately show ?case using rows by simp
qed simp

subsection \<open>What a run reads\<close>

lemma VersionOrders_row:
  assumes "vdb_ok db" "r \<in> set (vd_rows db)"
  shows "VersionOrders (vr_res r) db (vr_version r) = Some (vr_order r)"
proof -
  have "distinct (map vkey (rows_of_res (vr_res r) db))"
    using assms(1) by (simp add: vdb_ok_def versions_wf_def rows_of_res_def distinct_map_filter)
  then have "distinct (map vr_version (rows_of_res (vr_res r) db))"
    by (auto simp: distinct_map inj_on_def vkey_def rows_of_res_def)
  then show ?thesis
    unfolding VersionOrders_def by (intro map_of_is_SomeI) (use assms(2) in \<open>auto simp: rows_of_res_def comp_def\<close>)
qed

lemma sorted_rows_ordered:
  assumes "vdb_ok db" "\<And>r. r \<in> set (vd_rows db) \<Longrightarrow> P r \<Longrightarrow> vr_res r = res"
  shows "ordered (VersionOrders res db) (map vr_version (sort_key vr_order (filter P (vd_rows db))))"
proof -
  let ?rows = "sort_key vr_order (filter P (vd_rows db))"
  have ord: "VersionOrders res db (vr_version r) = Some (vr_order r)" if "r \<in> set ?rows" for r
    using VersionOrders_row [OF assms(1), of r] assms(2) [of r] that by auto
  have "distinct (map vr_order (filter P (vd_rows db)))"
  proof -
    have "distinct (map okey (filter P (vd_rows db)))" using assms(1) by (simp add: vdb_ok_def versions_wf_def distinct_map_filter)
    then show ?thesis using assms(2) by (auto simp: distinct_map inj_on_def okey_def)
  qed
  then have "distinct (map vr_order ?rows)" by (metis mset_map mset_eq_imp_distinct_iff mset_sort)
  then have "sorted_wrt (<) (map vr_order ?rows)" by (simp add: strict_sorted_iff)
  then have "sorted_wrt (\<lambda>v w. the (VersionOrders res db v) < the (VersionOrders res db w)) (map vr_version ?rows)"
    unfolding sorted_wrt_map by (rule sorted_wrt_mono_rel [rotated]) (simp add: ord)
  then show ?thesis using ord by (auto simp: ordered_def)
qed

lemma history_ordered:
  assumes "vdb_ok db"
  shows "ordered (VersionOrders res db) (history_list (loadResourceHistory job db) res)"
proof -
  have "ordered (VersionOrders res db) (GreenVersions res ups db)" for ups
    unfolding GreenVersions_def rows_of_res_def filter_filter by (rule sorted_rows_ordered [OF assms]) simp
  moreover have "ordered (VersionOrders res db) (ResourceVersionsJSON res db)"
    unfolding ResourceVersionsJSON_def by (rule sorted_rows_ordered [OF assms]) simp
  moreover have "map_of (map (\<lambda>n. (n, h n)) ns) res = (if res \<in> set ns then Some (h res) else None)" for h :: "string \<Rightarrow> version list" and ns
    by (induction ns) auto
  ultimately show ?thesis
    by (auto simp: history_list_def history_get_def loadResourceHistory_def Let_def ordered_def split: option.splits)
qed

subsection \<open>A second resolution\<close>

definition every_names :: "job_plan \<Rightarrow> string set" where
  "every_names job = GetResourceName ` {s \<in> set (gets_of (jp_plan job)). VersionEvery s}"

lemma fans_out_every [simp]: "fansOutOverEveryVersion s = VersionEvery s"
  using fans_every [of s] unfolding fans_def fansOutOverEveryVersion_def by simp

lemma cursor_loaded:
  assumes "every_names job \<noteq> {}"
  shows "\<exists>c. loadVersionCursor job suppr db = Some c \<and> vc_suppress c = suppr
    \<and> (\<forall>r \<in> every_names job. vc_marks c r = ConsumedMark (jp_name job) r db \<and> vc_orders c r = VersionOrders r db)"
proof -
  let ?rs = "first_occurrences (map GetResourceName (filter (\<lambda>s. gs_get s \<noteq> [] \<and> fansOutOverEveryVersion s) (jp_plan job)))"
  have rs: "set ?rs = every_names job" by (auto simp: every_names_def gets_of_def)
  have "?rs \<noteq> []"
  proof
    assume "?rs = []"
    from arg_cong [OF this, of set] show False using assms unfolding rs by simp
  qed
  then show ?thesis unfolding loadVersionCursor_def Let_def using rs by simp
qed

lemma history_same:
  assumes "vd_rows db' = vd_rows db" "vd_passes db' = vd_passes db"
  shows "loadResourceHistory job db' = loadResourceHistory job db"
  unfolding loadResourceHistory_def GreenVersions_def ResourceVersionsJSON_def rows_of_res_def assms by (rule refl)

lemma has_above:
  assumes "loadVersionCursor job True db = Some c" "vc_suppress c" "vc_marks c r = m" "vc_orders c r = f"
  shows "cursor_has (loadVersionCursor job True db) r v = (\<not> above f m v)"
  using assms by (auto simp: cursor_has_def above_def split: option.split)

lemma held_above:
  assumes "loadVersionCursor job True db = Some c" "vc_marks c r = m" "vc_orders c r = f" "ordered f vs"
  shows "heldVersion (loadVersionCursor job True db) r vs
    = (if filter (\<lambda>v. \<not> above f m v) vs = [] then None else Some (last (filter (\<lambda>v. \<not> above f m v) vs)))"
  using best_held_last [OF assms(4), of None m] assms(1-3) by (simp add: heldVersion_def)

text \<open>A resolution that reads the same rows: the fixed gets answer the same, the fanning ones what their
  marks leave.\<close>

lemma answers_shift:
  assumes "vd_rows db' = vd_rows db" "vd_passes db' = vd_passes db"
    and "answers fld chk cfg job [] False db s = Inr (res, vs)"
  shows "answers fld chk cfg job [] False db' s = Inr (res,
    if VersionEvery s then filter (\<lambda>v. \<not> cursor_has (loadVersionCursor job True db') res v)
      (case versionsFor chk s res [] (history_get (loadResourceHistory job db)) of Inl e \<Rightarrow> [] | Inr found \<Rightarrow> found)
    else vs)"
proof -
  obtain found where found: "res = GetResourceName s"
    "ResolveVersions fld chk cfg s [] (history_get (loadResourceHistory job db)) = Inr (res, found)"
    "vs = (if VersionEvery s then filter (\<lambda>v. \<not> cursor_has (loadVersionCursor job (\<not> False) db) res v) found else found)"
    "VersionEvery s \<longrightarrow> versionsFor chk s res [] (history_get (loadResourceHistory job db)) = Inr found"
    using answer_shape [OF assms(3)] by (elim conjE exE)
  have mode: "fst (VersionMode s) = ModeEvery \<longleftrightarrow> VersionEvery s" using fans_every [of s] unfolding fans_def by simp
  show ?thesis
    unfolding answers_def fresh_entry_def history_same [OF assms(1,2)] found(2)
    using found(3,4) by (simp add: Let_def unconsumed_def mode)
qed

lemma fold_max_pred:
  "fold max (map (\<lambda>x. f x - 1) xs) (a - 1) = fold max (map f xs) a - (1 :: nat)"
proof (induction xs arbitrary: a)
  case (Cons x xs)
  have "max (f x - 1) (a - 1) = max (f x) a - 1" by simp
  then show ?case using Cons.IH [of "max (f x) a"] by simp
qed simp

lemma widest_shift:
  assumes "\<forall>s \<in> set gs. fans pn s \<longrightarrow> vers_of R' s = tl (vers_of R s)"
  shows "widest R' pn gs = widest R pn gs - 1"
proof -
  have "map (length \<circ> vers_of R') (filter (fans pn) gs) = map (\<lambda>s. (length \<circ> vers_of R) s - 1) (filter (fans pn) gs)"
    using assms by simp
  from arg_cong [OF this, of "\<lambda>l. fold max l 0"] show ?thesis
    unfolding widest_def using fold_max_pred [of "length \<circ> vers_of R" "filter (fans pn) gs" 0] by (simp only: diff_0_eq_0)
qed

lemma binding_shift:
  assumes "vers_of R' s = tl (vers_of R s)"
    and "held_of R' cur' hist' s = (if vers_of R s = [] then held_of R cur hist s else Some (hd (vers_of R s)))"
  shows "binding R' cur' hist' i s = binding R cur hist (Suc i) s"
proof (cases "vers_of R s")
  case Nil
  then show ?thesis using assms by (simp add: binding_def)
next
  case (Cons b rest)
  then show ?thesis using assms by (cases rest) (simp_all add: binding_def Let_def)
qed

lemma sets_shift:
  assumes "filter (fans []) gs \<noteq> []" "\<not> blocked R [] cur hist gs"
    and tl: "\<forall>s \<in> set gs. fans [] s \<longrightarrow> vers_of R' s = tl (vers_of R s)"
    and held: "\<forall>s \<in> set gs. fans [] s \<longrightarrow> held_of R' cur' hist' s = (if vers_of R s = [] then held_of R cur hist s else Some (hd (vers_of R s)))"
    and fixed: "\<forall>s \<in> set gs. \<not> fans [] s \<longrightarrow> vers_of R' s = vers_of R s"
  shows "sets_of R' [] cur' hist' gs = tl (sets_of R [] cur hist gs)"
proof -
  have free: "\<not> blocked R' [] cur' hist' gs"
    using assms(2) held unfolding blocked_def by (metis option.distinct(1))
  have "the_set R' [] cur' hist' gs i = the_set R [] cur hist gs (Suc i)" for i
    unfolding the_set_def using binding_shift tl held fixed by (auto intro!: map_cong)
  then have "sets_of R' [] cur' hist' gs = map (the_set R [] cur hist gs \<circ> Suc) [0..<widest R [] gs - 1]"
    using assms(1) free widest_shift [OF tl] by (simp add: sets_of_def comp_def)
  also have "\<dots> = tl (map (the_set R [] cur hist gs) [0..<widest R [] gs])"
    by (cases "widest R [] gs") (simp_all add: map_upt_Suc comp_def del: upt_Suc)
  finally show ?thesis using assms(1,2) by (simp add: sets_of_def)
qed

subsection \<open>Taking one build\<close>

lemma waiting_above:
  assumes "answers fld chk cfg job [] False db s = Inr (res, vs)" "VersionEvery s" "s \<in> set (gets_of (jp_plan job))"
    and "history_get (loadResourceHistory job db) res \<noteq> None"
  shows "vs = filter (above (VersionOrders res db) (ConsumedMark (jp_name job) res db)) (history_list (loadResourceHistory job db) res)
    \<and> res \<in> every_names job
    \<and> versionsFor chk s res [] (history_get (loadResourceHistory job db)) = Inr (history_list (loadResourceHistory job db) res)"
proof -
  obtain found where found: "res = GetResourceName s"
    "vs = (if VersionEvery s then filter (\<lambda>v. \<not> cursor_has (loadVersionCursor job (\<not> False) db) res v) found else found)"
    "VersionEvery s \<longrightarrow> versionsFor chk s res [] (history_get (loadResourceHistory job db)) = Inr found"
    using answer_shape [OF assms(1)] by (elim conjE exE)
  have mem: "res \<in> every_names job" using found(1) assms(2,3) by (auto simp: every_names_def)
  then obtain c where c: "loadVersionCursor job True db = Some c" "vc_suppress c"
      "vc_marks c res = ConsumedMark (jp_name job) res db" "vc_orders c res = VersionOrders res db"
    using cursor_loaded [of job True db] by fastforce
  have "fst (VersionMode s) \<noteq> ModePinned" using assms(2) by (simp add: VersionMode_def)
  then have list: "versionsFor chk s res [] (history_get (loadResourceHistory job db)) = Inr (history_list (loadResourceHistory job db) res)"
    using assms(4) by (auto simp: versionsFor_def history_list_def)
  then have "found = history_list (loadResourceHistory job db) res" using found(3) assms(2) by simp
  then show ?thesis using found(2) assms(2) has_above [OF c] mem list by simp
qed

text \<open>The version a set binds for a fanning get, and what taking it leaves of that get.\<close>

lemma take_one_get:
  assumes ok: "vdb_ok db" and db': "vd_rows db' = vd_rows db" "vd_passes db' = vd_passes db"
    and R: "answers fld chk cfg job [] False db s = Inr (res, vs)" "VersionEvery s" "s \<in> set (gets_of (jp_plan job))"
    and hist: "history_get (loadResourceHistory job db) res \<noteq> None"
    and bound: "v = (if vs = [] then the (heldVersion (loadVersionCursor job True db) res (history_list (loadResourceHistory job db) res)) else hd vs)"
      "vs = [] \<longrightarrow> heldVersion (loadVersionCursor job True db) res (history_list (loadResourceHistory job db) res) \<noteq> None"
    and mark: "ConsumedMark (jp_name job) res db' = max (ConsumedMark (jp_name job) res db) (the (VersionOrders res db v))"
  shows "answers fld chk cfg job [] False db' s = Inr (res, tl vs)
    \<and> heldVersion (loadVersionCursor job True db') res (history_list (loadResourceHistory job db') res) = Some v"
proof -
  let ?H = "history_list (loadResourceHistory job db) res"
  let ?f = "VersionOrders res db"
  let ?m = "ConsumedMark (jp_name job) res db"
  let ?m' = "ConsumedMark (jp_name job) res db'"
  note w = waiting_above [OF R hist]
  have f': "VersionOrders res db' = ?f" by (rule VersionOrders_rows_only) (rule db'(1))
  obtain c where c: "loadVersionCursor job True db = Some c" "vc_marks c res = ?m" "vc_orders c res = ?f"
    using cursor_loaded [of job True db] w by fastforce
  obtain c' where c': "loadVersionCursor job True db' = Some c'" "vc_suppress c'" "vc_marks c' res = ?m'" "vc_orders c' res = ?f"
    using cursor_loaded [of job True db'] w f' by fastforce
  note ord = history_ordered [OF ok, of res job]
  have ans: "answers fld chk cfg job [] False db' s = Inr (res, filter (above ?f ?m') ?H)"
    using answers_shift [OF db' R(1)] R(2) w has_above [OF c'] by simp
  have held': "heldVersion (loadVersionCursor job True db') res (history_list (loadResourceHistory job db') res)
      = (if filter (\<lambda>v. \<not> above ?f ?m' v) ?H = [] then None else Some (last (filter (\<lambda>v. \<not> above ?f ?m' v) ?H)))"
    unfolding history_same [OF db'] by (rule held_above [OF c'(1,3,4) ord])
  show ?thesis
  proof (cases vs)
    case Nil
    let ?low = "filter (\<lambda>v. \<not> above ?f ?m v) ?H"
    have "heldVersion (loadVersionCursor job True db) res ?H \<noteq> None" using bound(2) Nil by simp
    then have v: "?low \<noteq> []" "v = last ?low"
      using bound(1) held_above [OF c ord] Nil by (auto split: if_splits)
    have "v \<in> set ?low" unfolding v(2) by (rule last_in_set [OF v(1)])
    then have "the (?f v) \<le> ?m" by (auto simp: above_def split: option.splits)
    then have "?m' = ?m" using mark by simp
    then show ?thesis using ans held' v w Nil by simp
  next
    case (Cons b rest)
    then have b: "filter (above ?f ?m) ?H = b # rest" "v = b" using w bound(1) by simp_all
    note adv = take_advances [OF ord b(1)]
    then have "?m' = the (?f b)" using mark b(2) by simp
    then show ?thesis using ans held' adv Cons b(2) by simp
  qed
qed

lemma fans_Nil: "fans [] = VersionEvery"
  by (rule ext) simp

definition fresh_run :: "string \<Rightarrow> build_run" where
  "fresh_run run = \<lparr>br_id = run, br_pinned = [], br_reopenTaken = False, br_setIndex = 0, br_resume = None, br_rerunOf = []\<rparr>"

definition recorded_history :: "job_plan \<Rightarrow> version_db \<Rightarrow> bool" where
  "recorded_history job db = (\<forall>s \<in> set (gets_of (jp_plan job)). VersionEvery s \<longrightarrow>
     history_get (loadResourceHistory job db) (GetResourceName s) \<noteq> None)"

lemma start_fresh:
  assumes "resolveJobInputs fld chk cfg job [] False (fst st) = Inr r" "sr_sets r = bound # rest"
    and "\<not> sr_recorded r" "\<not> sr_rerun r"
    and "fold (\<lambda>e cd. case map_of bound (ei_input e) of None \<Rightarrow> cd | Some v \<Rightarrow> cursor_take (jp_name job) (ei_resource e) v cd)
        (sr_everyInputs r) (loadVersionCursor job True (fst st), fst st) = (c', db')"
  shows "\<exists>rows. startBuild fld chk cfg job (fresh_run run) st = Inr ([bound], (db', rows), if rest = [] then None else Some (length rest))"
  using assms by (simp add: startBuild_def fresh_run_def oneBuild_def resumeInputSets_def rerunInputSets_def takeBuild_def Let_def)

lemma bound_known:
  assumes ok: "vdb_ok db" and R: "answers fld chk cfg job [] False db s = Inr (res, vs)" "VersionEvery s" "s \<in> set (gets_of (jp_plan job))"
    and hist: "history_get (loadResourceHistory job db) res \<noteq> None"
    and v: "v = (if vs = [] then the (heldVersion (loadVersionCursor job True db) res (history_list (loadResourceHistory job db) res)) else hd vs)"
      "vs = [] \<longrightarrow> heldVersion (loadVersionCursor job True db) res (history_list (loadResourceHistory job db) res) \<noteq> None"
  shows "VersionOrders res db v = Some (the (VersionOrders res db v))"
proof -
  let ?H = "history_list (loadResourceHistory job db) res"
  let ?f = "VersionOrders res db"
  let ?m = "ConsumedMark (jp_name job) res db"
  note w = waiting_above [OF R hist]
  obtain c where c: "loadVersionCursor job True db = Some c" "vc_marks c res = ?m" "vc_orders c res = ?f"
    using cursor_loaded [of job True db] w by fastforce
  note ord = history_ordered [OF ok, of res job]
  have "v \<in> set ?H"
  proof (cases "vs = []")
    case True
    let ?low = "filter (\<lambda>v. \<not> above ?f ?m v) ?H"
    have low: "?low \<noteq> []" "v = last ?low" using v True held_above [OF c ord] by (auto split: if_splits)
    have "v \<in> set ?low" unfolding low(2) by (rule last_in_set [OF low(1)])
    then show ?thesis by simp
  next
    case False
    then have "v \<in> set vs" using v(1) by simp
    then show ?thesis using w by auto
  qed
  then have "?f v \<noteq> None" using ord by (simp add: ordered_def)
  then show ?thesis by auto
qed

lemma one_build:
  fixes fld :: "version \<Rightarrow> string \<Rightarrow> string option" and chk :: "string \<Rightarrow> string + version list" and cfg :: res_config
    and job :: job_plan and st :: "version_db \<times> run_input list"
  assumes ok: "vdb_ok (fst st)" and d: "distinct (map gs_get (gets_of (jp_plan job)))"
    and every: "\<exists>s \<in> set (gets_of (jp_plan job)). VersionEvery s" and hist: "recorded_history job (fst st)"
    and res: "resolveJobInputs fld chk cfg job [] False (fst st) = Inr r" "sr_sets r = bound # rest"
  shows "\<exists>st' r'. startBuild fld chk cfg job (fresh_run run) st = Inr ([bound], st', if rest = [] then None else Some (length rest))
    \<and> resolveJobInputs fld chk cfg job [] False (fst st') = Inr r' \<and> sr_sets r' = rest
    \<and> vdb_ok (fst st') \<and> recorded_history job (fst st')"
proof -
  let ?gs = "gets_of (jp_plan job)"
  let ?db = "fst st"
  let ?R = "answers fld chk cfg job [] False ?db"
  let ?cur = "loadVersionCursor job True ?db" and ?hist = "loadResourceHistory job ?db"
  let ?es = "map (\<lambda>s. \<lparr>ei_input = gs_get s, ei_resource = res_of ?R s\<rparr>) (filter VersionEvery ?gs)"
  have char: "all_resolve ?R [] [] ?gs"
    and r: "r = (snd (gathered ?R [] ?cur ?hist ?gs))\<lparr>sr_sets := sets_of ?R [] ?cur ?hist ?gs\<rparr>"
    using res(1) resolve_char [OF d, of fld chk cfg "[]" False ?db r] by simp_all
  have nonempty: "filter (fans []) ?gs \<noteq> []" using every by (simp add: fans_Nil filter_empty_conv)
  have sets: "sets_of ?R [] ?cur ?hist ?gs = bound # rest" using r res(2) by simp
  then have free: "\<not> blocked ?R [] ?cur ?hist ?gs" using nonempty unfolding sets_of_def by (auto split: if_splits)
  have wide: "map (the_set ?R [] ?cur ?hist ?gs) [0..<widest ?R [] ?gs] = bound # rest"
    using sets nonempty free by (simp add: sets_of_def)
  then have bound: "bound = the_set ?R [] ?cur ?hist ?gs 0"
    by (cases "widest ?R [] ?gs") (auto simp: upt_conv_Cons simp del: upt_Suc)
  have ans: "?R s = Inr (res_of ?R s, vers_of ?R s)" "res_of ?R s = GetResourceName s" if "s \<in> set ?gs" for s
  proof -
    have "\<exists>res vs. ?R s = Inr (res, vs) \<and> (\<not> fans [] s \<longrightarrow> vs \<noteq> [])"
      using bspec [OF conjunct1 [OF char [unfolded all_resolve_iff]] that] .
    then obtain res vs where R: "?R s = Inr (res, vs)" by (elim exE conjE)
    then show "?R s = Inr (res_of ?R s, vers_of ?R s)" "res_of ?R s = GetResourceName s"
      using answer_shape [OF R] by (simp_all add: res_of_def vers_of_def)
  qed
  define pick where "pick s = (if vers_of ?R s = [] then the (held_of ?R ?cur ?hist s) else hd (vers_of ?R s))" for s
  have held: "vers_of ?R s = [] \<longrightarrow> held_of ?R ?cur ?hist s \<noteq> None" if "s \<in> set ?gs" "VersionEvery s" for s
    using free that by (auto simp: blocked_def fans_Nil)
  have picks: "map_of bound (gs_get s) = Some (pick s)" if "s \<in> set ?gs" "VersionEvery s" for s
    using the_set_every [OF d that free, of 0] held [OF that]
    by (cases "vers_of ?R s") (auto simp: bound binding_def pick_def)
  have known: "VersionOrders (res_of ?R s) ?db (pick s) = Some (the (VersionOrders (res_of ?R s) ?db (pick s)))"
    if "s \<in> set ?gs" "VersionEvery s" for s
  proof -
    have "history_get ?hist (res_of ?R s) \<noteq> None" using hist that ans(2) by (simp add: recorded_history_def)
    from bound_known [OF ok ans(1) [OF that(1)] that(2,1) this] show ?thesis
      using held [OF that] unfolding pick_def held_of_def by blast
  qed
  have dist: "distinct (map ei_resource ?es)"
    using char unfolding all_resolve_iff fans_Nil by (simp add: comp_def)
  have take: "\<forall>e \<in> set ?es. \<exists>v. map_of bound (ei_input e) = Some v
      \<and> VersionOrders (ei_resource e) ?db v = Some (the (VersionOrders (ei_resource e) ?db (the (map_of bound (ei_input e)))))"
    using picks known by auto
  obtain c where c: "?cur = Some c" using cursor_loaded [of job True ?db] every by (fastforce simp: every_names_def)
  obtain c' db' where f: "fold (\<lambda>e cd. case map_of bound (ei_input e) of None \<Rightarrow> cd | Some v \<Rightarrow> cursor_take (jp_name job) (ei_resource e) v cd)
        ?es (?cur, ?db) = (c', db')"
    and db': "vd_rows db' = vd_rows ?db" "vd_passes db' = vd_passes ?db"
    and marks: "\<forall>e \<in> set ?es. ConsumedMark (jp_name job) (ei_resource e) db'
        = max (ConsumedMark (jp_name job) (ei_resource e) ?db) (the (VersionOrders (ei_resource e) ?db (the (map_of bound (ei_input e)))))"
    using take_all [OF take dist, of "jp_name job" c] unfolding c by blast
  have es: "sr_everyInputs r = ?es" unfolding r by (simp add: gathered_def fans_Nil)
  have flags: "\<not> sr_recorded r" "\<not> sr_rerun r" unfolding r by (simp_all add: gathered_def)
  obtain rows where start: "startBuild fld chk cfg job (fresh_run run) st = Inr ([bound], (db', rows), if rest = [] then None else Some (length rest))"
    using start_fresh [OF res flags f [folded es]] by blast
  let ?R' = "answers fld chk cfg job [] False db'"
  let ?cur' = "loadVersionCursor job True db'" and ?hist' = "loadResourceHistory job db'"
  have next_every: "?R' s = Inr (res_of ?R s, tl (vers_of ?R s)) \<and> heldVersion ?cur' (res_of ?R s) (history_list ?hist' (res_of ?R s)) = Some (pick s)"
    if "s \<in> set ?gs" "VersionEvery s" for s
  proof (rule take_one_get [OF ok db' ans(1) [OF that(1)] that(2,1)])
    show "history_get ?hist (res_of ?R s) \<noteq> None" using hist that ans(2) by (simp add: recorded_history_def)
    show "ConsumedMark (jp_name job) (res_of ?R s) db'
        = max (ConsumedMark (jp_name job) (res_of ?R s) ?db) (the (VersionOrders (res_of ?R s) ?db (pick s)))"
      using marks that picks by auto
  qed (use held [OF that] in \<open>simp_all add: pick_def held_of_def\<close>)
  have next_fixed: "?R' s = ?R s" if "s \<in> set ?gs" "\<not> VersionEvery s" for s
    using answers_shift [OF db' ans(1) [OF that(1)]] that(2) ans(1) [OF that(1)] by simp
  have same_res: "res_of ?R' s = res_of ?R s" if "s \<in> set ?gs" for s
    using next_every [OF that] next_fixed [OF that] by (cases "VersionEvery s") (simp_all add: res_of_def)
  have resolves': "all_resolve ?R' [] [] ?gs"
    unfolding all_resolve_iff fans_Nil
  proof (intro conjI ballI)
    show "\<exists>res vs. ?R' s = Inr (res, vs) \<and> (\<not> VersionEvery s \<longrightarrow> vs \<noteq> [])" if "s \<in> set ?gs" for s
      using next_every [OF that] next_fixed [OF that] bspec [OF conjunct1 [OF char [unfolded all_resolve_iff fans_Nil]] that]
      by (cases "VersionEvery s") auto
    have same: "map (res_of ?R') (filter VersionEvery ?gs) = map (res_of ?R) (filter VersionEvery ?gs)" using same_res by simp
    show "distinct (map (res_of ?R') (filter VersionEvery ?gs))"
      unfolding same using char unfolding all_resolve_iff fans_Nil by blast
  qed simp
  have "sets_of ?R' [] ?cur' ?hist' ?gs = tl (sets_of ?R [] ?cur ?hist ?gs)"
  proof (rule sets_shift [OF nonempty free])
    show "\<forall>s \<in> set ?gs. fans [] s \<longrightarrow> vers_of ?R' s = tl (vers_of ?R s)"
      using next_every by (simp add: fans_Nil vers_of_def [of ?R'])
    show "\<forall>s \<in> set ?gs. fans [] s \<longrightarrow> held_of ?R' ?cur' ?hist' s = (if vers_of ?R s = [] then held_of ?R ?cur ?hist s else Some (hd (vers_of ?R s)))"
      using next_every same_res held by (auto simp: fans_Nil held_of_def [of ?R'] pick_def)
    show "\<forall>s \<in> set ?gs. \<not> fans [] s \<longrightarrow> vers_of ?R' s = vers_of ?R s"
      using next_fixed by (simp add: fans_Nil vers_of_def)
  qed
  then have sets': "sets_of ?R' [] ?cur' ?hist' ?gs = rest" using sets by simp
  have r': "resolveJobInputs fld chk cfg job [] False db' = Inr ((snd (gathered ?R' [] ?cur' ?hist' ?gs))\<lparr>sr_sets := rest\<rparr>)"
    using resolve_char [OF d, of fld chk cfg "[]" False db'] resolves' sets' by simp
  have "vdb_ok db'" using ok db' by (simp add: vdb_ok_def passes_ok_def pass_keys_ok_def)
  moreover have "recorded_history job db'" using hist unfolding recorded_history_def history_same [OF db'] .
  ultimately show ?thesis using start r' by (intro exI [of _ "(db', rows)"]) auto
qed

lemma start_idle:
  assumes "resolveJobInputs fld chk cfg job [] False (fst st) = Inr r" "sr_sets r = []"
  shows "startBuild fld chk cfg job (fresh_run run) st = Inr ([], st, None)"
  using assms by (simp add: startBuild_def fresh_run_def oneBuild_def resumeInputSets_def rerunInputSets_def takeBuild_def)

text \<open>Claims of one job, one after another, each its own run; what they build, in order.\<close>

fun run_backlog :: "(version \<Rightarrow> string \<Rightarrow> string option) \<Rightarrow> (string \<Rightarrow> string + version list) \<Rightarrow> res_config \<Rightarrow> job_plan
    \<Rightarrow> string list \<Rightarrow> version_db \<times> run_input list \<Rightarrow> input_set list" where
  "run_backlog fld chk cfg job [] st = []"
| "run_backlog fld chk cfg job (run # runs) st =
     (case startBuild fld chk cfg job (fresh_run run) st of
        Inl e \<Rightarrow> []
      | Inr (bound, st', _) \<Rightarrow> bound @ run_backlog fld chk cfg job runs st')"

lemma backlog_drains:
  assumes "vdb_ok (fst st)" "distinct (map gs_get (gets_of (jp_plan job)))"
    and "\<exists>s \<in> set (gets_of (jp_plan job)). VersionEvery s" "recorded_history job (fst st)"
    and "resolveJobInputs fld chk cfg job [] False (fst st) = Inr r"
    and "length (sr_sets r) \<le> length runs"
  shows "run_backlog fld chk cfg job runs st = sr_sets r"
  using assms
proof (induction runs arbitrary: st r)
  case Nil
  then show ?case by simp
next
  case (Cons run runs)
  show ?case
  proof (cases "sr_sets r")
    case Nil
    have "run_backlog fld chk cfg job runs st = sr_sets r"
      using Cons.IH [OF Cons.prems(1-5)] Nil by simp
    then show ?thesis using start_idle [OF Cons.prems(5) Nil] Nil by simp
  next
    case sets: (Cons bound rest)
    obtain st' r' where "startBuild fld chk cfg job (fresh_run run) st = Inr ([bound], st', if rest = [] then None else Some (length rest))"
      and next': "resolveJobInputs fld chk cfg job [] False (fst st') = Inr r'" "sr_sets r' = rest" "vdb_ok (fst st')" "recorded_history job (fst st')"
      using one_build [OF Cons.prems(1-5) sets, of run] by blast
    moreover have "run_backlog fld chk cfg job runs st' = rest"
      using Cons.IH [OF next'(3) Cons.prems(2,3) next'(4,1)] next'(2) Cons.prems(6) sets by simp
    ultimately show ?thesis using sets by simp
  qed
qed

definition recorded_every :: "job_plan \<Rightarrow> version_db \<Rightarrow> bool" where
  "recorded_every job db = (distinct (map gs_get (filter (\<lambda>s. gs_get s \<noteq> []) (jp_plan job)))
     \<and> list_ex (\<lambda>s. gs_get s \<noteq> [] \<and> VersionEvery s) (jp_plan job)
     \<and> list_all (\<lambda>s. gs_get s \<noteq> [] \<and> VersionEvery s \<longrightarrow>
          history_get (loadResourceHistory job db) (GetResourceName s) \<noteq> None) (jp_plan job))"

lemma recorded_everyD:
  assumes "recorded_every job db"
  shows "distinct (map gs_get (gets_of (jp_plan job)))" "\<exists>s \<in> set (gets_of (jp_plan job)). VersionEvery s" "recorded_history job db"
  using assms by (auto simp: recorded_every_def gets_of_def recorded_history_def list_ex_iff list_all_iff)

text \<open>C30: A run's input sets pair the fanning gets in lockstep. There is one set per version of the get with
  the longest backlog; each fanning get walks its untaken versions oldest first and holds, once they run
  out, at the last of them, or at the version its cursor already covers when it had none; every other get
  binds its one version in all of them; and each set binds every get of the plan exactly once.\<close>

theorem sets_are_lockstep:
  fixes fld :: "version \<Rightarrow> string \<Rightarrow> string option" and chk :: "string \<Rightarrow> string + version list" and cfg :: res_config
    and job :: job_plan and reopen :: bool and db :: version_db
  assumes "resolveJobInputs fld chk cfg job [] reopen db = Inr r" "sr_sets r \<noteq> []"
  defines "gs \<equiv> filter (\<lambda>s. gs_get s \<noteq> []) (jp_plan job)"
  assumes "distinct (map gs_get gs)" "filter VersionEvery gs \<noteq> []"
  defines "cur \<equiv> loadVersionCursor job (\<not> reopen) db" and "hist \<equiv> loadResourceHistory job db"
  shows "\<exists>U. (\<forall>s \<in> set gs. \<exists>found. ResolveVersions fld chk cfg s [] (history_get hist) = Inr (GetResourceName s, found)
        \<and> (if VersionEvery s then U s = filter (\<lambda>v. \<not> cursor_has cur (GetResourceName s) v) found else U s = found \<and> length found = 1))
    \<and> length (sr_sets r) = Max ((length \<circ> U) ` set (filter VersionEvery gs))
    \<and> (\<forall>s \<in> set gs. VersionEvery s \<longrightarrow> map (\<lambda>bound. map_of bound (gs_get s)) (sr_sets r)
          = (if U s = [] then replicate (length (sr_sets r)) (heldVersion cur (GetResourceName s) (history_list hist (GetResourceName s)))
             else map Some (U s) @ replicate (length (sr_sets r) - length (U s)) (Some (last (U s)))))
    \<and> (\<forall>s \<in> set gs. \<not> VersionEvery s \<longrightarrow> (\<forall>bound \<in> set (sr_sets r). map_of bound (gs_get s) = Some (last (U s))))
    \<and> (\<forall>bound \<in> set (sr_sets r). set (map fst bound) = gs_get ` set gs \<and> distinct (map fst bound))"
proof -
  let ?R = "answers fld chk cfg job [] reopen db"
  have gs: "gs = gets_of (jp_plan job)" by (simp add: gs_def gets_of_def)
  have char: "all_resolve ?R [] [] gs" "sr_sets r = sets_of ?R [] cur hist gs"
    using assms(1) resolve_char [of job fld chk cfg "[]" reopen db r] assms(4) unfolding gs cur_def hist_def by simp_all
  have every: "filter (fans []) gs = filter VersionEvery gs" by (rule filter_cong) simp_all
  have free: "\<not> blocked ?R [] cur hist gs" and sets: "sr_sets r = map (the_set ?R [] cur hist gs) [0..<widest ?R [] gs]"
    using char(2) assms(2,5) unfolding sets_of_def every by (auto split: if_splits)
  have ans: "?R s = Inr (GetResourceName s, vers_of ?R s) \<and> res_of ?R s = GetResourceName s
      \<and> (\<exists>found. ResolveVersions fld chk cfg s [] (history_get hist) = Inr (GetResourceName s, found)
        \<and> (if VersionEvery s then vers_of ?R s = filter (\<lambda>v. \<not> cursor_has cur (GetResourceName s) v) found
           else vers_of ?R s = found \<and> length found = 1))" if "s \<in> set gs" for s
  proof -
    have "\<exists>res vs. ?R s = Inr (res, vs) \<and> (\<not> fans [] s \<longrightarrow> vs \<noteq> [])"
      using bspec [OF conjunct1 [OF char(1) [unfolded all_resolve_iff]] that] .
    then obtain res vs where R: "?R s = Inr (res, vs)" by (elim exE conjE)
    then have "res_of ?R s = res" "vers_of ?R s = vs" by (simp_all add: res_of_def vers_of_def)
    then have eq: "res_of ?R s = res" "vers_of ?R s = vs" .
    obtain found where res: "res = GetResourceName s"
      and found: "ResolveVersions fld chk cfg s [] (history_get hist) = Inr (res, found)"
      and vs: "vs = (if VersionEvery s then filter (\<lambda>v. \<not> cursor_has cur res v) found else found)"
      and one: "\<not> VersionEvery s \<longrightarrow> (\<exists>v. found = [v])"
      using answer_shape [OF R, folded cur_def hist_def] by blast
    show ?thesis
    proof (intro conjI exI [of _ found])
      show "?R s = Inr (GetResourceName s, vers_of ?R s)" "res_of ?R s = GetResourceName s"
        "ResolveVersions fld chk cfg s [] (history_get hist) = Inr (GetResourceName s, found)"
        using R eq res found by simp_all
      show "if VersionEvery s then vers_of ?R s = filter (\<lambda>v. \<not> cursor_has cur (GetResourceName s) v) found
           else vers_of ?R s = found \<and> length found = 1"
        unfolding eq vs res using one by (cases "VersionEvery s") auto
    qed
  qed
  have len: "length (sr_sets r) = widest ?R [] gs" unfolding sets by simp
  have "\<forall>s \<in> set gs. \<exists>found. ResolveVersions fld chk cfg s [] (history_get hist) = Inr (GetResourceName s, found)
        \<and> (if VersionEvery s then vers_of ?R s = filter (\<lambda>v. \<not> cursor_has cur (GetResourceName s) v) found
           else vers_of ?R s = found \<and> length found = 1)"
    using ans by blast
  moreover have "length (sr_sets r) = Max ((length \<circ> vers_of ?R) ` set (filter VersionEvery gs))"
    unfolding len widest_def every using assms(5) by (subst fold_max_Max) simp_all
  moreover have "\<forall>s \<in> set gs. VersionEvery s \<longrightarrow> map (\<lambda>bound. map_of bound (gs_get s)) (sr_sets r)
      = (if vers_of ?R s = [] then replicate (length (sr_sets r)) (heldVersion cur (GetResourceName s) (history_list hist (GetResourceName s)))
         else map Some (vers_of ?R s) @ replicate (length (sr_sets r) - length (vers_of ?R s)) (Some (last (vers_of ?R s))))"
  proof (intro ballI impI)
    fix s
    assume s: "s \<in> set gs" "VersionEvery s"
    have "held_of ?R cur hist s = heldVersion cur (GetResourceName s) (history_list hist (GetResourceName s))"
      using ans [OF s(1)] by (simp add: held_of_def)
    then show "map (\<lambda>bound. map_of bound (gs_get s)) (sr_sets r)
      = (if vers_of ?R s = [] then replicate (length (sr_sets r)) (heldVersion cur (GetResourceName s) (history_list hist (GetResourceName s)))
         else map Some (vers_of ?R s) @ replicate (length (sr_sets r) - length (vers_of ?R s)) (Some (last (vers_of ?R s))))"
      unfolding len unfolding sets using row_of_sets [OF assms(4) s free] by simp
  qed
  moreover have "\<forall>s \<in> set gs. \<not> VersionEvery s \<longrightarrow> (\<forall>bound \<in> set (sr_sets r). map_of bound (gs_get s) = Some (last (vers_of ?R s)))"
    unfolding sets using the_set_fixed [OF assms(4)] by auto
  moreover have "\<forall>bound \<in> set (sr_sets r). set (map fst bound) = gs_get ` set gs \<and> distinct (map fst bound)"
    unfolding sets using the_set_keys [OF assms(4)] by auto
  ultimately show ?thesis by (intro exI [of _ "vers_of ?R"] conjI)
qed

text \<open>C29: One run builds one set, the oldest, and takes exactly what that set binds: it answers how many sets
  wait behind it, and resolving again over the same history gives precisely those, in the same order.\<close>

theorem one_build_leaves_the_rest:
  assumes "vdb_ok (fst st)" "recorded_every job (fst st)"
    and "resolveJobInputs fld chk cfg job [] False (fst st) = Inr r" "sr_sets r = bound # rest"
  shows "\<exists>st' r'. startBuild fld chk cfg job (fresh_run run) st = Inr ([bound], st', if rest = [] then None else Some (length rest))
    \<and> resolveJobInputs fld chk cfg job [] False (fst st') = Inr r' \<and> sr_sets r' = rest"
  using one_build [OF assms(1) recorded_everyD [OF assms(2)] assms(3,4), of run] by blast

text \<open>C28: Claiming a job until it is idle builds every set of its fan-out once, in order, however many more
  claims follow: no version is built twice and none is left out.\<close>

theorem backlog_is_built_once_in_order:
  assumes "vdb_ok (fst st)" "recorded_every job (fst st)"
    and "resolveJobInputs fld chk cfg job [] False (fst st) = Inr r" "length (sr_sets r) \<le> length runs"
  shows "run_backlog fld chk cfg job runs st = sr_sets r"
  by (rule backlog_drains [OF assms(1) recorded_everyD [OF assms(2)] assms(3,4)])

subsection \<open>A job with two fanning gets\<close>

definition two_watch_db :: version_db where
  "two_watch_db = snd (RecordVersions ''c'' [''c1'', ''c2''] 0 (snd (RecordVersions ''b'' [''b1''] 0
     (snd (RecordVersions ''a'' [''a1'', ''a2'', ''a3''] 0 no_versions)))))"

definition two_watch_gets :: "get_step list" where
  "two_watch_gets =
     [\<lparr>gs_get = ''x'', gs_resource = ''a'', gs_version = VersionText ''every'', gs_passed = []\<rparr>,
      \<lparr>gs_get = ''b'', gs_resource = [], gs_version = VersionText ''every'', gs_passed = []\<rparr>,
      \<lparr>gs_get = ''c'', gs_resource = [], gs_version = NoVersion, gs_passed = []\<rparr>]"

definition two_watch_job :: job_plan where
  "two_watch_job = \<lparr>jp_name = ''deploy'', jp_plan = two_watch_gets, jp_gets = two_watch_gets\<rparr>"

definition two_watch_cfg :: res_config where
  "two_watch_cfg = \<lparr>rc_resources = [(''a'', ''git''), (''b'', ''git''), (''c'', ''git'')], rc_types = [''git'']\<rparr>"

definition no_fld :: "version \<Rightarrow> string \<Rightarrow> string option" where "no_fld v f = None"
definition no_chk :: "string \<Rightarrow> string + version list" where "no_chk res = Inl ''not checked''"

lemma two_watch_ok: "vdb_ok two_watch_db"
  unfolding two_watch_db_def by (intro RecordVersions_ok no_versions_ok)

lemma two_watch_resolves:
  "map_sum (\<lambda>_. ()) sr_sets (resolveJobInputs no_fld no_chk two_watch_cfg two_watch_job [] False two_watch_db)
    = Inr [[(''c'', ''c2''), (''x'', ''a1''), (''b'', ''b1'')], [(''c'', ''c2''), (''x'', ''a2''), (''b'', ''b1'')],
           [(''c'', ''c2''), (''x'', ''a3''), (''b'', ''b1'')]]"
  by code_simp

lemma two_watch_recorded: "recorded_every two_watch_job two_watch_db"
  by code_simp

lemma two_watch_result:
  obtains r where "resolveJobInputs no_fld no_chk two_watch_cfg two_watch_job [] False two_watch_db = Inr r"
    "sr_sets r = [[(''c'', ''c2''), (''x'', ''a1''), (''b'', ''b1'')], [(''c'', ''c2''), (''x'', ''a2''), (''b'', ''b1'')],
           [(''c'', ''c2''), (''x'', ''a3''), (''b'', ''b1'')]]"
  using two_watch_resolves by (cases "resolveJobInputs no_fld no_chk two_watch_cfg two_watch_job [] False two_watch_db") auto

lemma sets_are_lockstep_witness:
  "\<exists>r. resolveJobInputs no_fld no_chk two_watch_cfg two_watch_job [] False two_watch_db = Inr r
     \<and> map (\<lambda>bound. set (map fst bound)) (sr_sets r) = replicate 3 {''x'', ''b'', ''c''}"
proof -
  obtain r where r: "resolveJobInputs no_fld no_chk two_watch_cfg two_watch_job [] False two_watch_db = Inr r"
    "sr_sets r = [[(''c'', ''c2''), (''x'', ''a1''), (''b'', ''b1'')], [(''c'', ''c2''), (''x'', ''a2''), (''b'', ''b1'')],
           [(''c'', ''c2''), (''x'', ''a3''), (''b'', ''b1'')]]" by (rule two_watch_result)
  have ne: "sr_sets r \<noteq> []" using r(2) by simp
  have d: "distinct (map gs_get (filter (\<lambda>s. gs_get s \<noteq> []) (jp_plan two_watch_job)))" by code_simp
  have e: "filter VersionEvery (filter (\<lambda>s. gs_get s \<noteq> []) (jp_plan two_watch_job)) \<noteq> []"
    by (simp add: two_watch_job_def two_watch_gets_def VersionEvery_def)
  have g: "gs_get ` set (filter (\<lambda>s. gs_get s \<noteq> []) (jp_plan two_watch_job)) = {''x'', ''b'', ''c''}"
    by (auto simp: two_watch_job_def two_watch_gets_def)
  have "\<forall>bound \<in> set (sr_sets r). set (map fst bound) = gs_get ` set (filter (\<lambda>s. gs_get s \<noteq> []) (jp_plan two_watch_job))
      \<and> distinct (map fst bound)"
    using sets_are_lockstep [OF r(1) ne d e] by (elim exE conjE)
  then have "\<forall>bound \<in> set (sr_sets r). set (map fst bound) = {''x'', ''b'', ''c''}" unfolding g by blast
  then have "map (\<lambda>bound. set (map fst bound)) (sr_sets r) = replicate (length (sr_sets r)) {''x'', ''b'', ''c''}"
    by (intro replicate_eqI) auto
  moreover have "length (sr_sets r) = 3" using r(2) by simp
  ultimately show ?thesis using r(1) by (intro exI [of _ r]) simp
qed

lemma one_build_leaves_the_rest_witness:
  "\<exists>st'. startBuild no_fld no_chk two_watch_cfg two_watch_job (fresh_run ''run-1'') (two_watch_db, [])
     = Inr ([[(''c'', ''c2''), (''x'', ''a1''), (''b'', ''b1'')]], st', Some 2)"
proof -
  obtain r where r: "resolveJobInputs no_fld no_chk two_watch_cfg two_watch_job [] False two_watch_db = Inr r"
    "sr_sets r = [[(''c'', ''c2''), (''x'', ''a1''), (''b'', ''b1'')], [(''c'', ''c2''), (''x'', ''a2''), (''b'', ''b1'')],
           [(''c'', ''c2''), (''x'', ''a3''), (''b'', ''b1'')]]" by (rule two_watch_result)
  show ?thesis
    using one_build_leaves_the_rest [of "(two_watch_db, [])" two_watch_job no_fld no_chk two_watch_cfg r, OF _ _ _ r(2), of "''run-1''"]
      two_watch_ok two_watch_recorded r(1) by auto
qed

lemma backlog_is_built_once_in_order_witness:
  "run_backlog no_fld no_chk two_watch_cfg two_watch_job [''1'', ''2'', ''3'', ''4''] (two_watch_db, [])
   = [[(''c'', ''c2''), (''x'', ''a1''), (''b'', ''b1'')], [(''c'', ''c2''), (''x'', ''a2''), (''b'', ''b1'')],
      [(''c'', ''c2''), (''x'', ''a3''), (''b'', ''b1'')]]"
proof -
  obtain r where r: "resolveJobInputs no_fld no_chk two_watch_cfg two_watch_job [] False two_watch_db = Inr r"
    "sr_sets r = [[(''c'', ''c2''), (''x'', ''a1''), (''b'', ''b1'')], [(''c'', ''c2''), (''x'', ''a2''), (''b'', ''b1'')],
           [(''c'', ''c2''), (''x'', ''a3''), (''b'', ''b1'')]]" by (rule two_watch_result)
  show ?thesis
    using backlog_is_built_once_in_order [of "(two_watch_db, [])" two_watch_job no_fld no_chk two_watch_cfg r "[''1'', ''2'', ''3'', ''4'']"]
      two_watch_ok two_watch_recorded r by simp
qed

end
