(* ===== verification/Routing.thy ===== *)
theory Routing
  imports Outcome "HOL-Library.List_Lexorder" "HOL-Library.Char_ord"
begin

text \<open>
  Step transitions: \<^verbatim>\<open>internal/config/route.go\<close>, \<^verbatim>\<open>verdict.go\<close> and the kinds of
  \<^verbatim>\<open>stepkind.go\<close> at load time, and \<^verbatim>\<open>internal/pipeline/route.go\<close> at run time.

  A step is its routing-relevant fields. \<open>st_other\<close> lists the remaining kind keys a step may set
  (in_parallel, race, load_var, approval, do); \<open>st_ensemble\<close> holds the block's verdict list. A Go map
  is an association list without repeated keys, and an absent one is \<open>None\<close>.
\<close>

record verdict_route =
  vt_name :: string
  vt_target :: string

datatype route_step = RouteStep
  (st_label: string)
  (st_get: string)
  (st_task: string)
  (st_put: string)
  (st_agent: string)
  (st_try: "route_step option")
  (st_ensemble: "verdict_route list option")
  (st_other: "string list")
  (st_to: "(string \<times> string) list option")
  (st_max_visits: int)
  (st_verdicts: "verdict_route list")

subsection \<open>Kinds and names\<close>

datatype step_kind = KGet | KTask | KPut | KAgent | KTry | KEnsemble | KOther string

definition kinds_set :: "route_step \<Rightarrow> step_kind list" where
  "kinds_set s =
     (if st_get s \<noteq> [] then [KGet] else []) @ (if st_task s \<noteq> [] then [KTask] else [])
     @ (if st_put s \<noteq> [] then [KPut] else []) @ (if st_agent s \<noteq> [] then [KAgent] else [])
     @ (if st_try s \<noteq> None then [KTry] else []) @ (if st_ensemble s \<noteq> None then [KEnsemble] else [])
     @ map KOther (st_other s)"

definition step_Kind :: "route_step \<Rightarrow> step_kind option" where
  "step_Kind s = (case kinds_set s of [k] \<Rightarrow> Some k | _ \<Rightarrow> None)"

lemma try_smaller: "st_try s = Some t \<Longrightarrow> size t < size s"
  by (cases s) auto

function Unwrap :: "route_step \<Rightarrow> route_step" where
  "Unwrap s = (case st_try s of Some t \<Rightarrow> Unwrap t | None \<Rightarrow> s)"
  by pat_completeness auto
termination by (relation "measure size") (auto simp: try_smaller)

declare Unwrap.simps [simp del]

function stepName :: "route_step \<Rightarrow> string" where
  "stepName s =
     (if st_label s \<noteq> [] then st_label s
      else (case step_Kind s of
              Some KTask \<Rightarrow> st_task s
            | Some KAgent \<Rightarrow> st_agent s
            | Some KPut \<Rightarrow> st_put s
            | Some KTry \<Rightarrow> (case st_try s of Some t \<Rightarrow> stepName t | None \<Rightarrow> [])
            | _ \<Rightarrow> []))"
  by pat_completeness auto
termination by (relation "measure size") (auto simp: try_smaller)

declare stepName.simps [simp del]

subsection \<open>Routes a step declares\<close>

definition VerdictRoutes :: "route_step \<Rightarrow> verdict_route list" where
  "VerdictRoutes s =
     (let inner = Unwrap s in case st_ensemble inner of Some vs \<Rightarrow> vs | None \<Rightarrow> st_verdicts inner)"

definition verdictFailureKey :: string where "verdictFailureKey = ''failure''"
definition RouteTargetNext :: string where "RouteTargetNext = ''next''"
definition maxVisitsLimit :: int where "maxVisitsLimit = 1000"

definition VerdictNames :: "route_step \<Rightarrow> string list" where
  "VerdictNames s = filter (\<lambda>n. n \<noteq> verdictFailureKey) (map vt_name (VerdictRoutes s))"

definition Routes :: "route_step \<Rightarrow> bool" where
  "Routes s = (st_to s \<noteq> None \<or> list_ex (\<lambda>r. vt_target r \<noteq> []) (VerdictRoutes s))"

definition to_map :: "route_step \<Rightarrow> (string \<times> string) list" where
  "to_map s = (case st_to s of None \<Rightarrow> [] | Some m \<Rightarrow> m)"

definition RouteFor :: "route_step \<Rightarrow> string \<Rightarrow> string option" where
  "RouteFor s key =
     (case List.find (\<lambda>r. vt_name r = key) (VerdictRoutes s) of
        Some r \<Rightarrow> (if vt_target r \<noteq> [] then Some (vt_target r) else None)
      | None \<Rightarrow> map_of (to_map s) key)"

definition RouteEntries :: "route_step \<Rightarrow> verdict_route list" where
  "RouteEntries s =
     filter (\<lambda>r. vt_target r \<noteq> []) (VerdictRoutes s)
     @ map (\<lambda>(k, t). \<lparr>vt_name = k, vt_target = t\<rparr>) (sort_key fst (to_map s))"

subsection \<open>Load-time validation\<close>

datatype route_error =
    RoutingOnGet string
  | RoutingOnHook
  | VerdictsOffAgent
  | ToBesideVerdicts
  | EmptyVerdict
  | VerdictSuccess
  | VerdictTwice string
  | FailureUnrouted
  | NamedNext
  | NameTwice string
  | BadToKey nat string
  | UnknownTarget nat string string
  | BackwardUnbounded nat
  | VisitsOverLimit nat int

definition rejectRoutingOnGet :: "route_step \<Rightarrow> route_error option" where
  "rejectRoutingOnGet s =
     (if st_get s \<noteq> [] \<and> (st_to s \<noteq> None \<or> st_max_visits s \<noteq> 0 \<or> st_verdicts s \<noteq> []) then Some (RoutingOnGet (st_get s)) else None)"

definition rejectRoutingOnHook :: "route_step \<Rightarrow> route_error option" where
  "rejectRoutingOnHook s = (if st_to s \<noteq> None \<or> st_verdicts s \<noteq> [] then Some RoutingOnHook else None)"

fun validateVerdictEntries :: "string list \<Rightarrow> verdict_route list \<Rightarrow> route_error option" where
  "validateVerdictEntries declared [] = None"
| "validateVerdictEntries declared (r # rs) =
     (if vt_name r = [] then Some EmptyVerdict
      else if vt_name r = ''success'' then Some VerdictSuccess
      else if vt_name r \<in> set declared then Some (VerdictTwice (vt_name r))
      else if vt_name r = verdictFailureKey \<and> vt_target r = [] then Some FailureUnrouted
      else validateVerdictEntries (vt_name r # declared) rs)"

definition validateVerdictShape :: "route_step \<Rightarrow> route_error option" where
  "validateVerdictShape s =
     (if VerdictRoutes s = [] then None
      else if st_agent (Unwrap s) = [] \<and> st_ensemble (Unwrap s) = None then Some VerdictsOffAgent
      else if st_to s \<noteq> None then Some ToBesideVerdicts
      else validateVerdictEntries [] (VerdictRoutes s))"

text \<open>A segment: the plan's steps with their plan indices. \<open>pos\<close> maps a name to its place in it.\<close>

fun segmentPositions :: "nat \<Rightarrow> (string \<times> nat) list \<Rightarrow> (nat \<times> route_step) list \<Rightarrow> route_error + (string \<times> nat) list" where
  "segmentPositions k pos [] = Inr pos"
| "segmentPositions k pos ((idx, s) # rest) =
     (let name = stepName s in
      if name = [] then segmentPositions (Suc k) pos rest
      else if name = RouteTargetNext then Inl NamedNext
      else if map_of pos name \<noteq> None then Inl (NameTwice name)
      else segmentPositions (Suc k) (pos @ [(name, k)]) rest)"

fun route_targets :: "nat \<Rightarrow> nat \<Rightarrow> (string \<times> nat) list \<Rightarrow> verdict_route list \<Rightarrow> bool \<Rightarrow> route_error + bool" where
  "route_targets idx segPos pos [] backward = Inr backward"
| "route_targets idx segPos pos (e # es) backward =
     (if vt_target e = RouteTargetNext then route_targets idx segPos pos es backward
      else case map_of pos (vt_target e) of
             None \<Rightarrow> Inl (UnknownTarget idx (vt_name e) (vt_target e))
           | Some t \<Rightarrow> route_targets idx segPos pos es (backward \<or> t \<le> segPos))"

definition validateRouteTargets :: "nat \<Rightarrow> nat \<Rightarrow> route_step \<Rightarrow> (string \<times> nat) list \<Rightarrow> route_error option" where
  "validateRouteTargets idx segPos s pos =
     (case route_targets idx segPos pos (RouteEntries s) False of
        Inl e \<Rightarrow> Some e
      | Inr backward \<Rightarrow>
          (if backward \<and> st_max_visits s \<le> 0 then Some (BackwardUnbounded idx)
           else if backward \<and> st_max_visits s > maxVisitsLimit then Some (VisitsOverLimit idx (st_max_visits s))
           else None))"

definition validateStepRouting :: "nat \<Rightarrow> nat \<Rightarrow> route_step \<Rightarrow> (string \<times> nat) list \<Rightarrow> route_error option" where
  "validateStepRouting idx segPos s pos =
     (case (if VerdictRoutes s = [] then List.find (\<lambda>k. k \<notin> {''success'', verdictFailureKey}) (map fst (to_map s)) else None) of
        Some k \<Rightarrow> Some (BadToKey idx k)
      | None \<Rightarrow> validateRouteTargets idx segPos s pos)"

definition validateSegment :: "(nat \<times> route_step) list \<Rightarrow> route_error option" where
  "validateSegment seg =
     (if \<not> list_ex (\<lambda>(i, s). Routes s) seg then None
      else case segmentPositions 0 [] seg of
             Inl e \<Rightarrow> Some e
           | Inr pos \<Rightarrow> first_some (\<lambda>(k, i, s). validateStepRouting i k s pos) (zip [0..<length seg] seg))"

text \<open>The maximal runs of steps between gets.\<close>

fun segments :: "(nat \<times> route_step) list \<Rightarrow> (nat \<times> route_step) list \<Rightarrow> (nat \<times> route_step) list list" where
  "segments cur [] = (if cur = [] then [] else [cur])"
| "segments cur ((i, s) # rest) =
     (if st_get s \<noteq> [] then (if cur = [] then [] else [cur]) @ segments [] rest
      else segments (cur @ [(i, s)]) rest)"

record route_job =
  rj_plan :: "route_step list"
  rj_steps :: "route_step list"
  rj_hooks :: "route_step list"

definition validatePlanSegments :: "route_job \<Rightarrow> route_error option" where
  "validatePlanSegments job = first_some validateSegment (segments [] (zip [0..<length (rj_plan job)] (rj_plan job)))"

definition validateStepTransitions :: "route_job list \<Rightarrow> route_error option" where
  "validateStepTransitions jobs = first_some (\<lambda>job.
     case first_some rejectRoutingOnGet (rj_steps job) of Some e \<Rightarrow> Some e | None \<Rightarrow>
     (case first_some validateVerdictShape (rj_steps job) of Some e \<Rightarrow> Some e | None \<Rightarrow>
      (case first_some rejectRoutingOnHook (rj_hooks job) of Some e \<Rightarrow> Some e | None \<Rightarrow>
       validatePlanSegments job))) jobs"

subsection \<open>Transitions of a run\<close>

definition outcomeKey :: "go_ctx \<Rightarrow> go_error \<Rightarrow> string \<Rightarrow> string option" where
  "outcomeKey ctx err verdict =
     (if verdict \<noteq> [] then Some verdict
      else case Classify ctx err of
             Succeeded \<Rightarrow> Some ''success'' | Failed \<Rightarrow> Some ''failure'' | Errored \<Rightarrow> None | Aborted \<Rightarrow> None)"

fun indexOf_from :: "nat \<Rightarrow> route_step list \<Rightarrow> string \<Rightarrow> nat option" where
  "indexOf_from k [] name = None"
| "indexOf_from k (s # ss) name = (if stepName s = name then Some k else indexOf_from (Suc k) ss name)"

definition indexOfStep :: "route_step list \<Rightarrow> string \<Rightarrow> nat option" where
  "indexOfStep steps name = indexOf_from 0 steps name"

datatype disposition = StepRan | GuardSkipped | ChainSkipped | CacheHit | Resumed

datatype transition = Stay | Jump nat string | Exhausted gerr

definition visits_error :: "route_step \<Rightarrow> gerr" where
  "visits_error s = Failure (Wrapf ''step exceeded max_visits'' [Leaf (Msg (stepName s))])"

definition resolveTransition :: "go_ctx \<Rightarrow> route_step list \<Rightarrow> nat \<Rightarrow> route_step \<Rightarrow> go_error \<Rightarrow> string
    \<Rightarrow> (nat \<Rightarrow> nat) \<Rightarrow> transition" where
  "resolveTransition ctx steps i s err verdict visits =
     (if \<not> Routes s then Stay
      else case outcomeKey ctx err verdict of
        None \<Rightarrow> Stay
      | Some key \<Rightarrow>
          (case RouteFor s key of
             None \<Rightarrow> Stay
           | Some target \<Rightarrow>
               (if target = RouteTargetNext then Jump (i + 1) key
                else case indexOfStep steps target of
                       None \<Rightarrow> Stay
                     | Some t \<Rightarrow>
                         (if t \<le> i \<and> int (visits i) \<ge> st_max_visits s then Exhausted (visits_error s)
                          else Jump t key))))"

definition routes_now :: "route_step \<Rightarrow> disposition \<Rightarrow> string \<Rightarrow> bool" where
  "routes_now s d verdict = (Routes s \<and> (d = StepRan \<or> d = Resumed \<and> verdict \<noteq> []))"

text \<open>The next index and the error the walk carries on with, or the error that ends the job.\<close>

definition applyRouting :: "go_ctx \<Rightarrow> route_step list \<Rightarrow> nat \<Rightarrow> route_step \<Rightarrow> disposition \<Rightarrow> string \<Rightarrow> go_error
    \<Rightarrow> (nat \<Rightarrow> nat) \<Rightarrow> gerr + nat \<times> go_error" where
  "applyRouting ctx steps i s d verdict err visits =
     (if \<not> routes_now s d verdict then Inr (i + 1, err)
      else case resolveTransition ctx steps i s err verdict visits of
             Exhausted e \<Rightarrow> Inl e
           | Jump t key \<Rightarrow> Inr (t, None)
           | Stay \<Rightarrow> Inr (i + 1, err))"

definition toleratedByTry :: "go_ctx \<Rightarrow> go_error \<Rightarrow> bool" where
  "toleratedByTry ctx err = (err \<noteq> None \<and> Classify ctx err \<noteq> Aborted)"

definition tolerateTryFailure :: "go_ctx \<Rightarrow> route_step \<Rightarrow> go_error \<Rightarrow> go_error" where
  "tolerateTryFailure ctx s err = (if err = None \<or> st_try s = None \<or> \<not> toleratedByTry ctx err then err else None)"

end
