(* ===== verification/PlanWalk.thy ===== *)
theory PlanWalk
  imports Routing
begin

text \<open>
  The plan walk of \<^verbatim>\<open>internal/pipeline/walk.go\<close>, with the in-place get of \<^verbatim>\<open>get.go\<close>, the
  deadline of \<^verbatim>\<open>deadline.go\<close> and the resume record of \<^verbatim>\<open>resume.go\<close>.

  What running a step does is the environment's: \<open>en_run i k\<close> is what the \<open>k\<close>-th pass through the step
  at index \<open>i\<close> answers (each pair happens at most once in a walk, so any run is such a choice),
  \<open>en_fetch\<close> what a get answers, \<open>en_late\<close> whether the job's deadline has passed at a turn. A walk
  stops where the code returns.
\<close>

record step_outcome =
  so_disposition :: disposition
  so_hash :: string
  so_verdict :: string
  so_err :: go_error

datatype fetch_outcome = FetchFailed gerr | FetchSkipped | Fetched string

record walk_env =
  en_ctx :: "nat \<Rightarrow> go_ctx"
  en_late :: "nat \<Rightarrow> bool"
  en_fetch :: "nat \<Rightarrow> nat \<Rightarrow> fetch_outcome"
  en_run :: "nat \<Rightarrow> nat \<Rightarrow> step_outcome"
  en_unskip :: "nat \<Rightarrow> gerr + bool"

record run_step =
  rn_build :: string
  rn_index :: nat
  rn_visit :: nat
  rn_name :: string
  rn_hash :: string
  rn_outcome :: string

record planWalk =
  wk_index :: nat
  wk_visits :: "nat \<Rightarrow> nat"
  wk_passes :: "nat \<Rightarrow> nat"
  wk_parent :: string
  wk_unskip :: bool
  wk_rows :: "run_step list"
  wk_turns :: nat

datatype walk_end = WalkOk | WalkErr gerr | WalkSkippedChain | WalkTriggers nat

definition start_walk :: "string \<Rightarrow> planWalk" where
  "start_walk parent = \<lparr>wk_index = 0, wk_visits = (\<lambda>_. 0), wk_passes = (\<lambda>_. 0), wk_parent = parent,
     wk_unskip = False, wk_rows = [], wk_turns = 0\<rparr>"

subsection \<open>The resume record\<close>

type_synonym done_map = "string \<times> nat \<times> nat \<Rightarrow> run_step option"

definition foldRunSteps :: "run_step list \<Rightarrow> done_map" where
  "foldRunSteps rows = map_of (rev (map (\<lambda>r. ((rn_build r, rn_index r, rn_visit r), r)) rows))"

text \<open>\<open>None\<close>: a run that resumes nothing.\<close>

definition alreadyDone :: "done_map option \<Rightarrow> string \<Rightarrow> nat \<Rightarrow> nat \<Rightarrow> run_step option" where
  "alreadyDone resume build i visit = (case resume of None \<Rightarrow> None | Some finished \<Rightarrow> finished (build, i, visit))"

definition spendsVisit :: "step_outcome \<Rightarrow> bool" where
  "spendsVisit r = (case so_disposition r of
     StepRan \<Rightarrow> True | CacheHit \<Rightarrow> True | Resumed \<Rightarrow> so_verdict r \<noteq> [] | ChainSkipped \<Rightarrow> False | GuardSkipped \<Rightarrow> False)"

definition recordableOutcome :: "go_ctx \<Rightarrow> step_outcome \<Rightarrow> string" where
  "recordableOutcome ctx r =
     (if so_disposition r \<noteq> StepRan \<and> so_disposition r \<noteq> CacheHit then []
      else case outcomeKey ctx (so_err r) (so_verdict r) of None \<Rightarrow> [] | Some k \<Rightarrow> k)"

definition skipCompleted :: "done_map option \<Rightarrow> string \<Rightarrow> nat \<Rightarrow> nat \<Rightarrow> step_outcome option" where
  "skipCompleted resume build i pass =
     (case alreadyDone resume build i pass of
        None \<Rightarrow> None
      | Some r \<Rightarrow> Some \<lparr>so_disposition = Resumed, so_hash = rn_hash r, so_verdict = rn_outcome r, so_err = None\<rparr>)"

definition recordCompletedStep :: "string \<Rightarrow> nat \<Rightarrow> nat \<Rightarrow> route_step \<Rightarrow> string \<Rightarrow> string \<Rightarrow> run_step" where
  "recordCompletedStep build i pass s hash out =
     \<lparr>rn_build = build, rn_index = i, rn_visit = pass, rn_name = stepName s, rn_hash = hash, rn_outcome = out\<rparr>"

subsection \<open>One turn\<close>

definition runStep :: "walk_env \<Rightarrow> done_map option \<Rightarrow> string \<Rightarrow> route_step list \<Rightarrow> planWalk \<Rightarrow> walk_end + planWalk" where
  "runStep en resume build steps w =
     (let i = wk_index w; s = steps ! i; ctx = en_ctx en (wk_turns w);
          pass = wk_passes w i + 1;
          replay = skipCompleted resume build i pass;
          res = (case replay of Some r \<Rightarrow> r | None \<Rightarrow> en_run en i pass);
          visits = (if spendsVisit res then (wk_visits w)(i := wk_visits w i + 1) else wk_visits w) in
      case applyRouting ctx steps i s (so_disposition res) (so_verdict res) (so_err res) visits of
        Inl e \<Rightarrow> Inl (WalkErr e)
      | Inr (nextIndex, err) \<Rightarrow>
          (case tolerateTryFailure ctx s err of
             Some e \<Rightarrow> Inl (WalkErr e)
           | None \<Rightarrow>
               (if so_disposition res = ChainSkipped then Inl WalkSkippedChain
                else case en_unskip en i of
                       Inl e \<Rightarrow> Inl (WalkErr e)
                     | Inr u \<Rightarrow>
                         Inr (w\<lparr>wk_index := nextIndex, wk_visits := visits,
                                wk_passes := (wk_passes w)(i := pass),
                                wk_parent := (if so_hash res \<noteq> [] then so_hash res else wk_parent w),
                                wk_unskip := wk_unskip w \<or> u,
                                wk_rows := (if replay = None
                                  then wk_rows w @ [recordCompletedStep build i pass s (so_hash res) (recordableOutcome ctx res)]
                                  else wk_rows w),
                                wk_turns := wk_turns w + 1\<rparr>))))"

definition fetchInPlace :: "walk_env \<Rightarrow> planWalk \<Rightarrow> walk_end + planWalk" where
  "fetchInPlace en w =
     (case en_fetch en (wk_turns w) (wk_index w) of
        FetchFailed e \<Rightarrow> Inl (WalkErr e)
      | FetchSkipped \<Rightarrow> Inl WalkSkippedChain
      | Fetched h \<Rightarrow> Inr (w\<lparr>wk_index := wk_index w + 1, wk_parent := (if h \<noteq> [] then h else wk_parent w), wk_turns := wk_turns w + 1\<rparr>))"

definition deadline_error :: gerr where
  "deadline_error = Failure (Leaf (Msg ''job exceeded its timeout''))"

definition walk_turn :: "walk_env \<Rightarrow> done_map option \<Rightarrow> string \<Rightarrow> bool \<Rightarrow> route_step list \<Rightarrow> planWalk \<Rightarrow> walk_end + planWalk" where
  "walk_turn en resume build allowGetTrigger steps w =
     (if en_late en (wk_turns w) then Inl (WalkErr deadline_error)
      else if step_Kind (steps ! wk_index w) = Some KGet
      then (if allowGetTrigger then Inl (WalkTriggers (wk_index w)) else fetchInPlace en w)
      else runStep en resume build steps w)"

subsection \<open>Why the walk ends\<close>

text \<open>The visits a plan's routes have left.\<close>

definition visits_left :: "route_step list \<Rightarrow> (nat \<Rightarrow> nat) \<Rightarrow> nat" where
  "visits_left steps visits = (\<Sum>i<length steps. nat (st_max_visits (steps ! i)) - visits i)"

lemma visits_left_mono: "(\<And>i. visits i \<le> visits' i) \<Longrightarrow> visits_left steps visits' \<le> visits_left steps visits"
  unfolding visits_left_def by (intro sum_mono diff_le_mono2) simp

lemma visits_left_drop:
  assumes "i < length steps" "int (visits i + 1) < st_max_visits (steps ! i)"
  shows "visits_left steps (visits(i := visits i + 1)) < visits_left steps visits"
proof -
  have "(\<Sum>j<length steps. nat (st_max_visits (steps ! j)) - (visits(i := visits i + 1)) j)
      < (\<Sum>j<length steps. nat (st_max_visits (steps ! j)) - visits j)"
    by (rule sum_strict_mono_ex1) (use assms in \<open>auto intro!: bexI [of _ i]\<close>)
  then show ?thesis by (simp add: visits_left_def)
qed

lemma applyRouting_next:
  assumes "applyRouting ctx steps i s d verdict err visits = Inr (n, err')"
  shows "n = i + 1 \<or> i < n \<or> (routes_now s d verdict \<and> n \<le> i \<and> int (visits i) < st_max_visits s)"
  using assms by (auto simp: applyRouting_def resolveTransition_def split: if_splits option.splits)

lemma routing_spends: "routes_now s d verdict \<Longrightarrow> so_disposition r = d \<Longrightarrow> so_verdict r = verdict \<Longrightarrow> spendsVisit r"
  by (auto simp: routes_now_def spendsVisit_def)

lemma turn_progress:
  assumes "walk_turn en resume build allow steps w = Inr w'" "wk_index w < length steps"
  shows "wk_turns w' = wk_turns w + 1
    \<and> visits_left steps (wk_visits w') \<le> visits_left steps (wk_visits w)
    \<and> (wk_index w < wk_index w' \<or> visits_left steps (wk_visits w') < visits_left steps (wk_visits w))"
proof (cases "step_Kind (steps ! wk_index w) = Some KGet")
  case True
  then show ?thesis
    using assms(1) by (auto simp: walk_turn_def fetchInPlace_def split: if_splits fetch_outcome.splits)
next
  case False
  let ?i = "wk_index w"
  let ?s = "steps ! ?i"
  define res where "res = (case skipCompleted resume build ?i (wk_passes w ?i + 1) of Some r \<Rightarrow> r | None \<Rightarrow> en_run en ?i (wk_passes w ?i + 1))"
  define visits where "visits = (if spendsVisit res then (wk_visits w)(?i := wk_visits w ?i + 1) else wk_visits w)"
  have "runStep en resume build steps w = Inr w'" using assms(1) False by (simp add: walk_turn_def split: if_splits)
  then obtain n err where route: "applyRouting (en_ctx en (wk_turns w)) steps ?i ?s (so_disposition res) (so_verdict res) (so_err res) visits = Inr (n, err)"
    and w': "wk_index w' = n" "wk_visits w' = visits" "wk_turns w' = wk_turns w + 1"
    unfolding runStep_def Let_def res_def [symmetric] visits_def [symmetric]
    by (auto split: sum.splits prod.splits option.splits if_splits)
  have mono: "visits_left steps visits \<le> visits_left steps (wk_visits w)"
    unfolding visits_def by (intro visits_left_mono) simp
  consider "?i < n" | "routes_now ?s (so_disposition res) (so_verdict res)" "int (visits ?i) < st_max_visits ?s"
    using applyRouting_next [OF route] by fastforce
  then show ?thesis
  proof cases
    case 1
    then show ?thesis using w' mono by simp
  next
    case 2
    then have "visits = (wk_visits w)(?i := wk_visits w ?i + 1)" using routing_spends unfolding visits_def by simp
    then have "visits_left steps visits < visits_left steps (wk_visits w)"
      using visits_left_drop [OF assms(2), of "wk_visits w"] 2(2) by simp
    then show ?thesis using w' mono by simp
  qed
qed

text \<open>The whole walk. It is total for every plan and every environment: a jump back costs a visit of a step
  that has visits left, and everything else moves forward.\<close>

function runSteps :: "walk_env \<Rightarrow> done_map option \<Rightarrow> string \<Rightarrow> bool \<Rightarrow> route_step list \<Rightarrow> planWalk \<Rightarrow> walk_end \<times> planWalk" where
  "runSteps en resume build allow steps w =
     (if wk_index w < length steps
      then (case walk_turn en resume build allow steps w of
              Inl e \<Rightarrow> (e, w)
            | Inr w' \<Rightarrow> runSteps en resume build allow steps w')
      else (if en_late en (wk_turns w) then WalkErr deadline_error else WalkOk, w))"
  by pat_completeness auto
termination
proof (relation "measures [\<lambda>(en, resume, build, allow, steps, w). visits_left steps (wk_visits w),
      \<lambda>(en, resume, build, allow, steps, w). length steps - wk_index w]")
  fix en resume build allow steps w w'
  assume "wk_index w < length steps" "walk_turn en resume build allow steps w = Inr w'"
  then show "((en, resume, build, allow, steps, w'), en, resume, build, allow, steps, w)
      \<in> measures [\<lambda>(en, resume, build, allow, steps, w). visits_left steps (wk_visits w),
      \<lambda>(en, resume, build, allow, steps, w). length steps - wk_index w]"
    using turn_progress [of en resume build allow steps w w'] by auto
qed simp

declare runSteps.simps [simp del]

end
