(* ===== verification/PlanWalkProps.thy ===== *)
theory PlanWalkProps
  imports PlanWalk
begin

text \<open>
  What the walk promises: it ends, within a bound its plan's \<open>max_visits\<close> give; a route that was legal at
  load resolves at run time to the step it named there; and a resumed walk replays its record to the
  point the first attempt stopped at.
\<close>

subsection \<open>The bound\<close>

definition walk_potential :: "route_step list \<Rightarrow> planWalk \<Rightarrow> nat" where
  "walk_potential steps w = visits_left steps (wk_visits w) * length steps + (length steps - wk_index w)"

lemma turn_potential:
  assumes "walk_turn en resume build allow steps w = Inr w'" "wk_index w < length steps"
  shows "walk_potential steps w' < walk_potential steps w"
proof -
  let ?n = "length steps"
  note p = turn_progress [OF assms]
  show ?thesis
  proof (cases "visits_left steps (wk_visits w') < visits_left steps (wk_visits w)")
    case True
    then have "(visits_left steps (wk_visits w') + 1) * ?n \<le> visits_left steps (wk_visits w) * ?n"
      by (intro mult_right_mono) simp_all
    then show ?thesis using assms(2) unfolding walk_potential_def by simp
  next
    case False
    then have "visits_left steps (wk_visits w') = visits_left steps (wk_visits w)" "wk_index w < wk_index w'" using p by simp_all
    then show ?thesis using assms(2) unfolding walk_potential_def by simp
  qed
qed

lemma walk_turns_bounded:
  "wk_turns (snd (runSteps en resume build allow steps w)) \<le> wk_turns w + walk_potential steps w"
proof (induction en resume build allow steps w rule: runSteps.induct)
  case (1 en resume build allow steps w)
  show ?case
  proof (cases "wk_index w < length steps")
    case True
    show ?thesis
    proof (cases "walk_turn en resume build allow steps w")
      case (Inl e)
      then show ?thesis using True by (subst runSteps.simps) simp
    next
      case (Inr w')
      have "wk_turns (snd (runSteps en resume build allow steps w')) \<le> wk_turns w' + walk_potential steps w'"
        using 1 [OF True Inr] .
      then show ?thesis
        using True Inr turn_potential [OF Inr True] turn_progress [OF Inr True] by (subst runSteps.simps) simp
    qed
  next
    case False
    then show ?thesis by (subst runSteps.simps) simp
  qed
qed

text \<open>C24: A walk over a plan ends whatever its steps do, and takes at most as many turns as the plan is long,
  once more for every visit its steps' \<open>max_visits\<close> allow: no chain of routes, verdicts, retried loops or
  replayed passes runs longer.\<close>

theorem walk_ends_within_its_visits:
  "wk_turns (snd (runSteps en resume build allow steps (start_walk parent)))
    \<le> (1 + (\<Sum>s\<leftarrow>steps. nat (st_max_visits s))) * length steps"
proof -
  have "visits_left steps (\<lambda>_. 0) = (\<Sum>s\<leftarrow>steps. nat (st_max_visits s))"
    by (simp add: visits_left_def sum_list_sum_nth atLeast0LessThan)
  then show ?thesis
    using walk_turns_bounded [of en resume build allow steps "start_walk parent"]
    by (simp add: walk_potential_def start_walk_def algebra_simps)
qed

subsection \<open>Load time and run time\<close>

lemma segmentPositions_char:
  assumes "segmentPositions k pos seg = Inr pos'" "\<forall>n t. map_of pos n = Some t \<longrightarrow> n \<noteq> []"
  shows "(\<forall>n. map_of pos n \<noteq> None \<longrightarrow> map_of pos' n = map_of pos n)
    \<and> (\<forall>n. n \<noteq> [] \<longrightarrow> map_of pos n = None \<longrightarrow> map_of pos' n = indexOf_from k (map snd seg) n)
    \<and> map_of pos' [] = None \<and> (\<forall>(i, s) \<in> set seg. stepName s \<noteq> RouteTargetNext)"
  using assms
proof (induction k pos seg rule: segmentPositions.induct)
  case (1 k pos)
  then show ?case by (auto simp: option.expand)
next
  case (2 k pos idx s rest)
  let ?name = "stepName s"
  show ?case
  proof (cases "?name = []")
    case True
    then have "segmentPositions (Suc k) pos rest = Inr pos'" using 2(3) by simp
    note IH = 2(1) [OF refl True this 2(4)]
    show ?thesis using IH True by (auto simp: RouteTargetNext_def)
  next
    case False
    have nxt: "?name \<noteq> RouteTargetNext" and fresh: "map_of pos ?name = None"
      and rest: "segmentPositions (Suc k) (pos @ [(?name, k)]) rest = Inr pos'"
      using 2(3) False by (auto simp: Let_def split: if_splits)
    have more: "map_of (pos @ [(?name, k)]) n = (case map_of pos n of Some t \<Rightarrow> Some t | None \<Rightarrow> if n = ?name then Some k else None)" for n
      by (auto simp: map_add_def split: option.split)
    have "\<forall>n t. map_of (pos @ [(?name, k)]) n = Some t \<longrightarrow> n \<noteq> []"
      using 2(4) False unfolding more by (auto split: option.splits if_splits)
    note IH = 2(2) [OF refl False nxt _ rest this]
    have IH': "(\<forall>n. map_of (pos @ [(?name, k)]) n \<noteq> None \<longrightarrow> map_of pos' n = map_of (pos @ [(?name, k)]) n)
      \<and> (\<forall>n. n \<noteq> [] \<longrightarrow> map_of (pos @ [(?name, k)]) n = None \<longrightarrow> map_of pos' n = indexOf_from (Suc k) (map snd rest) n)
      \<and> map_of pos' [] = None \<and> (\<forall>(i, s) \<in> set rest. stepName s \<noteq> RouteTargetNext)"
      using IH fresh by simp
    have a: "map_of pos' n = map_of pos n" if "map_of pos n \<noteq> None" for n
      using conjunct1 [OF IH'] that unfolding more by (auto split: option.splits)
    have b: "map_of pos' n = indexOf_from k (map snd ((idx, s) # rest)) n" if "n \<noteq> []" "map_of pos n = None" for n
      using IH' that unfolding more by (cases "n = ?name") auto
    show ?thesis using a b IH' nxt by auto
  qed
qed

lemma route_targets_char:
  assumes "route_targets idx segPos pos es bk = Inr b"
  shows "(\<forall>e \<in> set es. vt_target e = RouteTargetNext \<or> (\<exists>t. map_of pos (vt_target e) = Some t \<and> (t \<le> segPos \<longrightarrow> b)))
    \<and> (bk \<longrightarrow> b)"
  using assms
  by (induction idx segPos pos es bk rule: route_targets.induct) (auto split: if_splits option.splits)

lemma RouteFor_entry:
  assumes "RouteFor s key = Some target"
  shows "\<exists>e \<in> set (RouteEntries s). vt_target e = target"
proof (cases "List.find (\<lambda>r. vt_name r = key) (VerdictRoutes s)")
  case None
  then have "map_of (to_map s) key = Some target" using assms(1) by (simp add: RouteFor_def)
  then have "(key, target) \<in> set (to_map s)" by (rule map_of_SomeD)
  then have "\<lparr>vt_name = key, vt_target = target\<rparr> \<in> set (RouteEntries s)" by (auto simp: RouteEntries_def image_iff)
  then show ?thesis by force
next
  case (Some r)
  then have target: "vt_target r = target" "target \<noteq> []" using assms by (auto simp: RouteFor_def split: if_splits)
  have "r \<in> set (VerdictRoutes s)" using Some by (auto simp: find_Some_iff)
  then have "r \<in> set (RouteEntries s)" using target by (simp add: RouteEntries_def)
  then show ?thesis using target(1) by blast
qed

lemma indexOf_from_char:
  "indexOf_from k ss name = Some t \<Longrightarrow> k \<le> t \<and> t - k < length ss \<and> stepName (ss ! (t - k)) = name"
proof (induction ss arbitrary: k)
  case (Cons s ss)
  show ?case
  proof (cases "stepName s = name")
    case False
    then have "indexOf_from (Suc k) ss name = Some t" using Cons.prems by simp
    from Cons.IH [OF this] show ?thesis by (auto simp: Suc_le_eq nth_Cons' Suc_diff_Suc)
  qed (use Cons.prems in simp)
qed simp

text \<open>C26: Where the steps a walk sees are one validated segment, a declared route is never lost: it takes the
  walk to the step that carries the target's name, or past the end for the reserved next, and the only
  route that fails the job is a backward one whose step has used up a positive, capped \<open>max_visits\<close>.\<close>

theorem validated_route_resolves:
  assumes "validateSegment seg = None" "steps = map snd seg" "i < length steps"
    and "outcomeKey ctx err verdict = Some key" "RouteFor (steps ! i) key = Some target"
  shows "(target = RouteTargetNext \<and> resolveTransition ctx steps i (steps ! i) err verdict visits = Jump (i + 1) key)
    \<or> (\<exists>t < length steps. stepName (steps ! t) = target
        \<and> (resolveTransition ctx steps i (steps ! i) err verdict visits = Jump t key
           \<or> t \<le> i \<and> 0 < st_max_visits (steps ! i) \<and> st_max_visits (steps ! i) \<le> maxVisitsLimit
             \<and> st_max_visits (steps ! i) \<le> int (visits i)
             \<and> resolveTransition ctx steps i (steps ! i) err verdict visits = Exhausted (visits_error (steps ! i))))"
proof -
  let ?s = "steps ! i"
  have s: "?s = snd (seg ! i)" and i: "i < length seg" using assms(2,3) by simp_all
  have routes: "Routes ?s"
  proof (cases "List.find (\<lambda>r. vt_name r = key) (VerdictRoutes ?s)")
    case None
    then show ?thesis using assms(5) by (auto simp: RouteFor_def Routes_def to_map_def split: option.splits)
  next
    case (Some r)
    then have "vt_target r \<noteq> []" using assms(5) by (auto simp: RouteFor_def split: if_splits)
    moreover have "r \<in> set (VerdictRoutes ?s)" using Some by (auto simp: find_Some_iff)
    ultimately show ?thesis by (auto simp: Routes_def list_ex_iff)
  qed
  then have "list_ex (\<lambda>(i, s). Routes s) seg" unfolding s list_ex_iff using nth_mem [OF i] by (auto simp: case_prod_beta)
  then obtain pos where pos: "segmentPositions 0 [] seg = Inr pos"
    and all: "first_some (\<lambda>(k, i, s). validateStepRouting i k s pos) (zip [0..<length seg] seg) = None"
    using assms(1) by (auto simp: validateSegment_def split: if_splits sum.splits)
  have "(i, seg ! i) \<in> set (zip [0..<length seg] seg)" using i by (auto simp: set_zip intro!: exI [of _ i])
  then have "validateStepRouting (fst (seg ! i)) i ?s pos = None"
    using all unfolding first_some_None_iff s by (auto simp: case_prod_beta)
  then have "validateRouteTargets (fst (seg ! i)) i ?s pos = None" by (auto simp: validateStepRouting_def split: option.splits)
  then obtain bk where bk: "route_targets (fst (seg ! i)) i pos (RouteEntries ?s) False = Inr bk"
    and lim: "bk \<longrightarrow> 0 < st_max_visits ?s \<and> st_max_visits ?s \<le> maxVisitsLimit"
    by (auto simp: validateRouteTargets_def split: sum.splits if_splits)
  obtain e where e: "e \<in> set (RouteEntries ?s)" "vt_target e = target" using RouteFor_entry [OF assms(5)] by blast
  show ?thesis
  proof (cases "target = RouteTargetNext")
    case True
    then show ?thesis using routes assms(4,5) by (simp add: resolveTransition_def)
  next
    case False
    then obtain t where t: "map_of pos target = Some t" "t \<le> i \<longrightarrow> bk" using route_targets_char [OF bk] e by blast
    note char = segmentPositions_char [OF pos]
    have "target \<noteq> []" using char t(1) by auto
    then have "indexOf_from 0 steps target = Some t" using char t(1) assms(2) by auto
    then have idx: "indexOfStep steps target = Some t" "t < length steps" "stepName (steps ! t) = target"
      using indexOf_from_char by (auto simp: indexOfStep_def dest: indexOf_from_char)
    have "resolveTransition ctx steps i ?s err verdict visits
        = (if t \<le> i \<and> st_max_visits ?s \<le> int (visits i) then Exhausted (visits_error ?s) else Jump t key)"
      using routes assms(4,5) False idx(1) by (simp add: resolveTransition_def)
    then show ?thesis using idx t(2) lim by (intro disjI2 exI [of _ t]) auto
  qed
qed

definition plain_step :: "string \<Rightarrow> route_step" where
  "plain_step name = RouteStep [] [] name [] [] None None [] None 0 []"


definition routed_step :: "string \<Rightarrow> (string \<times> string) list \<Rightarrow> int \<Rightarrow> route_step" where
  "routed_step name to_routes visits = RouteStep [] [] name [] [] None None [] (Some to_routes) visits []"

definition check_segment :: "route_step list" where
  "check_segment = [routed_step ''check'' [(''failure'', ''fix'')] 0, plain_step ''deploy'', plain_step ''fix'']"

lemma validated_route_resolves_witness:
  "resolveTransition None check_segment 0 (check_segment ! 0) (Some (Failure (Leaf (Msg ''exit 1'')))) [] (\<lambda>_. 1) = Jump 2 ''failure''"
proof -
  have valid: "validateSegment (zip [0..<3] check_segment) = None" by code_simp
  have seg: "check_segment = map snd (zip [0..<3] check_segment)" by code_simp
  have len: "0 < length check_segment" by code_simp
  have key: "outcomeKey None (Some (Failure (Leaf (Msg ''exit 1'')))) [] = Some ''failure''" by code_simp
  have target: "RouteFor (check_segment ! 0) ''failure'' = Some ''fix''" by code_simp
  have "stepName (check_segment ! 0) = ''check''" "stepName (check_segment ! 1) = ''deploy''" "length check_segment = 3" by code_simp+
  then have only: "t = 2" if "t < length check_segment" "stepName (check_segment ! t) = ''fix''" for t
    using that by (auto simp: less_Suc_eq numeral_3_eq_3 numeral_2_eq_2)
  have "\<not> (''fix'' = RouteTargetNext)" by (simp add: RouteTargetNext_def)
  then show ?thesis
    using validated_route_resolves [OF valid seg len key target, of "\<lambda>_. 1"] only by fastforce
qed

subsection \<open>A name in two segments\<close>




subsection \<open>Resuming\<close>




















end
