(* ===== verification/MachinePool.thy ===== *)
theory MachinePool
  imports Prelude "HOL-Library.Multiset"
begin

text \<open>
  The machines of a worker mapping (\<^verbatim>\<open>internal/venue\<close>): the registry every scope of the process
  shares (\<^verbatim>\<open>lease.go\<close>), the exclusive pools capped by \<^verbatim>\<open>?max=\<close>
  (\<^verbatim>\<open>pool.go\<close>) and what identifies a machine (\<^verbatim>\<open>worker.go\<close>). Pointers are
  natural numbers: an entry is an index of \<open>rg_entries\<close>, a scope (a \<^verbatim>\<open>*Leases\<close>) an index of the
  list of scopes. Every function here runs under the registry's lock; the steps of
  \<^verbatim>\<open>MachineScopes\<close> say how they interleave. The acquirer (a cloud's API) is the environment: what
  it answers is an argument.
\<close>

subsection \<open>Workers\<close>

datatype rung = RungStatic | RungStopped | RungLaunch

record worker =
  w_URL :: string
  w_Scheme :: string
  w_User :: string
  w_Host :: string
  w_Root :: string
  w_Identity :: string
  w_KnownHosts :: string
  w_SSHConfig :: string
  w_Instance :: string
  w_Rung :: rung
  w_Template :: string
  w_Capacity :: string
  w_Version :: string
  w_Idle :: int
  w_Exclusive :: bool
  w_Max :: int
  w_Region :: string
  w_Size :: string
  w_Project :: string
  w_Zone :: string
  w_Query :: string
  w_Socket :: string
  w_HostKey :: string

definition noWorker :: worker where
  "noWorker = \<lparr>w_URL = [], w_Scheme = [], w_User = [], w_Host = [], w_Root = [], w_Identity = [],
     w_KnownHosts = [], w_SSHConfig = [], w_Instance = [], w_Rung = RungStatic, w_Template = [],
     w_Capacity = [], w_Version = [], w_Idle = 0, w_Exclusive = False, w_Max = 0, w_Region = [],
     w_Size = [], w_Project = [], w_Zone = [], w_Query = [], w_Socket = [], w_HostKey = []\<rparr>"

definition needsAcquisition :: "worker \<Rightarrow> bool" where
  "needsAcquisition w \<longleftrightarrow> w_Rung w = RungStopped \<or> w_Rung w = RungLaunch"

text \<open>What a dial reads, and none of how the machine was acquired.\<close>

definition dialKey :: "worker \<Rightarrow> string list" where
  "dialKey w = [w_Scheme w, w_User w, w_Host w, w_Root w, w_Instance w, w_Identity w, w_KnownHosts w,
     w_SSHConfig w, w_HostKey w, w_Socket w, w_Region w, w_Project w, w_Zone w]"

definition SameMachine :: "worker \<Rightarrow> worker \<Rightarrow> bool" where
  "SameMachine w other \<longleftrightarrow> dialKey w = dialKey other"

text \<open>\<^verbatim>\<open>strconv.Itoa\<close>.\<close>

fun digits :: "nat \<Rightarrow> string" where
  "digits n = (if n < 10 then [char_of (48 + n)] else digits (n div 10) @ [char_of (48 + n mod 10)])"

declare digits.simps [simp del]

definition Itoa :: "int \<Rightarrow> string" where
  "Itoa i = (if i < 0 then ''-'' @ digits (nat (- i)) else digits (nat i))"

definition rung_text :: "rung \<Rightarrow> string" where
  "rung_text g = (case g of RungStatic \<Rightarrow> '''' | RungStopped \<Rightarrow> ''stopped'' | RungLaunch \<Rightarrow> ''launch'')"

definition registryKey :: "worker \<Rightarrow> string" where
  "registryKey w =
     (let location = w_Scheme w @ ''://'' @ rung_text (w_Rung w) @ ''/'' @ w_Region w @ ''/'' @ w_Project w
            @ ''/'' @ w_Zone w @ ''/''
      in case w_Rung w of
           RungStopped \<Rightarrow> location @ w_Instance w
         | RungLaunch \<Rightarrow>
             location @ w_Template w @ ''?version='' @ w_Version w
               @ ''&capacity='' @ (if w_Capacity w = [] then ''od'' else w_Capacity w)
               @ (if w_Exclusive w then ''&exclusive&max='' @ Itoa (w_Max w) else [])
               @ (if w_Size w \<noteq> [] then ''&size='' @ w_Size w else [])
         | RungStatic \<Rightarrow> w_URL w)"

text \<open>
  A spelling as the running machine it became. The URL \<^verbatim>\<open>staticURL\<close> rebuilds is the argument
  \<open>url\<close>: it names the machine in notes and holders, and no comparison reads it.
\<close>

definition asStatic :: "string \<Rightarrow> worker \<Rightarrow> string \<Rightarrow> worker" where
  "asStatic url w inst = w\<lparr>w_Rung := RungStatic, w_Instance := inst, w_Template := [], w_Capacity := [],
     w_Version := [], w_Idle := 0, w_Exclusive := False, w_Max := 0, w_Size := [], w_URL := url\<rparr>"

definition dialOf :: "string \<Rightarrow> worker \<Rightarrow> worker \<Rightarrow> worker" where
  "dialOf url spelling machine =
     (case w_Rung spelling of
        RungStopped \<Rightarrow> if w_Instance machine \<noteq> w_Instance spelling then machine
                       else asStatic url spelling (w_Instance spelling)
      | RungLaunch \<Rightarrow> if w_Instance machine = [] then machine else asStatic url spelling (w_Instance machine)
      | RungStatic \<Rightarrow> machine)"

subsection \<open>Entries, pools and the registry\<close>

text \<open>\<^verbatim>\<open>gone\<close>: nil, made, closed.\<close>

datatype going = Serving | Leaving | Given

record entry =
  en_acquired :: bool
  en_machine :: worker
  en_err :: "string option"
  en_release :: bool
  en_source :: worker
  en_key :: string
  en_refs :: int
  en_window :: int
  en_windowBy :: string
  en_retired :: bool
  en_idle :: bool
  en_gen :: int
  en_gone :: going
  en_pool :: "string option"
  en_jobs :: int
  en_holder :: "nat option"
  en_used :: int

definition new_entry :: "worker \<Rightarrow> string \<Rightarrow> string option \<Rightarrow> entry" where
  "new_entry w key pool = \<lparr>en_acquired = False, en_machine = noWorker, en_err = None, en_release = False,
     en_source = w, en_key = key, en_refs = 0, en_window = 0, en_windowBy = w_URL w, en_retired = False,
     en_idle = False, en_gen = 0, en_gone = Serving, en_pool = pool, en_jobs = 0, en_holder = None,
     en_used = 0\<rparr>"

definition parked :: "entry \<Rightarrow> bool" where
  "parked e \<longleftrightarrow> w_Rung (en_source e) = RungStopped"

text \<open>An acquisition that answered with an error, and a machine worth keeping warm.\<close>

definition acq_failed :: "entry \<Rightarrow> bool" where
  "acq_failed e \<longleftrightarrow> en_acquired e \<and> en_err e \<noteq> None"

definition holding :: "entry \<Rightarrow> bool" where
  "holding e \<longleftrightarrow> en_acquired e \<and> en_err e = None \<and> en_release e"

text \<open>A waiter is identified by \<open>wt_id\<close>, as its pointer is in the code.\<close>

record waiter =
  wt_id :: nat
  wt_pool :: string
  wt_scope :: nat
  wt_worker :: worker

record pool =
  pl_max :: int
  pl_members :: "nat list"
  pl_reserved :: "(nat \<times> int) list"
  pl_waiters :: "waiter list"
  pl_used :: int

definition new_pool :: "int \<Rightarrow> pool" where
  "new_pool m = \<lparr>pl_max = m, pl_members = [], pl_reserved = [], pl_waiters = [], pl_used = 0\<rparr>"

text \<open>
  \<open>rg_keys\<close> are the keys of the map \<^verbatim>\<open>pools\<close> and \<open>rg_pools\<close> its values; \<open>rg_handed\<close>
  are the waiters whose buffered channel \<^verbatim>\<open>got\<close> holds a machine nobody received yet.
\<close>

record registry =
  rg_entries :: "nat \<Rightarrow> entry"
  rg_next :: nat
  rg_current :: "string \<Rightarrow> nat option"
  rg_keys :: "string list"
  rg_pools :: "string \<Rightarrow> pool"
  rg_live :: "nat \<Rightarrow> bool"
  rg_closed :: bool
  rg_handed :: "(waiter \<times> nat) list"
  rg_tickets :: nat

definition NewRegistryWith :: registry where
  "NewRegistryWith = \<lparr>rg_entries = (\<lambda>_. new_entry noWorker [] None), rg_next = 0, rg_current = (\<lambda>_. None),
     rg_keys = [], rg_pools = (\<lambda>_. new_pool 0), rg_live = (\<lambda>_. False), rg_closed = False, rg_handed = [],
     rg_tickets = 0\<rparr>"

definition upd_entry :: "nat \<Rightarrow> (entry \<Rightarrow> entry) \<Rightarrow> registry \<Rightarrow> registry" where
  "upd_entry e f r = r\<lparr>rg_entries := (rg_entries r)(e := f (rg_entries r e))\<rparr>"

definition upd_pool :: "string \<Rightarrow> (pool \<Rightarrow> pool) \<Rightarrow> registry \<Rightarrow> registry" where
  "upd_pool k f r = r\<lparr>rg_pools := (rg_pools r)(k := f (rg_pools r k))\<rparr>"

subsection \<open>The pool\<close>

definition reserved_places :: "pool \<Rightarrow> int" where
  "reserved_places p = sum_list (map snd (pl_reserved p))"

definition pool_size :: "pool \<Rightarrow> int" where
  "pool_size p = int (length (pl_members p)) + reserved_places p"

definition room :: "pool \<Rightarrow> bool" where
  "room p \<longleftrightarrow> pl_max p = 0 \<or> pool_size p < pl_max p"

text \<open>The member last let go of: for a job one no job holds and whose acquisition did not fail, for
  a check any.\<close>

definition for_job_skips :: "(nat \<Rightarrow> entry) \<Rightarrow> bool \<Rightarrow> nat \<Rightarrow> bool" where
  "for_job_skips h forJob e \<longleftrightarrow> forJob \<and> (en_jobs (h e) > 0 \<or> acq_failed (h e))"

fun warmest_from :: "(nat \<Rightarrow> entry) \<Rightarrow> bool \<Rightarrow> nat option \<Rightarrow> nat list \<Rightarrow> nat option" where
  "warmest_from h forJob best [] = best"
| "warmest_from h forJob best (e # es) =
     (if for_job_skips h forJob e then warmest_from h forJob best es
      else case best of
             None \<Rightarrow> warmest_from h forJob (Some e) es
           | Some b \<Rightarrow> warmest_from h forJob (if en_used (h e) > en_used (h b) then Some e else Some b) es)"

definition warmest :: "(nat \<Rightarrow> entry) \<Rightarrow> bool \<Rightarrow> pool \<Rightarrow> nat option" where
  "warmest h forJob p = warmest_from h forJob None (pl_members p)"

definition set_place :: "nat \<Rightarrow> int \<Rightarrow> (nat \<times> int) list \<Rightarrow> (nat \<times> int) list" where
  "set_place s n xs = map (\<lambda>x. if fst x = s then (s, n) else x) xs"

definition takeReserved :: "nat \<Rightarrow> pool \<Rightarrow> bool \<times> pool" where
  "takeReserved scope p =
     (case map_of (pl_reserved p) scope of
        None \<Rightarrow> (False, p)
      | Some places \<Rightarrow>
          (True, p\<lparr>pl_reserved := (if places \<le> 1 then filter (\<lambda>x. fst x \<noteq> scope) (pl_reserved p)
                                   else set_place scope (places - 1) (pl_reserved p))\<rparr>))"

text \<open>A new machine of the pool, not yet acquired.\<close>

definition pool_member :: "string \<Rightarrow> worker \<Rightarrow> registry \<Rightarrow> nat \<times> registry" where
  "pool_member k w r =
     (let e = rg_next r
      in (e, upd_pool k (\<lambda>p. p\<lparr>pl_members := pl_members p @ [e]\<rparr>)
               (r\<lparr>rg_entries := (rg_entries r)(e := new_entry w k (Some k)), rg_next := Suc e,
                  rg_live := (rg_live r)(e := True)\<rparr>)))"

text \<open>
  \<^verbatim>\<open>stopIdle\<close> forgets the timer; one that already fired stands down on its own in
  \<^verbatim>\<open>expire\<close>. \<^verbatim>\<open>count\<close> is one more hold, a job's when \<open>job\<close> is not nil.
\<close>

definition stopIdle :: "nat \<Rightarrow> registry \<Rightarrow> registry" where
  "stopIdle e r = upd_entry e (\<lambda>h. h\<lparr>en_idle := False\<rparr>) r"

definition counted :: "worker \<Rightarrow> nat option \<Rightarrow> entry \<Rightarrow> entry" where
  "counted w job h =
     (let h = h\<lparr>en_refs := en_refs h + 1\<rparr>;
          h = (if job \<noteq> None then h\<lparr>en_jobs := en_jobs h + 1, en_holder := job\<rparr> else h)
      in if w_Idle w > en_window h then h\<lparr>en_window := w_Idle w, en_windowBy := w_URL w\<rparr> else h)"

definition count_hold :: "nat \<Rightarrow> worker \<Rightarrow> nat option \<Rightarrow> registry \<Rightarrow> registry" where
  "count_hold e w job r = stopIdle e (upd_entry e (counted w job) r)"

text \<open>Free machines, then room for new ones, to the waiters in the order they came. \<open>serve_loop\<close>
  runs over the waiters; a closed registry serves nobody.\<close>

fun serve_loop :: "string \<Rightarrow> waiter list \<Rightarrow> registry \<Rightarrow> registry" where
  "serve_loop k [] r = r"
| "serve_loop k (n # rest) r =
     (if rg_closed r then r
      else let free = warmest (rg_entries r) True (rg_pools r k)
           in if free = None \<and> \<not> room (rg_pools r k) then r
              else let (e, r1) = (case free of Some e \<Rightarrow> (e, r) | None \<Rightarrow> pool_member k (wt_worker n) r);
                       r2 = upd_pool k (\<lambda>p. p\<lparr>pl_waiters := rest\<rparr>) r1;
                       r3 = count_hold e (wt_worker n) (Some (wt_scope n)) r2
                   in serve_loop k rest (r3\<lparr>rg_handed := rg_handed r3 @ [(n, e)]\<rparr>))"

definition serve :: "string \<Rightarrow> registry \<Rightarrow> registry" where
  "serve k r = serve_loop k (pl_waiters (rg_pools r k)) r"

text \<open>What \<^verbatim>\<open>take\<close> answers: a machine (with whether only an idle timer held it) or a place in
  the queue.\<close>

datatype taken = Taken nat bool | Queued waiter

definition pool_of :: "string \<Rightarrow> int \<Rightarrow> registry \<Rightarrow> registry" where
  "pool_of k m r =
     (if k \<in> set (rg_keys r) then r
      else r\<lparr>rg_keys := rg_keys r @ [k], rg_pools := (rg_pools r)(k := new_pool m)\<rparr>)"

definition enqueue :: "nat \<Rightarrow> string \<Rightarrow> worker \<Rightarrow> registry \<Rightarrow> taken \<times> registry" where
  "enqueue scope k w r =
     (let n = \<lparr>wt_id = rg_tickets r, wt_pool = k, wt_scope = scope, wt_worker = w\<rparr>
      in (Queued n, upd_pool k (\<lambda>p. p\<lparr>pl_waiters := pl_waiters p @ [n]\<rparr>) (r\<lparr>rg_tickets := Suc (rg_tickets r)\<rparr>)))"

definition take_ride :: "string \<Rightarrow> worker \<Rightarrow> registry \<Rightarrow> taken \<times> registry" where
  "take_ride k w r =
     (case warmest (rg_entries r) False (rg_pools r k) of
        Some e \<Rightarrow> (Taken e (en_refs (rg_entries r e) = 0), count_hold e w None r)
      | None \<Rightarrow> let (e, r1) = pool_member k w r in (Taken e False, count_hold e w None r1))"

definition take_job :: "nat \<Rightarrow> string \<Rightarrow> worker \<Rightarrow> registry \<Rightarrow> taken \<times> registry" where
  "take_job scope k w r0 =
     (let (reserved, p) = takeReserved scope (rg_pools r0 k);
          r = upd_pool k (\<lambda>_. p) r0
      in if reserved \<or> pl_waiters p = [] then
           (case warmest (rg_entries r) True p of
              Some e \<Rightarrow> (Taken e (en_refs (rg_entries r e) = 0), count_hold e w (Some scope) r)
            | None \<Rightarrow>
                if reserved \<or> room p then
                  let (e, r1) = pool_member k w r in (Taken e False, count_hold e w (Some scope) r1)
                else enqueue scope k w r)
         else enqueue scope k w r)"

definition pool_take :: "nat \<Rightarrow> bool \<Rightarrow> worker \<Rightarrow> registry \<Rightarrow> taken \<times> registry" where
  "pool_take scope rides w r0 =
     (let k = registryKey w; r = pool_of k (w_Max w) r0
      in if rides then take_ride k w r else take_job scope k w r)"

definition share :: "nat \<Rightarrow> worker \<Rightarrow> nat \<Rightarrow> bool \<Rightarrow> registry \<Rightarrow> bool \<times> registry" where
  "share e w scope rides r =
     (if en_retired (rg_entries r e) \<or> en_gone (rg_entries r e) \<noteq> Serving then (False, r)
      else (True, count_hold e w (if rides then None else Some scope) r))"

text \<open>
  Receiving from a waiter's channel, and a waiter that leaves its queue or answers the machine it was
  handed in the meantime. A waiter in neither place would block on its channel; it has then already
  received.
\<close>

definition receive_handed :: "waiter \<Rightarrow> registry \<Rightarrow> nat option \<times> registry" where
  "receive_handed n r =
     (case map_of (rg_handed r) n of
        Some e \<Rightarrow> (Some e, r\<lparr>rg_handed := remove1 (n, e) (rg_handed r)\<rparr>)
      | None \<Rightarrow> (None, r))"

definition leave :: "waiter \<Rightarrow> registry \<Rightarrow> nat option \<times> registry" where
  "leave n r =
     (if n \<in> set (pl_waiters (rg_pools r (wt_pool n)))
      then (None, upd_pool (wt_pool n) (\<lambda>p. p\<lparr>pl_waiters := remove1 n (pl_waiters p)\<rparr>) r)
      else receive_handed n r)"

definition letGo :: "nat \<Rightarrow> bool \<Rightarrow> registry \<Rightarrow> registry" where
  "letGo e immediate r0 =
     (let r = upd_entry e (\<lambda>h. h\<lparr>en_jobs := en_jobs h - 1\<rparr>) r0;
          k = the (en_pool (rg_entries r e))
      in if en_jobs (rg_entries r e) > 0 then r
         else let used = pl_used (rg_pools r k) + 1;
                  r = upd_pool k (\<lambda>p. p\<lparr>pl_used := used\<rparr>)
                        (upd_entry e (\<lambda>h. h\<lparr>en_holder := None, en_used := used\<rparr>) r)
              in if e \<notin> set (pl_members (rg_pools r k)) \<or> immediate then r else serve k r)"

definition leavePool :: "nat \<Rightarrow> registry \<Rightarrow> registry" where
  "leavePool e r =
     (let k = the (en_pool (rg_entries r e))
      in if e \<notin> set (pl_members (rg_pools r k)) then r
         else serve k (upd_pool k (\<lambda>p. p\<lparr>pl_members := remove1 e (pl_members p)\<rparr>) r))"

definition reserve_place :: "nat \<Rightarrow> pool \<Rightarrow> pool" where
  "reserve_place s p =
     p\<lparr>pl_reserved := (case map_of (pl_reserved p) s of
         None \<Rightarrow> pl_reserved p @ [(s, 1)]
       | Some n \<Rightarrow> set_place s (n + 1) (pl_reserved p))\<rparr>"

definition reserveFor :: "nat \<Rightarrow> registry \<Rightarrow> registry" where
  "reserveFor e r =
     (case (en_pool (rg_entries r e), en_holder (rg_entries r e)) of
        (Some k, Some s) \<Rightarrow>
          if en_retired (rg_entries r e) \<or> e \<notin> set (pl_members (rg_pools r k)) then r
          else upd_pool k (reserve_place s) r
      | _ \<Rightarrow> r)"

definition unreserve_in :: "nat \<Rightarrow> string \<Rightarrow> registry \<Rightarrow> registry" where
  "unreserve_in scope k r =
     (if map_of (pl_reserved (rg_pools r k)) scope = None then r
      else serve k (upd_pool k (\<lambda>p. p\<lparr>pl_reserved := filter (\<lambda>x. fst x \<noteq> scope) (pl_reserved p)\<rparr>) r))"

definition unreserve :: "nat \<Rightarrow> registry \<Rightarrow> registry" where
  "unreserve scope r = fold (unreserve_in scope) (rg_keys r) r"

subsection \<open>The registry\<close>

text \<open>A shared machine: counted toward (with whether only an idle timer held it), or the park still
  landing.\<close>

datatype held_as = HeldEntry nat bool | Landing nat

definition hold_shared :: "worker \<Rightarrow> registry \<Rightarrow> held_as \<times> registry" where
  "hold_shared w r =
     (let key = registryKey w in
      case rg_current r key of
        Some e \<Rightarrow>
          if en_gone (rg_entries r e) \<noteq> Serving then (Landing e, r)
          else (HeldEntry e (en_refs (rg_entries r e) = 0), count_hold e w None r)
      | None \<Rightarrow>
          let e = rg_next r;
              r1 = r\<lparr>rg_entries := (rg_entries r)(e := new_entry w key None), rg_next := Suc e,
                     rg_current := (rg_current r)(key := Some e), rg_live := (rg_live r)(e := True)\<rparr>
          in (HeldEntry e False, count_hold e w None r1))"

definition forget :: "nat \<Rightarrow> registry \<Rightarrow> registry" where
  "forget e r =
     (if en_pool (rg_entries r e) \<noteq> None then leavePool e r
      else if rg_current r (en_key (rg_entries r e)) = Some e
           then r\<lparr>rg_current := (rg_current r)(en_key (rg_entries r e) := None)\<rparr> else r)"

definition takeOut :: "nat \<Rightarrow> registry \<Rightarrow> registry" where
  "takeOut e r0 =
     (let r = upd_entry e (\<lambda>h. h\<lparr>en_gone := Leaving\<rparr>) r0
      in if parked (rg_entries r e) then r else forget e r)"

text \<open>
  The end of \<^verbatim>\<open>giveBack\<close>, under the lock, after \<^verbatim>\<open>give\<close> took the lease's release (the
  flag of the answer) and ran it.
\<close>

definition give :: "nat \<Rightarrow> registry \<Rightarrow> bool \<times> registry" where
  "give e r = (en_release (rg_entries r e), upd_entry e (\<lambda>h. h\<lparr>en_release := False\<rparr>) r)"

definition giveBack_end :: "nat \<Rightarrow> registry \<Rightarrow> registry" where
  "giveBack_end e r0 =
     (let r = forget e r0
      in upd_entry e (\<lambda>h. h\<lparr>en_gone := Given\<rparr>) (r\<lparr>rg_live := (rg_live r)(e := False)\<rparr>))"

text \<open>\<^verbatim>\<open>drop\<close> and \<^verbatim>\<open>expire\<close> answer whether the entry was taken out and its machine is now
  to be given back.\<close>

definition lease_drop :: "bool \<Rightarrow> bool \<Rightarrow> nat \<Rightarrow> registry \<Rightarrow> bool \<times> registry" where
  "lease_drop own rides e r0 =
     (let r1 = upd_entry e (\<lambda>h. h\<lparr>en_refs := en_refs h - 1\<rparr>) r0;
          r = (if en_pool (rg_entries r1 e) \<noteq> None \<and> \<not> rides then letGo e own r1 else r1);
          h = rg_entries r e
      in if en_refs h > 0 \<or> en_gone h \<noteq> Serving then (False, r)
         else if own \<or> rg_closed r \<or> en_retired h \<or> en_window h \<le> 0 \<or> \<not> holding h then (True, takeOut e r)
         else (False, upd_entry e (\<lambda>h. h\<lparr>en_gen := en_gen h + 1, en_idle := True\<rparr>) r))"

definition expire :: "nat \<Rightarrow> int \<Rightarrow> registry \<Rightarrow> bool \<times> registry" where
  "expire e gen r =
     (let h = rg_entries r e
      in if en_refs h > 0 \<or> en_gen h \<noteq> gen \<or> en_gone h \<noteq> Serving then (False, r)
         else (True, takeOut e (upd_entry e (\<lambda>h. h\<lparr>en_idle := False\<rparr>) r)))"

definition retire :: "nat \<Rightarrow> registry \<Rightarrow> registry" where
  "retire e r = forget e (upd_entry e (\<lambda>h. h\<lparr>en_retired := True\<rparr>) (reserveFor e r))"

definition in_service :: "registry \<Rightarrow> nat \<Rightarrow> bool" where
  "in_service r e \<longleftrightarrow>
     rg_current r (en_key (rg_entries r e)) = Some e
     \<or> (case en_pool (rg_entries r e) of Some k \<Rightarrow> e \<in> set (pl_members (rg_pools r k)) | None \<Rightarrow> False)"

text \<open>
  \<^verbatim>\<open>Close\<close> takes out what nobody uses; \<^verbatim>\<open>giveBackHeld\<close>, when it stops waiting, the rest.
  Both answer the entries whose machines are now given back.
\<close>

definition close_registry :: "registry \<Rightarrow> nat list \<times> registry" where
  "close_registry r0 =
     (let r = r0\<lparr>rg_closed := True\<rparr>;
          idle = filter (\<lambda>e. in_service r e \<and> en_refs (rg_entries r e) = 0 \<and> en_gone (rg_entries r e) = Serving)
                   [0..<rg_next r]
      in (idle, fold (\<lambda>e r. takeOut e (stopIdle e r)) idle r))"

definition giveBackHeld :: "registry \<Rightarrow> nat list \<times> registry" where
  "giveBackHeld r =
     (let held = filter (\<lambda>e. rg_live r e \<and> en_gone (rg_entries r e) = Serving) [0..<rg_next r]
      in (held, fold takeOut held r))"

text \<open>
  \<^verbatim>\<open>resolve\<close>: an acquisition already answered is kept; otherwise the acquirer's answer (the
  machine, whether a release came with it, its error) is recorded, unless it is an error of a
  resolver whose own context had ended.
\<close>

definition resolve_lease :: "worker \<Rightarrow> bool \<Rightarrow> string option \<Rightarrow> bool \<Rightarrow> nat \<Rightarrow> registry \<Rightarrow> registry" where
  "resolve_lease machine release err ctx_ended e r =
     upd_entry e (\<lambda>h.
       if en_acquired h then h
       else let h = (if release then h\<lparr>en_release := True\<rparr> else h)
            in if err \<noteq> None \<and> ctx_ended then h
               else h\<lparr>en_acquired := True, en_machine := machine, en_err := err\<rparr>) r"

text \<open>\<^verbatim>\<open>abandonIf\<close>, with the URL the dialed spelling was rebuilt to.\<close>

definition abandonIf :: "string \<Rightarrow> worker \<Rightarrow> worker \<Rightarrow> nat \<Rightarrow> registry \<Rightarrow> bool \<times> registry" where
  "abandonIf url dialed spelling e r =
     (let h = rg_entries r e
      in if \<not> en_acquired h \<or> en_err h \<noteq> None \<or> \<not> SameMachine (dialOf url spelling (en_machine h)) dialed
         then (False, r)
         else (True, if w_Rung spelling = RungStopped
                     then upd_entry e (\<lambda>h. h\<lparr>en_acquired := False, en_machine := noWorker\<rparr>) r else r))"

end
