(* ===== verification/MachinePoolInv.thy ===== *)
theory MachinePoolInv
  imports MachinePool
begin

text \<open>
  The registry's invariant, kept by each of its operations. \<open>U\<close> is the multiset of holds, pairs of a
  scope and an entry: the count of references of an entry is the number of holds on it, a pool
  machine's count of jobs the number of its holds by scopes that do not ride along, and every such
  hold is the holder's.
\<close>

subsection \<open>Selectors\<close>

lemma upd_entry_simps [simp, pool_simps]:
  "rg_entries (upd_entry e f r) = (rg_entries r)(e := f (rg_entries r e))"
  "rg_next (upd_entry e f r) = rg_next r" "rg_current (upd_entry e f r) = rg_current r"
  "rg_keys (upd_entry e f r) = rg_keys r" "rg_pools (upd_entry e f r) = rg_pools r"
  "rg_live (upd_entry e f r) = rg_live r" "rg_closed (upd_entry e f r) = rg_closed r"
  "rg_handed (upd_entry e f r) = rg_handed r" "rg_tickets (upd_entry e f r) = rg_tickets r"
  by (simp_all add: upd_entry_def)

lemma upd_pool_simps [simp, pool_simps]:
  "rg_entries (upd_pool k g r) = rg_entries r"
  "rg_next (upd_pool k g r) = rg_next r" "rg_current (upd_pool k g r) = rg_current r"
  "rg_keys (upd_pool k g r) = rg_keys r" "rg_pools (upd_pool k g r) = (rg_pools r)(k := g (rg_pools r k))"
  "rg_live (upd_pool k g r) = rg_live r" "rg_closed (upd_pool k g r) = rg_closed r"
  "rg_handed (upd_pool k g r) = rg_handed r" "rg_tickets (upd_pool k g r) = rg_tickets r"
  by (simp_all add: upd_pool_def)

lemma counted_simps [simp, pool_simps]:
  "en_refs (counted w job h) = en_refs h + 1"
  "en_jobs (counted w job h) = (if job = None then en_jobs h else en_jobs h + 1)"
  "en_holder (counted w job h) = (if job = None then en_holder h else job)"
  "en_pool (counted w job h) = en_pool h" "en_gone (counted w job h) = en_gone h"
  "en_retired (counted w job h) = en_retired h" "en_source (counted w job h) = en_source h"
  "en_key (counted w job h) = en_key h" "en_acquired (counted w job h) = en_acquired h"
  "en_err (counted w job h) = en_err h" "en_release (counted w job h) = en_release h"
  "en_used (counted w job h) = en_used h" "en_gen (counted w job h) = en_gen h"
  by (simp_all add: counted_def Let_def)

lemma new_entry_simps [simp, pool_simps]:
  "en_refs (new_entry w k p) = 0" "en_jobs (new_entry w k p) = 0" "en_holder (new_entry w k p) = None"
  "en_pool (new_entry w k p) = p" "en_gone (new_entry w k p) = Serving" "\<not> en_retired (new_entry w k p)"
  "en_source (new_entry w k p) = w" "en_key (new_entry w k p) = k" "\<not> en_acquired (new_entry w k p)"
  "\<not> en_release (new_entry w k p)"
  by (simp_all add: new_entry_def)

lemma new_pool_simps [simp, pool_simps]:
  "pl_members (new_pool m) = []" "pl_reserved (new_pool m) = []" "pl_waiters (new_pool m) = []"
  "pl_max (new_pool m) = m"
  by (simp_all add: new_pool_def)

lemma count_hold_entries [simp, pool_simps]:
  "rg_entries (count_hold e w job r) = (rg_entries r)(e := (counted w job (rg_entries r e))\<lparr>en_idle := False\<rparr>)"
  by (simp add: count_hold_def stopIdle_def)

lemma count_hold_simps [simp, pool_simps]:
  "rg_next (count_hold e w job r) = rg_next r" "rg_current (count_hold e w job r) = rg_current r"
  "rg_keys (count_hold e w job r) = rg_keys r" "rg_pools (count_hold e w job r) = rg_pools r"
  "rg_live (count_hold e w job r) = rg_live r" "rg_closed (count_hold e w job r) = rg_closed r"
  "rg_handed (count_hold e w job r) = rg_handed r" "rg_tickets (count_hold e w job r) = rg_tickets r"
  by (simp_all add: count_hold_def stopIdle_def)

lemma pool_member_fst [simp, pool_simps]: "fst (pool_member k w r) = rg_next r"
  by (simp add: pool_member_def Let_def)

lemma pool_member_simps [simp, pool_simps]:
  "rg_entries (snd (pool_member k w r)) = (rg_entries r)(rg_next r := new_entry w k (Some k))"
  "rg_next (snd (pool_member k w r)) = Suc (rg_next r)"
  "rg_pools (snd (pool_member k w r)) =
     (rg_pools r)(k := (rg_pools r k)\<lparr>pl_members := pl_members (rg_pools r k) @ [rg_next r]\<rparr>)"
  "rg_closed (snd (pool_member k w r)) = rg_closed r" "rg_handed (snd (pool_member k w r)) = rg_handed r"
  "rg_current (snd (pool_member k w r)) = rg_current r" "rg_keys (snd (pool_member k w r)) = rg_keys r"
  "rg_tickets (snd (pool_member k w r)) = rg_tickets r"
  by (simp_all add: pool_member_def Let_def)

lemma set_place_fst [simp]: "map fst (set_place s n xs) = map fst xs"
  by (induction xs) (simp_all add: set_place_def)

lemma set_place_set: "x \<in> set (set_place s n xs) \<Longrightarrow> x = (s, n) \<or> x \<in> set xs"
  by (auto simp: set_place_def split: if_splits)

lemma set_place_sum:
  "distinct (map fst xs) \<Longrightarrow> map_of xs s = Some m \<Longrightarrow> sum_list (map snd (set_place s n xs)) = sum_list (map snd xs) + n - m"
proof (induction xs)
  case Nil
  then show ?case by simp
next
  case (Cons x xs)
  have "s \<notin> fst ` set xs \<Longrightarrow> set_place s n xs = xs"
    unfolding set_place_def by (rule map_idI) auto
  moreover have "set_place s n (x # xs) = (if fst x = s then (s, n) else x) # set_place s n xs"
    by (simp add: set_place_def)
  ultimately show ?case using Cons by (cases x) auto
qed

lemma drop_place_sum:
  "distinct (map fst xs) \<Longrightarrow> map_of xs s = Some m
    \<Longrightarrow> sum_list (map snd (filter (\<lambda>x. fst x \<noteq> s) xs)) = sum_list (map snd xs) - (m :: int)"
proof (induction xs)
  case Nil
  then show ?case by simp
next
  case (Cons x xs)
  have "s \<notin> fst ` set xs \<Longrightarrow> filter (\<lambda>x. fst x \<noteq> s) xs = xs"
    by (rule filter_True) auto
  with Cons show ?case by (cases x) auto
qed

lemma warmest_from_SomeD:
  "warmest_from h j b es = Some e \<Longrightarrow> b = Some e \<or> (e \<in> set es \<and> \<not> for_job_skips h j e)"
  by (induction es arbitrary: b) (force split: if_splits option.splits)+

lemma warmest_SomeD:
  assumes "warmest h j p = Some e"
  shows "e \<in> set (pl_members p)" "j \<Longrightarrow> en_jobs (h e) \<le> 0" "j \<Longrightarrow> \<not> acq_failed (h e)"
  using warmest_from_SomeD [of h j None "pl_members p" e] assms
  by (auto simp: warmest_def for_job_skips_def)

lemma warmest_from_None_iff:
  "warmest_from h j b es = None \<longleftrightarrow> b = None \<and> (\<forall>e \<in> set es. for_job_skips h j e)"
  by (induction es arbitrary: b) (auto split: option.splits)

lemma warmest_None_iff: "warmest h j p = None \<longleftrightarrow> (\<forall>e \<in> set (pl_members p). for_job_skips h j e)"
  by (simp add: warmest_def warmest_from_None_iff)

subsection \<open>The invariant\<close>

definition uses_of :: "nat \<Rightarrow> (nat \<times> nat) multiset \<Rightarrow> int" where
  "uses_of e U = int (size (filter_mset (\<lambda>p. snd p = e) U))"

definition jobs_of :: "(nat \<Rightarrow> bool) \<Rightarrow> nat \<Rightarrow> (nat \<times> nat) multiset \<Rightarrow> int" where
  "jobs_of R e U = int (size (filter_mset (\<lambda>p. snd p = e \<and> \<not> R (fst p)) U))"

lemma uses_of_add [simp]: "uses_of e (add_mset (s, x) U) = uses_of e U + (if x = e then 1 else 0)"
  by (simp add: uses_of_def)

lemma jobs_of_add [simp]:
  "jobs_of R e (add_mset (s, x) U) = jobs_of R e U + (if x = e \<and> \<not> R s then 1 else 0)"
  by (simp add: jobs_of_def)

lemma uses_of_nonneg [simp]: "0 \<le> uses_of e U" and jobs_of_nonneg [simp]: "0 \<le> jobs_of R e U"
  by (simp_all add: uses_of_def jobs_of_def)

lemma jobs_le_uses: "jobs_of R e U \<le> uses_of e U"
proof (induction U)
  case empty
  then show ?case by (simp add: jobs_of_def uses_of_def)
next
  case (add x U)
  then show ?case by (cases x) simp
qed

lemma uses_of_pos: "(s, e) \<in># U \<Longrightarrow> 0 < uses_of e U"
  by (auto simp: uses_of_def nonempty_has_size [symmetric] filter_mset_eq_conv dest!: multi_member_split)

lemma jobs_of_pos: "(s, e) \<in># U \<Longrightarrow> \<not> R s \<Longrightarrow> 0 < jobs_of R e U"
  by (auto simp: jobs_of_def dest!: multi_member_split)

lemma uses_of_zeroD: "uses_of e U = 0 \<Longrightarrow> (s, e) \<notin># U"
  using uses_of_pos [of s e U] by auto

definition entries_ok :: "(nat \<Rightarrow> bool) \<Rightarrow> (nat \<times> nat) multiset \<Rightarrow> registry \<Rightarrow> bool" where
  "entries_ok R U r \<longleftrightarrow>
     (\<forall>e. en_refs (rg_entries r e) = uses_of e U)
     \<and> (\<forall>e. en_pool (rg_entries r e) \<noteq> None \<longrightarrow> en_jobs (rg_entries r e) = jobs_of R e U)
     \<and> (\<forall>s e. (s, e) \<in># U \<longrightarrow> en_pool (rg_entries r e) \<noteq> None \<longrightarrow> \<not> R s \<longrightarrow> en_holder (rg_entries r e) = Some s)
     \<and> (\<forall>e. rg_next r \<le> e \<longrightarrow> uses_of e U = 0 \<and> en_gone (rg_entries r e) = Serving)
     \<and> (\<not> rg_closed r \<longrightarrow> (\<forall>e. en_gone (rg_entries r e) \<noteq> Serving \<longrightarrow> uses_of e U = 0))"

definition pool_ok :: "(nat \<Rightarrow> bool) \<Rightarrow> (nat \<Rightarrow> entry) \<Rightarrow> nat \<Rightarrow> nat \<Rightarrow> string \<Rightarrow> pool \<Rightarrow> bool" where
  "pool_ok R h n t k p \<longleftrightarrow>
     distinct (pl_members p)
     \<and> (\<forall>e \<in> set (pl_members p). e < n \<and> en_pool (h e) = Some k \<and> \<not> en_retired (h e) \<and> en_gone (h e) = Serving)
     \<and> distinct (map fst (pl_reserved p)) \<and> (\<forall>x \<in> set (pl_reserved p). 1 \<le> snd x)
     \<and> (\<forall>n \<in> set (pl_waiters p). wt_pool n = k \<and> \<not> R (wt_scope n) \<and> w_Rung (wt_worker n) = RungLaunch \<and> wt_id n < t)"

definition lists_ok :: "(nat \<Rightarrow> bool) \<Rightarrow> registry \<Rightarrow> bool" where
  "lists_ok R r \<longleftrightarrow>
     (\<forall>k. pool_ok R (rg_entries r) (rg_next r) (rg_tickets r) k (rg_pools r k))
     \<and> (\<forall>key e. rg_current r key = Some e \<longrightarrow> e < rg_next r \<and> en_pool (rg_entries r e) = None)
     \<and> (\<forall>e. en_pool (rg_entries r e) \<noteq> None \<longrightarrow> \<not> parked (rg_entries r e))"

text \<open>Every machine in service that nobody uses has its idle timer running, but for those of
  \<open>X\<close>.\<close>

definition resting :: "nat set \<Rightarrow> registry \<Rightarrow> bool" where
  "resting X r \<longleftrightarrow>
     (\<forall>e < rg_next r. e \<notin> X \<longrightarrow> en_gone (rg_entries r e) = Serving \<longrightarrow> en_refs (rg_entries r e) = 0
        \<longrightarrow> en_idle (rg_entries r e))"

definition handed_uses :: "registry \<Rightarrow> (nat \<times> nat) multiset" where
  "handed_uses r = image_mset (\<lambda>x. (wt_scope (fst x), snd x)) (mset (rg_handed r))"

text \<open>The holds outside the registry are \<open>S\<close>; the machines handed to waiters that have not received
  them yet count as well.\<close>

definition reg_ok :: "(nat \<Rightarrow> bool) \<Rightarrow> (nat \<times> nat) multiset \<Rightarrow> nat set \<Rightarrow> registry \<Rightarrow> bool" where
  "reg_ok R S X r \<longleftrightarrow> entries_ok R (S + handed_uses r) r \<and> lists_ok R r \<and> resting X r"

subsection \<open>Frames\<close>

lemma entries_ok_pools [simp]: "entries_ok R U (upd_pool k g r) = entries_ok R U r"
  by (simp add: entries_ok_def)

lemma resting_pools [simp]: "resting X (upd_pool k g r) = resting X r"
  by (simp add: resting_def)

lemma handed_uses_frames [simp]:
  "handed_uses (upd_pool k g r) = handed_uses r" "handed_uses (upd_entry e f r) = handed_uses r"
  "handed_uses (count_hold e w job r) = handed_uses r" "handed_uses (snd (pool_member k w r)) = handed_uses r"
  by (simp_all add: handed_uses_def)

lemma lists_ok_pool:
  "lists_ok R r \<Longrightarrow> pool_ok R (rg_entries r) (rg_next r) (rg_tickets r) k (g (rg_pools r k)) \<Longrightarrow> lists_ok R (upd_pool k g r)"
  by (simp add: lists_ok_def)

lemma lists_okD: "lists_ok R r \<Longrightarrow> pool_ok R (rg_entries r) (rg_next r) (rg_tickets r) k (rg_pools r k)"
  by (simp add: lists_ok_def)

lemma reg_ok_pool:
  "reg_ok R S X r \<Longrightarrow> pool_ok R (rg_entries r) (rg_next r) (rg_tickets r) k (g (rg_pools r k)) \<Longrightarrow> reg_ok R S X (upd_pool k g r)"
  by (simp add: reg_ok_def lists_ok_pool)

lemma reg_okD:
  assumes "reg_ok R S X r"
  shows "entries_ok R (S + handed_uses r) r" "lists_ok R r" "resting X r"
  using assms by (simp_all add: reg_ok_def)

lemma holderD:
  "entries_ok R U r \<Longrightarrow> (s, e) \<in># U \<Longrightarrow> en_pool (rg_entries r e) \<noteq> None \<Longrightarrow> \<not> R s \<Longrightarrow> en_holder (rg_entries r e) = Some s"
  by (simp add: entries_ok_def)

lemma memberD:
  assumes "lists_ok R r" "e \<in> set (pl_members (rg_pools r k))"
  shows "e < rg_next r" "en_pool (rg_entries r e) = Some k" "\<not> en_retired (rg_entries r e)"
    "en_gone (rg_entries r e) = Serving"
  using assms by (auto simp: lists_ok_def pool_ok_def)

lemma waiterD:
  assumes "lists_ok R r" "n \<in> set (pl_waiters (rg_pools r k))"
  shows "wt_pool n = k" "\<not> R (wt_scope n)" "w_Rung (wt_worker n) = RungLaunch" "wt_id n < rg_tickets r"
  using assms by (auto simp: lists_ok_def pool_ok_def)

lemma handed_uses_snoc: "handed_uses (r\<lparr>rg_handed := hs @ [(n, e)]\<rparr>) = add_mset (wt_scope n, e) (handed_uses (r\<lparr>rg_handed := hs\<rparr>))"
  by (simp add: handed_uses_def)

subsection \<open>The primitives\<close>

lemma entries_ok_count:
  assumes ok: "entries_ok R U r" and e: "e < rg_next r" "en_gone (rg_entries r e) = Serving"
    and who: "en_pool (rg_entries r e) = None \<or> (if job = None then R s
              else job = Some s \<and> \<not> R s \<and> (en_jobs (rg_entries r e) \<le> 0 \<or> en_holder (rg_entries r e) = Some s))"
  shows "entries_ok R (add_mset (s, e) U) (count_hold e w job r)"
proof -
  have hold: "en_holder (counted w job (rg_entries r e)) = Some t"
    if t: "(t, e) \<in># add_mset (s, e) U" "en_pool (rg_entries r e) \<noteq> None" "\<not> R t" for t
  proof (cases "(t, e) \<in># U")
    case True
    then have h: "en_holder (rg_entries r e) = Some t" and j: "0 < en_jobs (rg_entries r e)"
      using ok t(2,3) jobs_of_pos [where R = R, OF True t(3)] unfolding entries_ok_def by simp_all
    with who t(2) show ?thesis by (auto split: if_splits)
  next
    case False
    with t have "t = s" by simp
    with who t show ?thesis by (auto split: if_splits)
  qed
  have "en_holder (rg_entries (count_hold e w job r) x) = Some t"
    if "(t, x) \<in># add_mset (s, e) U" "en_pool (rg_entries (count_hold e w job r) x) \<noteq> None" "\<not> R t" for t x
    using hold that ok unfolding entries_ok_def by (cases "x = e") auto
  then show ?thesis
    using ok e who unfolding entries_ok_def by (auto split: if_splits)
qed

lemma lists_ok_upd_entry:
  assumes "lists_ok R r"
    and "en_pool (f (rg_entries r e)) = en_pool (rg_entries r e)" "en_source (f (rg_entries r e)) = en_source (rg_entries r e)"
    and "en_retired (f (rg_entries r e)) = en_retired (rg_entries r e)" "en_gone (f (rg_entries r e)) = en_gone (rg_entries r e)"
  shows "lists_ok R (upd_entry e f r)"
  using assms unfolding lists_ok_def pool_ok_def parked_def by auto

lemma lists_ok_count: "lists_ok R r \<Longrightarrow> lists_ok R (count_hold e w job r)"
  unfolding count_hold_def stopIdle_def by (intro lists_ok_upd_entry) simp_all

lemma resting_count:
  assumes "resting X r" "0 \<le> en_refs (rg_entries r e)"
  shows "resting (X - {e}) (count_hold e w job r)"
  using assms by (auto simp: resting_def)

lemma resting_mono: "resting X r \<Longrightarrow> X \<subseteq> Y \<Longrightarrow> resting Y r"
  by (auto simp: resting_def)

lemma refs_nonneg: "entries_ok R U r \<Longrightarrow> 0 \<le> en_refs (rg_entries r e)"
  by (simp add: entries_ok_def)

text \<open>A scope's new hold on a machine in service.\<close>

lemma reg_ok_count:
  assumes "reg_ok R S X r" "e < rg_next r" "en_gone (rg_entries r e) = Serving"
    and "en_pool (rg_entries r e) = None \<or> (if job = None then R s
         else job = Some s \<and> \<not> R s \<and> (en_jobs (rg_entries r e) \<le> 0 \<or> en_holder (rg_entries r e) = Some s))"
  shows "reg_ok R (add_mset (s, e) S) (X - {e}) (count_hold e w job r)"
  using entries_ok_count [OF reg_okD(1) [OF assms(1)] assms(2-4)]
    resting_count [OF reg_okD(3) [OF assms(1)] refs_nonneg [OF reg_okD(1) [OF assms(1)]]]
    lists_ok_count [OF reg_okD(2) [OF assms(1)]]
  by (simp add: reg_ok_def)

lemma fresh_unused: "entries_ok R U r \<Longrightarrow> rg_next r \<le> e \<Longrightarrow> (s, e) \<notin># U"
  unfolding entries_ok_def by (intro uses_of_zeroD) simp

lemma entries_ok_new:
  assumes ok: "entries_ok R U r" and e: "e = rg_next r"
    and h: "rg_entries r' = (rg_entries r)(e := new_entry w k p)" "rg_next r' = Suc e" "rg_closed r' = rg_closed r"
  shows "entries_ok R U r'"
proof -
  have z: "uses_of e U = 0" "jobs_of R e U = 0"
    using ok jobs_le_uses [of R e U] jobs_of_nonneg [of R e U] unfolding entries_ok_def e by auto
  have "(s, e) \<notin># U" for s using z(1) by (rule uses_of_zeroD)
  then show ?thesis using ok z e unfolding entries_ok_def h by auto
qed

lemma reg_ok_member:
  assumes ok: "reg_ok R S X r" and w: "w_Rung w = RungLaunch"
  shows "reg_ok R S (insert (rg_next r) X) (snd (pool_member k w r))"
proof -
  let ?r = "snd (pool_member k w r)"
  have en: "entries_ok R (S + handed_uses r) ?r"
    by (rule entries_ok_new [OF reg_okD(1) [OF ok] refl]) simp_all
  have old: "en_pool (rg_entries r e) \<noteq> None \<Longrightarrow> \<not> parked (rg_entries r e)" for e
    using reg_okD(2) [OF ok] by (simp add: lists_ok_def)
  have pools: "pool_ok R (rg_entries ?r) (rg_next ?r) (rg_tickets ?r) j (rg_pools ?r j)" for j
    using lists_okD [OF reg_okD(2) [OF ok], of j] unfolding pool_ok_def by (auto simp: less_Suc_eq)
  have cur: "e < rg_next ?r \<and> en_pool (rg_entries ?r e) = None" if "rg_current ?r key = Some e" for key e
    using reg_okD(2) [OF ok] that by (auto simp: lists_ok_def less_Suc_eq)
  have li: "lists_ok R ?r"
    unfolding lists_ok_def using pools cur old w by (auto simp: parked_def)
  have "resting (insert (rg_next r) X) ?r"
    using reg_okD(3) [OF ok] by (auto simp: resting_def less_Suc_eq)
  with en li show ?thesis by (simp add: reg_ok_def)
qed

subsection \<open>Serving the waiters\<close>

lemma reg_ok_handed:
  "reg_ok R (add_mset (wt_scope n, e) S) X r \<Longrightarrow> reg_ok R S X (r\<lparr>rg_handed := rg_handed r @ [(n, e)]\<rparr>)"
  unfolding reg_ok_def entries_ok_def lists_ok_def resting_def handed_uses_def by simp

lemma reg_ok_waiters:
  assumes "reg_ok R S X r" "set ws \<subseteq> set (pl_waiters (rg_pools r k))"
  shows "reg_ok R S X (upd_pool k (\<lambda>p. p\<lparr>pl_waiters := ws\<rparr>) r)"
  using assms(1) lists_okD [OF reg_okD(2) [OF assms(1)], of k] assms(2)
  by (intro reg_ok_pool) (auto simp: pool_ok_def)

lemma serve_one:
  assumes ok: "reg_ok R S X r" and ws: "pl_waiters (rg_pools r k) = n # rest"
    and e: "(e, r1) = (case free of Some e \<Rightarrow> (e, r) | None \<Rightarrow> pool_member k (wt_worker n) r)"
    and free: "free = warmest (rg_entries r) True (rg_pools r k)"
  defines "r' \<equiv> count_hold e (wt_worker n) (Some (wt_scope n)) (upd_pool k (\<lambda>p. p\<lparr>pl_waiters := rest\<rparr>) r1)"
  shows "reg_ok R S X (r'\<lparr>rg_handed := rg_handed r' @ [(n, e)]\<rparr>)"
proof (rule reg_ok_handed)
  have n: "\<not> R (wt_scope n)" "w_Rung (wt_worker n) = RungLaunch"
    using waiterD [OF reg_okD(2) [OF ok], of n k] ws by simp_all
  show "reg_ok R (add_mset (wt_scope n, e) S) X r'"
  proof (cases free)
    case (Some x)
    then have x: "e = x" "r1 = r" "x \<in> set (pl_members (rg_pools r k))" "en_jobs (rg_entries r x) \<le> 0"
      using e free warmest_SomeD [of "rg_entries r" True "rg_pools r k" x] by auto
    have "reg_ok R S X (upd_pool k (\<lambda>p. p\<lparr>pl_waiters := rest\<rparr>) r)"
      by (rule reg_ok_waiters [OF ok]) (use ws in auto)
    then have "reg_ok R (add_mset (wt_scope n, e) S) (X - {e}) r'"
      unfolding r'_def x using x(3,4) n memberD [OF reg_okD(2) [OF ok] x(3)]
      by (intro reg_ok_count) simp_all
    then show ?thesis unfolding reg_ok_def by (auto intro: resting_mono)
  next
    case None
    then have x: "e = rg_next r" "r1 = snd (pool_member k (wt_worker n) r)"
      using e by (simp_all add: pool_member_def Let_def)
    have "reg_ok R S (insert e X) (upd_pool k (\<lambda>p. p\<lparr>pl_waiters := rest\<rparr>) r1)"
      unfolding x by (rule reg_ok_waiters [OF reg_ok_member [OF ok n(2)]]) (use ws in auto)
    then have "reg_ok R (add_mset (wt_scope n, e) S) (insert e X - {e}) r'"
      unfolding r'_def using n x by (intro reg_ok_count) simp_all
    then show ?thesis unfolding reg_ok_def by (auto intro: resting_mono)
  qed
qed

lemma serve_loop_ok:
  "reg_ok R S X r \<Longrightarrow> pl_waiters (rg_pools r k) = ws \<Longrightarrow> reg_ok R S X (serve_loop k ws r)"
proof (induction ws arbitrary: r)
  case Nil
  then show ?case by simp
next
  case (Cons n rest)
  let ?free = "warmest (rg_entries r) True (rg_pools r k)"
  show ?case
  proof (cases "rg_closed r \<or> (?free = None \<and> \<not> room (rg_pools r k))")
    case True
    then show ?thesis using Cons.prems by (auto simp: Let_def)
  next
    case False
    obtain e r1 where e: "(e, r1) = (case ?free of Some e \<Rightarrow> (e, r) | None \<Rightarrow> pool_member k (wt_worker n) r)"
      by (metis surj_pair)
    let ?r' = "count_hold e (wt_worker n) (Some (wt_scope n)) (upd_pool k (\<lambda>p. p\<lparr>pl_waiters := rest\<rparr>) r1)"
    have ok: "reg_ok R S X (?r'\<lparr>rg_handed := rg_handed ?r' @ [(n, e)]\<rparr>)"
      using Cons.prems e by (intro serve_one) simp_all
    have "serve_loop k (n # rest) r = serve_loop k rest (?r'\<lparr>rg_handed := rg_handed ?r' @ [(n, e)]\<rparr>)"
      using False by (auto simp: Let_def e [symmetric] simp del: not_None_eq)
    then show ?thesis using Cons.IH [OF ok] by simp
  qed
qed

lemma serve_ok: "reg_ok R S X r \<Longrightarrow> reg_ok R S X (serve k r)"
  unfolding serve_def by (rule serve_loop_ok) simp_all

end
