(* ===== verification/MachineRegistry.thy ===== *)
theory MachineRegistry
  imports MachinePoolInv
begin

text \<open>
  The operations of the registry keep its invariant: taking a machine or a place in the queue, sharing,
  leaving, dropping, expiring, retiring, closing. \<open>gone_frame\<close> says that only the entry an operation
  answers to give back leaves service.
\<close>

subsection \<open>Giving up a hold\<close>

lemma entries_ok_release:
  assumes ok: "entries_ok R (add_mset (s, e) U) r"
    and h: "en_refs (f (rg_entries r e)) = en_refs (rg_entries r e) - 1" "en_pool (f (rg_entries r e)) = en_pool (rg_entries r e)"
      "en_gone (f (rg_entries r e)) = en_gone (rg_entries r e)"
    and jobs: "if en_pool (rg_entries r e) \<noteq> None \<and> \<not> R s
       then en_jobs (f (rg_entries r e)) = en_jobs (rg_entries r e) - 1
          \<and> (0 < en_jobs (f (rg_entries r e)) \<longrightarrow> en_holder (f (rg_entries r e)) = en_holder (rg_entries r e))
       else en_jobs (f (rg_entries r e)) = en_jobs (rg_entries r e) \<and> en_holder (f (rg_entries r e)) = en_holder (rg_entries r e)"
  shows "entries_ok R U (upd_entry e f r)"
proof -
  let ?h = "rg_entries r"
  have refs: "en_refs (?h x) = uses_of x U + (if x = e then 1 else 0)" for x
    using ok unfolding entries_ok_def by (auto split: if_splits)
  have js: "en_jobs (?h x) = jobs_of R x U + (if x = e \<and> \<not> R s then 1 else 0)" if "en_pool (?h x) \<noteq> None" for x
    using ok that unfolding entries_ok_def by (auto split: if_splits)
  have hold: "en_holder (f (?h e)) = Some t" if "(t, e) \<in># U" "en_pool (?h e) \<noteq> None" "\<not> R t" for t
  proof -
    have a: "en_holder (?h e) = Some t" using ok that unfolding entries_ok_def by simp
    have "0 < jobs_of R e U" using that by (intro jobs_of_pos)
    with js [OF that(2)] jobs a that show ?thesis by (auto split: if_splits)
  qed
  have rest: "en_holder (?h x) = Some t" if "(t, x) \<in># U" "en_pool (?h x) \<noteq> None" "\<not> R t" for t x
    using ok that unfolding entries_ok_def by simp
  have fresh: "uses_of x U = 0 \<and> en_gone (?h x) = Serving" if "rg_next r \<le> x" for x
    using ok that unfolding entries_ok_def by (auto split: if_splits)
      (metis add_nonneg_eq_0_iff uses_of_nonneg zero_le_one)+
  have gone: "uses_of x U = 0" if "\<not> rg_closed r" "en_gone (?h x) \<noteq> Serving" for x
    using ok that unfolding entries_ok_def
    by (auto split: if_splits) (metis add_nonneg_eq_0_iff uses_of_nonneg zero_le_one)+
  show ?thesis
    unfolding entries_ok_def
    using refs js hold rest fresh gone h jobs by (auto split: if_splits)
qed

lemma reg_ok_release:
  assumes ok: "reg_ok R (add_mset (s, e) S) X r"
    and h: "en_refs (f (rg_entries r e)) = en_refs (rg_entries r e) - 1" "en_pool (f (rg_entries r e)) = en_pool (rg_entries r e)"
      "en_gone (f (rg_entries r e)) = en_gone (rg_entries r e)"
      "en_source (f (rg_entries r e)) = en_source (rg_entries r e)"
      "en_retired (f (rg_entries r e)) = en_retired (rg_entries r e)"
    and jobs: "if en_pool (rg_entries r e) \<noteq> None \<and> \<not> R s
       then en_jobs (f (rg_entries r e)) = en_jobs (rg_entries r e) - 1
          \<and> (0 < en_jobs (f (rg_entries r e)) \<longrightarrow> en_holder (f (rg_entries r e)) = en_holder (rg_entries r e))
       else en_jobs (f (rg_entries r e)) = en_jobs (rg_entries r e) \<and> en_holder (f (rg_entries r e)) = en_holder (rg_entries r e)"
  shows "reg_ok R S (insert e X) (upd_entry e f r)"
proof -
  have "entries_ok R (add_mset (s, e) (S + handed_uses r)) r" using reg_okD(1) [OF ok] by simp
  then have "entries_ok R (S + handed_uses r) (upd_entry e f r)"
    using h jobs by (intro entries_ok_release)
  moreover have "lists_ok R (upd_entry e f r)"
    using h by (intro lists_ok_upd_entry [OF reg_okD(2) [OF ok]])
  moreover have "resting (insert e X) (upd_entry e f r)"
    using reg_okD(3) [OF ok] by (auto simp: resting_def)
  ultimately show ?thesis by (simp add: reg_ok_def)
qed

text \<open>\<^verbatim>\<open>drop\<close> up to its first test: the reference, and a job's hold on a pool machine.\<close>

definition unhold :: "bool \<Rightarrow> bool \<Rightarrow> nat \<Rightarrow> registry \<Rightarrow> registry" where
  "unhold own rides e r0 =
     (let r1 = upd_entry e (\<lambda>h. h\<lparr>en_refs := en_refs h - 1\<rparr>) r0
      in if en_pool (rg_entries r1 e) \<noteq> None \<and> \<not> rides then letGo e own r1 else r1)"

lemma reg_ok_same:
  assumes "reg_ok R S X r" "rg_entries r' = rg_entries r" "rg_next r' = rg_next r" "rg_current r' = rg_current r"
    "rg_pools r' = rg_pools r" "rg_closed r' = rg_closed r" "rg_handed r' = rg_handed r" "rg_tickets r' = rg_tickets r"
  shows "reg_ok R S X r'"
  using assms unfolding reg_ok_def entries_ok_def lists_ok_def resting_def handed_uses_def by simp

lemma upd_entry_twice: "upd_entry e g (upd_entry e f r) = upd_entry e (\<lambda>h. g (f h)) r"
  by (simp add: upd_entry_def)

lemma unhold_ok:
  assumes ok: "reg_ok R (add_mset (s, e) S) X r"
  shows "reg_ok R S (insert e X) (unhold own (R s) e r)"
proof (cases "en_pool (rg_entries r e) \<noteq> None \<and> \<not> R s")
  case False
  have "reg_ok R S (insert e X) (upd_entry e (\<lambda>h. h\<lparr>en_refs := en_refs h - 1\<rparr>) r)"
    by (rule reg_ok_release [OF ok]) (use False in auto)
  with False show ?thesis by (auto simp: unhold_def)
next
  case True
  let ?k = "the (en_pool (rg_entries r e))"
  define used where "used = pl_used (rg_pools r ?k) + 1"
  let ?f = "\<lambda>h. h\<lparr>en_refs := en_refs h - 1, en_jobs := en_jobs h - 1\<rparr>"
  let ?g = "\<lambda>h. (?f h)\<lparr>en_holder := None, en_used := used\<rparr>"
  have f: "reg_ok R S (insert e X) (upd_entry e ?f r)"
    by (rule reg_ok_release [OF ok]) (use True in auto)
  show ?thesis
  proof (cases "1 < en_jobs (rg_entries r e)")
    case big: True
    with True f show ?thesis by (simp add: unhold_def letGo_def Let_def upd_entry_twice)
  next
    case small: False
    have g: "reg_ok R S (insert e X) (upd_entry e ?g r)"
      by (rule reg_ok_release [OF ok]) (use True small in auto)
    let ?r = "upd_pool ?k (\<lambda>p. p\<lparr>pl_used := used\<rparr>) (upd_entry e ?g r)"
    have u: "reg_ok R S (insert e X) ?r"
      using lists_okD [OF reg_okD(2) [OF g], of ?k] by (intro reg_ok_pool [OF g]) (simp add: pool_ok_def)
    have "unhold own (R s) e r = (if e \<notin> set (pl_members (rg_pools r ?k)) \<or> own then ?r else serve ?k ?r)"
      using True small unfolding unhold_def letGo_def used_def
      by (simp add: Let_def upd_entry_twice)
    then show ?thesis using u serve_ok [OF u] by simp
  qed
qed

subsection \<open>Taking an entry out of service\<close>

lemma reg_ok_withdraw_pool:
  assumes ok: "reg_ok R S X r" and e: "e < rg_next r" "en_pool (rg_entries r e) = Some k"
    and f: "en_refs (f (rg_entries r e)) = en_refs (rg_entries r e)" "en_pool (f (rg_entries r e)) = en_pool (rg_entries r e)"
      "en_source (f (rg_entries r e)) = en_source (rg_entries r e)"
      "en_jobs (f (rg_entries r e)) = en_jobs (rg_entries r e)" "en_holder (f (rg_entries r e)) = en_holder (rg_entries r e)"
    and gone: "en_gone (f (rg_entries r e)) = en_gone (rg_entries r e)
       \<or> (en_gone (f (rg_entries r e)) \<noteq> Serving \<and> (rg_closed r \<or> en_refs (rg_entries r e) = 0))"
    and idle: "en_idle (f (rg_entries r e)) = en_idle (rg_entries r e) \<or> en_gone (f (rg_entries r e)) \<noteq> Serving"
  shows "e \<in> set (pl_members (rg_pools r k))
      \<Longrightarrow> reg_ok R S (if en_gone (f (rg_entries r e)) = Serving then X else X - {e})
            (upd_pool k (\<lambda>p. p\<lparr>pl_members := remove1 e (pl_members p)\<rparr>) (upd_entry e f r))"
    and "reg_ok R S (if en_gone (f (rg_entries r e)) = Serving then X else X - {e}) (forget e (upd_entry e f r))"
proof -
  let ?r = "upd_entry e f r"
  let ?rm = "\<lambda>p. p\<lparr>pl_members := remove1 e (pl_members p)\<rparr>"
  let ?X = "if en_gone (f (rg_entries r e)) = Serving then X else X - {e}"
  have li: "lists_ok R r" and en: "entries_ok R (S + handed_uses r) r" and re: "resting X r"
    using ok by (simp_all add: reg_ok_def)
  have only: "j = k" if "e \<in> set (pl_members (rg_pools r j))" for j
    using memberD(2) [OF li that] e(2) by simp
  have en': "entries_ok R (S + handed_uses r) ?r"
    using en e f gone unfolding entries_ok_def by (auto split: if_splits)
  have re': "resting ?X ?r" using re f idle gone by (auto simp: resting_def)
  have po: "pool_ok R (rg_entries ?r) (rg_next ?r) (rg_tickets ?r) j (rg_pools r j)" if "e \<notin> set (pl_members (rg_pools r j))" for j
    using lists_okD [OF li, of j] that unfolding pool_ok_def by auto
  have rm: "pool_ok R (rg_entries ?r) (rg_next ?r) (rg_tickets ?r) k (?rm (rg_pools r k))"
    using lists_okD [OF li, of k] unfolding pool_ok_def by (auto dest: notin_set_remove1)
  have out: "lists_ok R (upd_pool k g ?r)" if "pool_ok R (rg_entries ?r) (rg_next ?r) (rg_tickets ?r) k (g (rg_pools r k))" for g
    unfolding lists_ok_def
  proof (intro conjI allI impI)
    fix j
    show "pool_ok R (rg_entries (upd_pool k g ?r)) (rg_next (upd_pool k g ?r)) (rg_tickets (upd_pool k g ?r)) j
        (rg_pools (upd_pool k g ?r) j)"
      using that po [of j] only [of j] by (cases "j = k") auto
  next
    fix key x
    assume "rg_current (upd_pool k g ?r) key = Some x"
    then have "rg_current r key = Some x" by simp
    then have "x < rg_next r \<and> en_pool (rg_entries r x) = None" using li unfolding lists_ok_def by blast
    then show "x < rg_next (upd_pool k g ?r)" "en_pool (rg_entries (upd_pool k g ?r) x) = None" using f(2) by auto
  next
    fix x
    assume "en_pool (rg_entries (upd_pool k g ?r) x) \<noteq> None"
    then have "en_pool (rg_entries r x) \<noteq> None" using f(2) by (auto split: if_splits)
    then have "\<not> parked (rg_entries r x)" using li unfolding lists_ok_def by blast
    then show "\<not> parked (rg_entries (upd_pool k g ?r) x)" using f(3) by (auto simp: parked_def)
  qed
  have left: "reg_ok R S ?X (upd_pool k ?rm ?r)" using en' re' out [of ?rm, OF rm] by (simp add: reg_ok_def)
  then show "e \<in> set (pl_members (rg_pools r k)) \<Longrightarrow> reg_ok R S ?X (upd_pool k ?rm ?r)" by simp
  show "reg_ok R S ?X (forget e ?r)"
  proof (cases "e \<in> set (pl_members (rg_pools r k))")
    case True
    from left have "reg_ok R S ?X (serve k (upd_pool k ?rm ?r))" by (rule serve_ok)
    moreover have "forget e ?r = serve k (upd_pool k ?rm ?r)"
      using True e f(2) unfolding forget_def leavePool_def by (simp add: Let_def)
    ultimately show ?thesis by simp
  next
    case False
    have "lists_ok R (upd_pool k (\<lambda>p. p) ?r)" by (rule out) (rule po [OF False])
    moreover have "upd_pool k (\<lambda>p. p) ?r = ?r" by (simp add: upd_pool_def)
    moreover have "forget e ?r = ?r"
      using False e f(2) unfolding forget_def leavePool_def by (simp add: Let_def)
    ultimately show ?thesis using en' re' by (simp add: reg_ok_def)
  qed
qed

lemma reg_ok_withdraw_shared:
  assumes ok: "reg_ok R S X r" and e: "e < rg_next r" "en_pool (rg_entries r e) = None"
    and f: "en_refs (f (rg_entries r e)) = en_refs (rg_entries r e)" "en_pool (f (rg_entries r e)) = en_pool (rg_entries r e)"
    and gone: "en_gone (f (rg_entries r e)) = en_gone (rg_entries r e)
       \<or> (en_gone (f (rg_entries r e)) \<noteq> Serving \<and> (rg_closed r \<or> en_refs (rg_entries r e) = 0))"
    and idle: "en_idle (f (rg_entries r e)) = en_idle (rg_entries r e) \<or> en_gone (f (rg_entries r e)) \<noteq> Serving"
  shows "reg_ok R S (if en_gone (f (rg_entries r e)) = Serving then X else X - {e}) (upd_entry e f r)"
    and "reg_ok R S (if en_gone (f (rg_entries r e)) = Serving then X else X - {e}) (forget e (upd_entry e f r))"
proof -
  let ?r = "upd_entry e f r"
  let ?X = "if en_gone (f (rg_entries r e)) = Serving then X else X - {e}"
  have li: "lists_ok R r" and en: "entries_ok R (S + handed_uses r) r" and re: "resting X r"
    using ok by (simp_all add: reg_ok_def)
  have en': "entries_ok R (S + handed_uses r) ?r"
    using en e f gone unfolding entries_ok_def by (auto split: if_splits)
  have re': "resting ?X ?r" using re f idle gone by (auto simp: resting_def)
  have "e \<notin> set (pl_members (rg_pools r j))" for j
    using memberD(2) [OF li, of e j] e(2) by auto
  then have li': "lists_ok R ?r"
    using li e f unfolding lists_ok_def pool_ok_def by auto
  show "reg_ok R S ?X ?r" using en' re' li' by (simp add: reg_ok_def)
  have "lists_ok R (forget e ?r)" using li' e f by (auto simp: forget_def lists_ok_def)
  moreover have "entries_ok R (S + handed_uses r) (forget e ?r)" "resting ?X (forget e ?r)"
      "handed_uses (forget e ?r) = handed_uses r"
    using en' re' e f by (auto simp: forget_def entries_ok_def resting_def handed_uses_def)
  ultimately show "reg_ok R S ?X (forget e ?r)" by (simp add: reg_ok_def)
qed

lemma takeOut_ok:
  assumes "reg_ok R S X r" "e < rg_next r" "rg_closed r \<or> en_refs (rg_entries r e) = 0"
  shows "reg_ok R S (X - {e}) (takeOut e r)"
proof (cases "en_pool (rg_entries r e)")
  case None
  show ?thesis
    using reg_ok_withdraw_shared [of R S X r e "\<lambda>h. h\<lparr>en_gone := Leaving\<rparr>"] assms None
    by (simp add: takeOut_def Let_def)
next
  case (Some k)
  moreover have "\<not> parked (rg_entries r e)" using reg_okD(2) [OF assms(1)] Some by (simp add: lists_ok_def)
  ultimately show ?thesis
    using reg_ok_withdraw_pool(2) [of R S X r e k "\<lambda>h. h\<lparr>en_gone := Leaving\<rparr>"] assms
    by (simp add: takeOut_def Let_def parked_def)
qed

lemma reg_ok_rest:
  "reg_ok R S (insert e X) r \<Longrightarrow> en_gone (rg_entries r e) \<noteq> Serving \<or> en_refs (rg_entries r e) \<noteq> 0 \<or> en_idle (rg_entries r e)
    \<Longrightarrow> reg_ok R S X r"
  by (auto simp: reg_ok_def resting_def)

lemma reg_ok_mono: "reg_ok R S X r \<Longrightarrow> X \<subseteq> Y \<Longrightarrow> reg_ok R S Y r"
  by (auto simp: reg_ok_def intro: resting_mono)

lemma held_in_range: "reg_ok R S X r \<Longrightarrow> (s, e) \<in># S \<Longrightarrow> e < rg_next r"
  using fresh_unused [of R "S + handed_uses r" r e s] by (auto simp: reg_ok_def not_less [symmetric])

text \<open>An update of fields the invariant does not read, but perhaps a timer started on an unused
  machine.\<close>

lemma reg_ok_quiet:
  assumes ok: "reg_ok R S X r"
    and f: "\<And>h. en_refs (f h) = en_refs h" "\<And>h. en_pool (f h) = en_pool h" "\<And>h. en_source (f h) = en_source h"
      "\<And>h. en_jobs (f h) = en_jobs h" "\<And>h. en_holder (f h) = en_holder h" "\<And>h. en_gone (f h) = en_gone h"
      "\<And>h. en_retired (f h) = en_retired h" "\<And>h. en_idle h \<Longrightarrow> en_idle (f h)"
  shows "reg_ok R S X (upd_entry e f r)"
  using ok f unfolding reg_ok_def entries_ok_def resting_def
  by (auto intro!: lists_ok_upd_entry)

subsection \<open>What an operation leaves alone\<close>

text \<open>No entry leaves service, loses a reference or its release, or is retired.\<close>

definition keeps :: "registry \<Rightarrow> registry \<Rightarrow> bool" where
  "keeps r r' \<longleftrightarrow>
     rg_next r \<le> rg_next r' \<and> rg_closed r' = rg_closed r
     \<and> (\<forall>e. (rg_next r \<le> e \<longrightarrow> en_gone (rg_entries r e) = Serving)
          \<longrightarrow> en_gone (rg_entries r' e) = en_gone (rg_entries r e))
     \<and> (\<forall>e < rg_next r. en_retired (rg_entries r' e) = en_retired (rg_entries r e)
          \<and> en_refs (rg_entries r e) \<le> en_refs (rg_entries r' e)
          \<and> en_pool (rg_entries r' e) = en_pool (rg_entries r e)
          \<and> en_release (rg_entries r' e) = en_release (rg_entries r e))"

lemma keeps_refl [simp]: "keeps r r"
  by (simp add: keeps_def)

lemma keeps_trans [trans]: "keeps r s \<Longrightarrow> keeps s t \<Longrightarrow> keeps r t"
  unfolding keeps_def
  by (intro conjI) (auto intro: order_trans dest: less_le_trans)

lemma keepsD:
  assumes "keeps r r'" "e < rg_next r"
  shows "en_gone (rg_entries r' e) = en_gone (rg_entries r e)" "en_retired (rg_entries r' e) = en_retired (rg_entries r e)"
    "en_refs (rg_entries r e) \<le> en_refs (rg_entries r' e)" "en_pool (rg_entries r' e) = en_pool (rg_entries r e)"
    "en_release (rg_entries r' e) = en_release (rg_entries r e)" "e < rg_next r'" "rg_closed r' = rg_closed r"
  using assms by (auto simp: keeps_def)

lemma keeps_pool [simp, pool_simps]: "keeps r (upd_pool k g r)"
  by (simp add: keeps_def)

lemma keeps_count [simp, pool_simps]: "keeps r (count_hold e w job r)"
  by (simp add: keeps_def)

lemma keeps_member [simp, pool_simps]: "keeps r (snd (pool_member k w r))"
  by (simp add: keeps_def)

lemma keeps_handed: "keeps r r' \<Longrightarrow> keeps r (r'\<lparr>rg_handed := hs\<rparr>)"
  by (simp add: keeps_def)

lemma serve_loop_keeps: "keeps r (serve_loop k ws r)"
proof (induction ws arbitrary: r)
  case Nil
  then show ?case by simp
next
  case (Cons n rest)
  let ?free = "warmest (rg_entries r) True (rg_pools r k)"
  show ?case
  proof (cases "rg_closed r \<or> (?free = None \<and> \<not> room (rg_pools r k))")
    case True
    then show ?thesis by (auto simp: Let_def)
  next
    case False
    obtain x r1 where x: "(x, r1) = (case ?free of Some e \<Rightarrow> (e, r) | None \<Rightarrow> pool_member k (wt_worker n) r)"
      by (metis surj_pair)
    let ?r' = "count_hold x (wt_worker n) (Some (wt_scope n)) (upd_pool k (\<lambda>p. p\<lparr>pl_waiters := rest\<rparr>) r1)"
    have "r1 = (if ?free = None then snd (pool_member k (wt_worker n) r) else r)"
      using x by (cases ?free) (auto simp: prod_eq_iff)
    then have "keeps r r1" by simp
    also have "keeps r1 (upd_pool k (\<lambda>p. p\<lparr>pl_waiters := rest\<rparr>) r1)" by simp
    also have "keeps (upd_pool k (\<lambda>p. p\<lparr>pl_waiters := rest\<rparr>) r1) ?r'" by simp
    finally have "keeps r (?r'\<lparr>rg_handed := rg_handed ?r' @ [(n, x)]\<rparr>)" by (rule keeps_handed)
    also have "keeps (?r'\<lparr>rg_handed := rg_handed ?r' @ [(n, x)]\<rparr>) (serve_loop k rest (?r'\<lparr>rg_handed := rg_handed ?r' @ [(n, x)]\<rparr>))"
      by (rule Cons.IH)
    also have "serve_loop k rest (?r'\<lparr>rg_handed := rg_handed ?r' @ [(n, x)]\<rparr>) = serve_loop k (n # rest) r"
      using False by (auto simp: Let_def x [symmetric] simp del: not_None_eq)
    finally show ?thesis .
  qed
qed

lemma serve_keeps [simp, pool_simps]: "keeps r (serve k r)"
  by (simp add: serve_def serve_loop_keeps)

lemma leavePool_keeps [simp, pool_simps]: "keeps r (leavePool e r)"
  using keeps_trans [OF keeps_pool serve_keeps] by (simp add: leavePool_def Let_def)

lemma forget_keeps [simp, pool_simps]: "keeps r (forget e r)"
  unfolding forget_def by (auto intro: leavePool_keeps) (simp add: keeps_def)

lemma keeps_quiet:
  assumes "\<And>h. en_gone (f h) = en_gone h" "\<And>h. en_retired (f h) = en_retired h" "\<And>h. en_refs (f h) = en_refs h"
    "\<And>h. en_pool (f h) = en_pool h" "\<And>h. en_release (f h) = en_release h"
  shows "keeps r (upd_entry e f r)"
  using assms by (simp add: keeps_def)

lemma letGo_keeps [simp, pool_simps]: "keeps r (letGo e own r)"
proof -
  let ?r = "upd_entry e (\<lambda>h. h\<lparr>en_jobs := en_jobs h - 1\<rparr>) r"
  have a: "keeps r ?r" by (rule keeps_quiet) simp_all
  have b: "keeps ?r (upd_entry e (\<lambda>h. h\<lparr>en_holder := None, en_used := u\<rparr>) ?r)" for u
    by (rule keeps_quiet) simp_all
  note k = keeps_trans [OF keeps_trans [OF a b] keeps_pool]
  show ?thesis
    unfolding letGo_def Let_def
    using a k keeps_trans [OF k serve_keeps] by (simp del: upd_entry_simps upd_pool_simps)
qed

subsection \<open>Dropping, expiring, retiring\<close>

lemma lease_drop_unhold:
  "lease_drop own rides e r =
     (let r' = unhold own rides e r; h = rg_entries r' e
      in if en_refs h > 0 \<or> en_gone h \<noteq> Serving then (False, r')
         else if own \<or> rg_closed r' \<or> en_retired h \<or> en_window h \<le> 0 \<or> \<not> holding h then (True, takeOut e r')
         else (False, upd_entry e (\<lambda>h. h\<lparr>en_gen := en_gen h + 1, en_idle := True\<rparr>) r'))"
  by (simp add: lease_drop_def unhold_def Let_def)

lemma lease_drop_ok:
  assumes ok: "reg_ok R (add_mset (s, e) S) {} r"
  shows "reg_ok R S {} (snd (lease_drop own (R s) e r))"
proof -
  let ?u = "unhold own (R s) e r"
  have u: "reg_ok R S {e} ?u" by (rule unhold_ok [OF ok])
  have e: "e < rg_next r" by (rule held_in_range [OF ok, of s]) simp
  have "rg_next r \<le> rg_next ?u"
    using letGo_keeps [of "upd_entry e (\<lambda>h. h\<lparr>en_refs := en_refs h - 1\<rparr>) r" e own]
    by (auto simp: unhold_def Let_def keeps_def)
  with e have e': "e < rg_next ?u" by simp
  have z: "en_refs (rg_entries ?u e) = 0" if "\<not> 0 < en_refs (rg_entries ?u e)"
    using that refs_nonneg [OF reg_okD(1) [OF u], of e] by simp
  have t: "reg_ok R S {} (takeOut e ?u)" if "\<not> 0 < en_refs (rg_entries ?u e)"
    using takeOut_ok [OF u e'] z [OF that] by simp
  have i: "reg_ok R S {} (upd_entry e (\<lambda>h. h\<lparr>en_gen := en_gen h + 1, en_idle := True\<rparr>) ?u)"
    by (rule reg_ok_rest [OF reg_ok_quiet [OF u]]) simp_all
  have r: "reg_ok R S {} ?u" if "0 < en_refs (rg_entries ?u e) \<or> en_gone (rg_entries ?u e) \<noteq> Serving"
    by (rule reg_ok_rest [OF u]) (use that in auto)
  show ?thesis
    unfolding lease_drop_unhold using t i r by (auto simp: Let_def simp del: upd_entry_simps)
qed

lemma expire_ok:
  assumes ok: "reg_ok R S {} r" and e: "e < rg_next r"
  shows "reg_ok R S {} (snd (expire e gen r))"
proof (cases "en_refs (rg_entries r e) > 0 \<or> en_gen (rg_entries r e) \<noteq> gen \<or> en_gone (rg_entries r e) \<noteq> Serving")
  case True
  then show ?thesis using ok by (simp add: expire_def Let_def)
next
  case False
  let ?r = "upd_entry e (\<lambda>h. h\<lparr>en_idle := False\<rparr>) r"
  have z: "en_refs (rg_entries r e) = 0" using False refs_nonneg [OF reg_okD(1) [OF ok], of e] by simp
  have "reg_ok R S {e} ?r"
    using ok unfolding reg_ok_def entries_ok_def resting_def by (auto intro!: lists_ok_upd_entry)
  from takeOut_ok [OF this, of e] e z have "reg_ok R S {} (takeOut e ?r)" by simp
  with False show ?thesis by (simp add: expire_def Let_def)
qed

lemma reserve_place_ok:
  assumes ok: "pool_ok R h n t k p"
  shows "pool_ok R h n t k (reserve_place s p)"
proof (cases "map_of (pl_reserved p) s")
  case None
  then have "s \<notin> fst ` set (pl_reserved p)" by (simp add: map_of_eq_None_iff)
  with None ok show ?thesis by (auto simp: pool_ok_def reserve_place_def)
next
  case (Some c)
  have "1 \<le> c" using ok map_of_SomeD [OF Some] by (auto simp: pool_ok_def)
  then have "\<forall>x \<in> set (set_place s (c + 1) (pl_reserved p)). 1 \<le> snd x"
    using ok by (auto simp: pool_ok_def dest: set_place_set)
  then show ?thesis using ok Some by (simp add: pool_ok_def reserve_place_def)
qed

lemma reserveFor_ok:
  assumes ok: "reg_ok R S X r"
  shows "reg_ok R S X (reserveFor e r)"
proof -
  have "reg_ok R S X (upd_pool k (reserve_place s) r)" for k s
    by (rule reg_ok_pool [OF ok]) (rule reserve_place_ok [OF lists_okD [OF reg_okD(2) [OF ok]]])
  with ok show ?thesis by (simp add: reserveFor_def split: option.split)
qed

lemma reserveFor_simps [simp, pool_simps]:
  "rg_entries (reserveFor e r) = rg_entries r" "rg_next (reserveFor e r) = rg_next r"
  "rg_closed (reserveFor e r) = rg_closed r"
  by (auto simp: reserveFor_def split: option.splits)

lemma retire_ok:
  assumes ok: "reg_ok R S {} r" and e: "e < rg_next r"
  shows "reg_ok R S {} (retire e r)"
proof (cases "en_pool (rg_entries r e)")
  case None
  show ?thesis
    using reg_ok_withdraw_shared(2) [OF reserveFor_ok [OF ok], of e e "\<lambda>h. h\<lparr>en_retired := True\<rparr>"] e None
    by (simp add: retire_def split: if_splits)
next
  case (Some k)
  show ?thesis
    using reg_ok_withdraw_pool(2) [OF reserveFor_ok [OF ok], of e e k "\<lambda>h. h\<lparr>en_retired := True\<rparr>"] e Some
    by (simp add: retire_def split: if_splits)
qed

lemma retire_keeps_service:
  "en_gone (rg_entries (retire e r) x) = en_gone (rg_entries r x) \<and> rg_next r \<le> rg_next (retire e r)
     \<and> rg_closed (retire e r) = rg_closed r"
  if "rg_next r \<le> x \<longrightarrow> en_gone (rg_entries r x) = Serving"
  using that forget_keeps [of "upd_entry e (\<lambda>h. h\<lparr>en_retired := True\<rparr>) (reserveFor e r)" e]
  by (auto simp: retire_def keeps_def)

lemma unreserve_in_ok: "reg_ok R S X r \<Longrightarrow> reg_ok R S X (unreserve_in s k r)"
proof -
  assume ok: "reg_ok R S X r"
  have "reg_ok R S X (upd_pool k (\<lambda>p. p\<lparr>pl_reserved := filter (\<lambda>x. fst x \<noteq> s) (pl_reserved p)\<rparr>) r)"
    using lists_okD [OF reg_okD(2) [OF ok], of k]
    by (intro reg_ok_pool [OF ok]) (auto simp: pool_ok_def distinct_map_filter)
  with ok show ?thesis by (simp add: unreserve_in_def serve_ok)
qed

lemma unreserve_in_keeps: "keeps r (unreserve_in s k r)"
  using keeps_trans [OF keeps_pool serve_keeps] by (simp add: unreserve_in_def)

lemma unreserve_ok: "reg_ok R S X r \<Longrightarrow> reg_ok R S X (unreserve s r)"
proof -
  have "reg_ok R S X r \<Longrightarrow> reg_ok R S X (fold (unreserve_in s) ks r)" for ks
    by (induction ks arbitrary: r) (simp_all add: unreserve_in_ok)
  then show "reg_ok R S X r \<Longrightarrow> reg_ok R S X (unreserve s r)" by (simp add: unreserve_def)
qed

lemma unreserve_keeps: "keeps r (unreserve s r)"
proof -
  have "keeps r (fold (unreserve_in s) ks r)" for ks
    by (induction ks arbitrary: r) (auto intro: keeps_trans unreserve_in_keeps)
  then show ?thesis by (simp add: unreserve_def)
qed

lemma forget_ok:
  assumes ok: "reg_ok R S X r" and e: "e < rg_next r"
  shows "reg_ok R S X (forget e r)"
proof -
  have id: "upd_entry e (\<lambda>h. h) r = r" by (simp add: upd_entry_def)
  have "resting (X - {e}) r \<Longrightarrow> resting X r" by (rule resting_mono) auto
  with reg_ok_withdraw_shared(2) [OF ok e, of "\<lambda>h. h"] reg_ok_withdraw_pool(2) [OF ok e, of _ "\<lambda>h. h"]
  show ?thesis
    by (cases "en_pool (rg_entries r e)") (auto simp: id intro: reg_ok_mono split: if_splits)
qed

lemma giveBack_end_ok:
  assumes ok: "reg_ok R S {} r" and e: "e < rg_next r" "en_gone (rg_entries r e) = Leaving"
  shows "reg_ok R S {} (giveBack_end e r)"
proof -
  let ?f = "forget e r"
  let ?l = "?f\<lparr>rg_live := (rg_live ?f)(e := False)\<rparr>"
  have f: "reg_ok R S {} ?l" by (rule reg_ok_same [OF forget_ok [OF ok e(1)]]) simp_all
  have g: "en_gone (rg_entries ?l e) = Leaving" using keepsD(1) [OF forget_keeps e(1), of e] e(2) by simp
  have nm: "e \<notin> set (pl_members (rg_pools ?l k))" for k
    using memberD(4) [OF reg_okD(2) [OF f], of e k] g by auto
  have "entries_ok R (S + handed_uses ?l) (upd_entry e (\<lambda>h. h\<lparr>en_gone := Given\<rparr>) ?l)"
    using reg_okD(1) [OF f] g unfolding entries_ok_def by (auto split: if_splits)
  moreover have "lists_ok R (upd_entry e (\<lambda>h. h\<lparr>en_gone := Given\<rparr>) ?l)"
    using reg_okD(2) [OF f] nm unfolding lists_ok_def pool_ok_def parked_def by auto
  moreover have "resting {} (upd_entry e (\<lambda>h. h\<lparr>en_gone := Given\<rparr>) ?l)"
    using reg_okD(3) [OF f] by (auto simp: resting_def)
  ultimately show ?thesis
    by (simp add: giveBack_end_def Let_def reg_ok_def del: upd_entry_simps)
qed

subsection \<open>Taking\<close>

lemma lists_ok_pool_of:
  assumes "reg_ok R S X r"
  shows "reg_ok R S X (pool_of k m r)"
proof -
  have "pool_ok R h n t k (new_pool m)" for h n t by (simp add: pool_ok_def)
  with assms show ?thesis
    unfolding pool_of_def reg_ok_def entries_ok_def lists_ok_def resting_def handed_uses_def by auto
qed

lemma pool_of_simps [simp, pool_simps]:
  "rg_entries (pool_of k m r) = rg_entries r" "rg_next (pool_of k m r) = rg_next r"
  "rg_closed (pool_of k m r) = rg_closed r" "rg_handed (pool_of k m r) = rg_handed r"
  "rg_tickets (pool_of k m r) = rg_tickets r" "rg_current (pool_of k m r) = rg_current r"
  by (simp_all add: pool_of_def)

lemma takeReserved_ok:
  assumes ok: "pool_ok R h n t k p"
  shows "pool_ok R h n t k (snd (takeReserved s p))"
proof (cases "map_of (pl_reserved p) s")
  case None
  with ok show ?thesis by (simp add: takeReserved_def)
next
  case (Some c)
  have "\<forall>x \<in> set (set_place s (c - 1) (pl_reserved p)). 1 \<le> snd x" if "\<not> c \<le> 1"
    using ok that by (auto simp: pool_ok_def dest: set_place_set)
  then show ?thesis using ok Some by (auto simp: pool_ok_def takeReserved_def distinct_map_filter)
qed

lemma enqueue_ok:
  assumes ok: "reg_ok R S X r" and w: "w_Rung w = RungLaunch" "\<not> R s"
  shows "reg_ok R S X (snd (enqueue s k w r))"
proof -
  let ?r = "r\<lparr>rg_tickets := Suc (rg_tickets r)\<rparr>"
  have "pool_ok R h n t j p \<Longrightarrow> pool_ok R h n (Suc t) j p" for h n t j p
    by (auto simp: pool_ok_def less_Suc_eq)
  then have r: "reg_ok R S X ?r"
    using ok unfolding reg_ok_def entries_ok_def lists_ok_def resting_def handed_uses_def by simp
  show ?thesis
    using lists_okD [OF reg_okD(2) [OF r], of k] w
    unfolding enqueue_def Let_def snd_conv
    by (intro reg_ok_pool [OF r]) (auto simp: pool_ok_def)
qed

text \<open>What a scope has after taking: one more hold on the machine it was answered, or its waiter.\<close>

definition takes :: "nat \<Rightarrow> taken \<Rightarrow> (nat \<times> nat) multiset \<Rightarrow> (nat \<times> nat) multiset" where
  "takes s t S = (case t of Taken e _ \<Rightarrow> add_mset (s, e) S | Queued _ \<Rightarrow> S)"

lemma take_new_ok:
  assumes ok: "reg_ok R S {} r" and w: "w_Rung w = RungLaunch" and j: "if R s then job = None else job = Some s"
  shows "reg_ok R (add_mset (s, rg_next r) S) {} (count_hold (rg_next r) w job (snd (pool_member k w r)))"
proof -
  have "reg_ok R (add_mset (s, rg_next r) S) (insert (rg_next r) {} - {rg_next r})
      (count_hold (rg_next r) w job (snd (pool_member k w r)))"
    by (rule reg_ok_count [OF reg_ok_member [OF ok w]]) (use j in \<open>auto split: if_splits\<close>)
  then show ?thesis by simp
qed

lemma take_ride_ok:
  assumes ok: "reg_ok R S {} r" and w: "w_Rung w = RungLaunch" "R s"
  shows "reg_ok R (takes s (fst (take_ride k w r)) S) {} (snd (take_ride k w r))"
proof (cases "warmest (rg_entries r) False (rg_pools r k)")
  case None
  then show ?thesis
    using take_new_ok [OF ok w(1), of s None k] w(2)
    by (simp add: take_ride_def takes_def pool_member_def Let_def)
next
  case (Some e)
  have m: "e \<in> set (pl_members (rg_pools r k))" by (rule warmest_SomeD(1) [OF Some])
  show ?thesis
    using reg_ok_count [OF ok memberD(1,4) [OF reg_okD(2) [OF ok] m], of None s w] w(2) Some
    by (simp add: take_ride_def takes_def)
qed

lemma take_job_ok:
  assumes ok: "reg_ok R S {} r" and w: "w_Rung w = RungLaunch" "\<not> R s"
  shows "reg_ok R (takes s (fst (take_job s k w r)) S) {} (snd (take_job s k w r))"
proof -
  obtain reserved p where p: "takeReserved s (rg_pools r k) = (reserved, p)" by (cases "takeReserved s (rg_pools r k)")
  let ?r = "upd_pool k (\<lambda>_. p) r"
  have "pool_ok R (rg_entries r) (rg_next r) (rg_tickets r) k p"
    using takeReserved_ok [OF lists_okD [OF reg_okD(2) [OF ok]], of k s] p by simp
  then have r: "reg_ok R S {} ?r" by (intro reg_ok_pool [OF ok])
  have q: "reg_ok R (takes s (fst (enqueue s k w ?r)) S) {} (snd (enqueue s k w ?r))"
    using enqueue_ok [OF r w, of k] by (simp add: enqueue_def takes_def Let_def)
  have n: "reg_ok R (add_mset (s, rg_next r) S) {} (count_hold (rg_next r) w (Some s) (snd (pool_member k w ?r)))"
    using take_new_ok [OF r w(1), of s "Some s" k] w(2) by simp
  have f: "reg_ok R (add_mset (s, e) S) {} (count_hold e w (Some s) ?r)" if e: "warmest (rg_entries ?r) True p = Some e" for e
  proof -
    have m: "e \<in> set (pl_members (rg_pools ?r k))" using warmest_SomeD(1) [OF e] by simp
    have j: "en_jobs (rg_entries ?r e) \<le> 0" using warmest_SomeD(2) [OF e] by simp
    show ?thesis
      using reg_ok_count [OF r memberD(1,4) [OF reg_okD(2) [OF r] m], of "Some s" s w] w(2) j by simp
  qed
  show ?thesis
    using q n f unfolding take_job_def p
    by (auto simp: Let_def takes_def split_def split: option.split)
qed

lemma pool_take_ok:
  assumes ok: "reg_ok R S {} r" and w: "w_Rung w = RungLaunch"
  shows "reg_ok R (takes s (fst (pool_take s (R s) w r)) S) {} (snd (pool_take s (R s) w r))"
  using take_ride_ok [OF lists_ok_pool_of [OF ok] w] take_job_ok [OF lists_ok_pool_of [OF ok] w]
  by (simp add: pool_take_def Let_def)

lemma keeps_tickets: "keeps r r' \<Longrightarrow> keeps r (r'\<lparr>rg_tickets := t\<rparr>)"
  by (simp add: keeps_def)

lemma enqueue_keeps: "keeps r (snd (enqueue s k w r))"
proof -
  have "keeps r (r\<lparr>rg_tickets := t\<rparr>)" for t by (rule keeps_tickets) simp
  then show ?thesis unfolding enqueue_def Let_def snd_conv by (blast intro: keeps_trans keeps_pool)
qed

lemma take_new_keeps: "keeps r (count_hold e w job (snd (pool_member k w r)))"
  by (blast intro: keeps_trans keeps_member keeps_count)

lemma pool_take_keeps: "keeps r (snd (pool_take s rides w r))"
proof -
  let ?k = "registryKey w"
  let ?r = "pool_of ?k (w_Max w) r"
  have a: "keeps r ?r" by (simp add: keeps_def)
  have b: "keeps ?r (snd (take_ride ?k w ?r))"
    using take_new_keeps [of ?r "rg_next ?r" w None ?k]
    by (auto simp: take_ride_def pool_member_def Let_def split: option.split)
  have c: "keeps ?r (snd (take_job s ?k w ?r))"
  proof -
    obtain reserved p where p: "takeReserved s (rg_pools ?r ?k) = (reserved, p)" by (cases "takeReserved s (rg_pools ?r ?k)")
    let ?q = "upd_pool ?k (\<lambda>_. p) ?r"
    have q: "keeps ?r ?q" by simp
    note k = keeps_trans [OF q enqueue_keeps [of ?q s ?k w]] keeps_trans [OF q take_new_keeps [of ?q "rg_next ?q" w "Some s" ?k]]
      keeps_trans [OF q keeps_count]
    show ?thesis
      using k unfolding take_job_def p
      by (auto simp: Let_def split_def split: option.split)
  qed
  show ?thesis
    using keeps_trans [OF a b] keeps_trans [OF a c] by (simp add: pool_take_def Let_def)
qed

lemma share_ok:
  assumes ok: "reg_ok R S {} r" and s: "(s, e) \<in># S"
    and sh: "share e w s (R s) r = (True, r')"
  shows "reg_ok R (add_mset (s, e) S) {} r'"
proof -
  have g: "en_gone (rg_entries r e) = Serving" and r': "r' = count_hold e w (if R s then None else Some s) r"
    using sh by (auto simp: share_def split: if_splits)
  have "en_pool (rg_entries r e) = None \<or> R s \<or> en_holder (rg_entries r e) = Some s"
    using holderD [OF reg_okD(1) [OF ok], of s e] s by auto
  then have who: "en_pool (rg_entries r e) = None \<or> (if (if R s then None else Some s) = None then R s
      else (if R s then None else Some s) = Some s \<and> \<not> R s
        \<and> (en_jobs (rg_entries r e) \<le> 0 \<or> en_holder (rg_entries r e) = Some s))"
    by auto
  show ?thesis
    using reg_ok_count [OF ok held_in_range [OF ok s] g who, of w] unfolding r' by simp
qed

lemma share_keeps: "share e w s rides r = (b, r') \<Longrightarrow> keeps r r'"
  by (auto simp: share_def split: if_splits)

lemma share_refused: "share e w s rides r = (False, r') \<Longrightarrow> r' = r"
  by (auto simp: share_def split: if_splits)

lemma hold_shared_ok:
  assumes ok: "reg_ok R S {} r" and w: "hold_shared w r = (HeldEntry e warm, r')"
  shows "reg_ok R (add_mset (s, e) S) {} r'"
proof (cases "rg_current r (registryKey w)")
  case (Some x)
  then have x: "x = e" "en_gone (rg_entries r e) = Serving" "r' = count_hold e w None r"
    using w by (auto simp: hold_shared_def Let_def split: if_splits)
  have "e < rg_next r \<and> en_pool (rg_entries r e) = None"
    using reg_okD(2) [OF ok] Some x unfolding lists_ok_def by blast
  then show ?thesis using reg_ok_count [OF ok, of e None s w] x by simp
next
  case None
  let ?e = "rg_next r"
  let ?r1 = "r\<lparr>rg_entries := (rg_entries r)(?e := new_entry w (registryKey w) None), rg_next := Suc ?e,
                rg_current := (rg_current r)(registryKey w := Some ?e), rg_live := (rg_live r)(?e := True)\<rparr>"
  have e: "e = ?e" and r': "r' = count_hold ?e w None ?r1"
    using w None by (auto simp: hold_shared_def Let_def)
  have li: "lists_ok R r" by (rule reg_okD(2) [OF ok])
  have en: "entries_ok R (S + handed_uses r) ?r1"
    by (rule entries_ok_new [OF reg_okD(1) [OF ok] refl]) simp_all
  have pools: "pool_ok R (rg_entries ?r1) (rg_next ?r1) (rg_tickets ?r1) k (rg_pools ?r1 k)" for k
    using lists_okD [OF li, of k] unfolding pool_ok_def by (auto simp: less_Suc_eq)
  have cur: "x < rg_next ?r1 \<and> en_pool (rg_entries ?r1 x) = None" if "rg_current ?r1 key = Some x" for key x
    using li that by (auto simp: lists_ok_def less_Suc_eq split: if_splits)
  have "lists_ok R ?r1"
    unfolding lists_ok_def using pools cur li by (auto simp: lists_ok_def parked_def)
  moreover have "resting {?e} ?r1"
    using reg_okD(3) [OF ok] by (auto simp: resting_def less_Suc_eq)
  ultimately have "reg_ok R S {?e} ?r1"
    using en by (simp add: reg_ok_def handed_uses_def)
  from reg_ok_count [OF this, of ?e None s w] show ?thesis unfolding e r' by simp
qed

lemma hold_shared_landing: "hold_shared w r = (Landing e, r') \<Longrightarrow> r' = r"
  by (auto simp: hold_shared_def Let_def split: option.splits if_splits)

lemma hold_shared_keeps: "hold_shared w r = (a, r') \<Longrightarrow> keeps r r'"
  by (auto simp: hold_shared_def Let_def keeps_def split: option.splits if_splits)

text \<open>Receiving a handed machine: the hold passes from the channel to the scope.\<close>

lemma receive_ok:
  assumes ok: "reg_ok R S X r" and n: "receive_handed n r = (Some e, r')"
  shows "reg_ok R (add_mset (wt_scope n, e) S) X r'"
proof -
  have r': "r' = r\<lparr>rg_handed := remove1 (n, e) (rg_handed r)\<rparr>" and m: "(n, e) \<in> set (rg_handed r)"
    using n by (auto simp: receive_handed_def dest: map_of_SomeD split: option.splits)
  have "mset (rg_handed r) = add_mset (n, e) (mset (remove1 (n, e) (rg_handed r)))"
    using m by simp
  then have "handed_uses r = add_mset (wt_scope n, e) (handed_uses r')"
    unfolding handed_uses_def r' by (simp del: mset_remove1)
  with ok show ?thesis
    unfolding reg_ok_def r' entries_ok_def lists_ok_def resting_def by simp
qed

lemma receive_none: "receive_handed n r = (None, r') \<Longrightarrow> r' = r"
  by (auto simp: receive_handed_def split: option.splits)

lemma receive_keeps: "receive_handed n r = (a, r') \<Longrightarrow> keeps r r'"
  by (auto simp: receive_handed_def keeps_def split: option.splits)

lemma leave_queue_ok:
  assumes ok: "reg_ok R S X r"
  shows "reg_ok R S X (upd_pool k (\<lambda>p. p\<lparr>pl_waiters := remove1 n (pl_waiters p)\<rparr>) r)"
  using lists_okD [OF reg_okD(2) [OF ok], of k]
  by (intro reg_ok_pool [OF ok]) (auto simp: pool_ok_def dest: notin_set_remove1)

subsection \<open>Closing\<close>

lemma takeOut_gone:
  "x \<noteq> e \<Longrightarrow> (rg_next r \<le> x \<longrightarrow> en_gone (rg_entries r x) = Serving) \<Longrightarrow> en_gone (rg_entries (takeOut e r) x) = en_gone (rg_entries r x)"
  "e < rg_next r \<Longrightarrow> en_gone (rg_entries (takeOut e r) e) = Leaving"
  "rg_next r \<le> rg_next (takeOut e r)" "rg_closed (takeOut e r) = rg_closed r"
  using forget_keeps [of "upd_entry e (\<lambda>h. h\<lparr>en_gone := Leaving\<rparr>) r" e]
  by (auto simp: takeOut_def Let_def keeps_def)

end
