(* ===== verification/MachineScopes.thy ===== *)
theory MachineScopes
  imports MachineRegistry
begin

text \<open>
  The scopes (\<^verbatim>\<open>Leases\<close>, one per job, poll or webhook delivery) and the steps of a process:
  claims, handovers, acquisitions, evictions, ends of scopes, idle timers, give-backs and the close, each
  critical section of \<^verbatim>\<open>lease.go\<close> and \<^verbatim>\<open>pool.go\<close> one step, in any order.
\<close>

subsection \<open>A scope\<close>

text \<open>
  \<open>lz_held\<close> and \<open>lz_warm\<close> are by tag; \<open>lz_waits\<close> are the goroutines of the scope inside
  \<^verbatim>\<open>queue\<close> (waiter, tag, registry key), whose keys are \<^verbatim>\<open>claiming\<close>; \<open>lz_dropping\<close>
  are the drops \<^verbatim>\<open>ReleaseAll\<close> has started and \<open>lz_ending\<close> says its \<^verbatim>\<open>unreserve\<close> is
  still to come.
\<close>

record leases =
  lz_own :: bool
  lz_rides :: bool
  lz_source :: "string \<Rightarrow> worker option"
  lz_held :: "(string \<times> nat) list"
  lz_retired :: "nat list"
  lz_warm :: "string \<Rightarrow> nat option"
  lz_waits :: "(waiter \<times> string \<times> string) list"
  lz_dropping :: "nat list"
  lz_ending :: bool

definition Leases :: "bool \<Rightarrow> bool \<Rightarrow> (string \<Rightarrow> worker option) \<Rightarrow> leases" where
  "Leases own rides source = \<lparr>lz_own = own, lz_rides = rides, lz_source = source, lz_held = [], lz_retired = [],
     lz_warm = (\<lambda>_. None), lz_waits = [], lz_dropping = [], lz_ending = False\<rparr>"

definition claiming :: "leases \<Rightarrow> string \<Rightarrow> bool" where
  "claiming l key \<longleftrightarrow> (\<exists>x \<in> set (lz_waits l). snd (snd x) = key)"

definition unheld :: "string \<Rightarrow> leases \<Rightarrow> leases" where
  "unheld tag l = l\<lparr>lz_held := filter (\<lambda>x. fst x \<noteq> tag) (lz_held l)\<rparr>"

text \<open>\<^verbatim>\<open>l.held[tag] = e\<close>, and \<^verbatim>\<open>l.warm[tag] = e\<close> when the machine is warm.\<close>

definition hold_as :: "string \<Rightarrow> nat \<Rightarrow> bool \<Rightarrow> leases \<Rightarrow> leases" where
  "hold_as tag e warm l =
     (unheld tag l)\<lparr>lz_held := (tag, e) # lz_held (unheld tag l),
        lz_warm := (if warm then (lz_warm l)(tag := Some e) else lz_warm l)\<rparr>"

datatype claimed = Claimed nat | AwaitLanding nat | AwaitSibling | AwaitTurn waiter

definition claimPool :: "nat \<Rightarrow> string \<Rightarrow> worker \<Rightarrow> leases \<Rightarrow> registry \<Rightarrow> claimed \<times> leases \<times> registry" where
  "claimPool s tag w l r =
     (let key = registryKey w in
      if claiming l key then (AwaitSibling, l, r)
      else case find (\<lambda>e. en_key (rg_entries r e) = key \<and> fst (share e w s (lz_rides l) r)) (map snd (lz_held l)) of
             Some e \<Rightarrow> (Claimed e, hold_as tag e False l, snd (share e w s (lz_rides l) r))
           | None \<Rightarrow>
               (case pool_take s (lz_rides l) w r of
                  (Taken e warm, r') \<Rightarrow> (Claimed e, hold_as tag e warm l, r')
                | (Queued n, r') \<Rightarrow> (AwaitTurn n, l\<lparr>lz_waits := (n, tag, key) # lz_waits l\<rparr>, r')))"

definition set_aside :: "string \<Rightarrow> leases \<Rightarrow> registry \<Rightarrow> leases" where
  "set_aside tag l r =
     (case map_of (lz_held l) tag of
        Some e \<Rightarrow> if en_retired (rg_entries r e) then (unheld tag l)\<lparr>lz_retired := lz_retired l @ [e]\<rparr> else l
      | None \<Rightarrow> l)"

definition claim :: "nat \<Rightarrow> string \<Rightarrow> worker \<Rightarrow> leases \<Rightarrow> registry \<Rightarrow> claimed \<times> leases \<times> registry" where
  "claim s tag w l0 r =
     (let l = set_aside tag l0 r in
      case map_of (lz_held l) tag of
        Some e \<Rightarrow> (Claimed e, l, r)
      | None \<Rightarrow>
          if w_Exclusive w then claimPool s tag w l r
          else (case hold_shared w r of
                  (HeldEntry e warm, r') \<Rightarrow> (Claimed e, hold_as tag e warm l, r')
                | (Landing e, r') \<Rightarrow> (AwaitLanding e, l, r')))"

text \<open>The end of \<^verbatim>\<open>queue\<close>: the machine adopted, the claim on the pool settled.\<close>

definition adopt :: "waiter \<Rightarrow> string \<Rightarrow> string \<Rightarrow> nat option \<Rightarrow> leases \<Rightarrow> leases" where
  "adopt n tag key got l =
     (let l' = l\<lparr>lz_waits := remove1 (n, tag, key) (lz_waits l)\<rparr>
      in case got of Some e \<Rightarrow> hold_as tag e False l' | None \<Rightarrow> l')"

definition Answered :: "string \<Rightarrow> leases \<Rightarrow> leases" where
  "Answered tag l = l\<lparr>lz_warm := (lz_warm l)(tag := None)\<rparr>"

definition ReusedWarm :: "string \<Rightarrow> leases \<Rightarrow> bool" where
  "ReusedWarm tag l \<longleftrightarrow> lz_warm l tag \<noteq> None \<and> lz_warm l tag = map_of (lz_held l) tag"

definition ReleaseAll :: "leases \<Rightarrow> leases" where
  "ReleaseAll l = l\<lparr>lz_dropping := lz_dropping l @ map snd (lz_held l) @ lz_retired l, lz_held := [], lz_retired := [],
     lz_warm := (\<lambda>_. None), lz_ending := True\<rparr>"

subsection \<open>The process\<close>

record venue =
  vn_reg :: registry
  vn_scopes :: "leases list"
  vn_giving :: "nat list"
  vn_released :: "nat list"

definition at_scope :: "nat \<Rightarrow> leases \<Rightarrow> registry \<Rightarrow> venue \<Rightarrow> venue" where
  "at_scope s l r v = v\<lparr>vn_scopes := (vn_scopes v)[s := l], vn_reg := r\<rparr>"

text \<open>Entries on their way back: \<open>go\<close> adds one when the registry answers so.\<close>

definition go :: "nat \<Rightarrow> bool \<times> registry \<Rightarrow> venue \<Rightarrow> venue" where
  "go e x v = v\<lparr>vn_reg := snd x, vn_giving := (if fst x then e # vn_giving v else vn_giving v)\<rparr>"

datatype event =
    Claim nat string | Receive nat waiter string string | Abort nat waiter string string
  | Resolve nat string worker bool "string option" bool
  | Abandon nat string string worker | SetAside nat string | Answer nat string
  | Release nat | Drop nat nat | Unreserve nat | Expire nat int | Give nat | GiveEnd nat | Close | CloseRest

definition do_claim :: "nat \<Rightarrow> string \<Rightarrow> worker \<Rightarrow> venue \<Rightarrow> venue" where
  "do_claim s tag w v = (case claim s tag w (vn_scopes v ! s) (vn_reg v) of (_, l, r) \<Rightarrow> at_scope s l r v)"

definition do_receive :: "nat \<Rightarrow> waiter \<Rightarrow> string \<Rightarrow> string \<Rightarrow> venue \<Rightarrow> venue" where
  "do_receive s n tag key v =
     (case receive_handed n (vn_reg v) of (got, r) \<Rightarrow> at_scope s (adopt n tag key got (vn_scopes v ! s)) r v)"

definition do_abort :: "nat \<Rightarrow> waiter \<Rightarrow> string \<Rightarrow> string \<Rightarrow> venue \<Rightarrow> venue" where
  "do_abort s n tag key v =
     (case leave n (vn_reg v) of (got, r) \<Rightarrow> at_scope s (adopt n tag key got (vn_scopes v ! s)) r v)"

text \<open>\<^verbatim>\<open>Abandon\<close> up to the registry's \<^verbatim>\<open>retire\<close>; setting the entry aside is a step of its
  own.\<close>

definition do_abandon :: "nat \<Rightarrow> string \<Rightarrow> string \<Rightarrow> worker \<Rightarrow> nat \<Rightarrow> worker \<Rightarrow> venue \<Rightarrow> venue" where
  "do_abandon s tag url dialed e spelling v =
     (case abandonIf url dialed spelling e (vn_reg v) of
        (False, _) \<Rightarrow> v
      | (True, r) \<Rightarrow>
          at_scope s (Answered tag (vn_scopes v ! s)) (if parked (rg_entries r e) then r else retire e r) v)"

definition do_drop :: "nat \<Rightarrow> nat \<Rightarrow> venue \<Rightarrow> venue" where
  "do_drop s e v =
     (let l = vn_scopes v ! s
      in go e (lease_drop (lz_own l) (lz_rides l) e (vn_reg v))
           (at_scope s (l\<lparr>lz_dropping := remove1 e (lz_dropping l)\<rparr>) (vn_reg v) v))"

definition do_close :: "nat list \<times> registry \<Rightarrow> venue \<Rightarrow> venue" where
  "do_close x v = v\<lparr>vn_reg := snd x, vn_giving := fst x @ vn_giving v\<rparr>"

definition do_give :: "nat \<Rightarrow> venue \<Rightarrow> venue" where
  "do_give e v =
     (case give e (vn_reg v) of
        (released, r) \<Rightarrow> v\<lparr>vn_reg := r, vn_released := (if released then e # vn_released v else vn_released v)\<rparr>)"

inductive vstep :: "event \<Rightarrow> venue \<Rightarrow> venue \<Rightarrow> bool" where
  claim: "s < length (vn_scopes v) \<Longrightarrow> lz_source (vn_scopes v ! s) tag = Some w \<Longrightarrow> needsAcquisition w
     \<Longrightarrow> vstep (Claim s tag) v (do_claim s tag w v)"
| receive: "s < length (vn_scopes v) \<Longrightarrow> (n, tag, key) \<in> set (lz_waits (vn_scopes v ! s))
     \<Longrightarrow> map_of (rg_handed (vn_reg v)) n \<noteq> None \<Longrightarrow> vstep (Receive s n tag key) v (do_receive s n tag key v)"
| abort: "s < length (vn_scopes v) \<Longrightarrow> (n, tag, key) \<in> set (lz_waits (vn_scopes v ! s))
     \<Longrightarrow> vstep (Abort s n tag key) v (do_abort s n tag key v)"
| resolve: "s < length (vn_scopes v) \<Longrightarrow> map_of (lz_held (vn_scopes v ! s)) tag = Some e
     \<Longrightarrow> vstep (Resolve s tag m rel err ended) v (v\<lparr>vn_reg := resolve_lease m rel err ended e (vn_reg v)\<rparr>)"
| abandon: "s < length (vn_scopes v) \<Longrightarrow> map_of (lz_held (vn_scopes v ! s)) tag = Some e
     \<Longrightarrow> lz_source (vn_scopes v ! s) tag = Some spelling
     \<Longrightarrow> vstep (Abandon s tag url dialed) v (do_abandon s tag url dialed e spelling v)"
| aside: "s < length (vn_scopes v)
     \<Longrightarrow> vstep (SetAside s tag) v (at_scope s (set_aside tag (vn_scopes v ! s) (vn_reg v)) (vn_reg v) v)"
| answer: "s < length (vn_scopes v)
     \<Longrightarrow> vstep (Answer s tag) v (at_scope s (Answered tag (vn_scopes v ! s)) (vn_reg v) v)"
| release: "s < length (vn_scopes v)
     \<Longrightarrow> vstep (Release s) v (at_scope s (ReleaseAll (vn_scopes v ! s)) (vn_reg v) v)"
| drop: "s < length (vn_scopes v) \<Longrightarrow> e \<in> set (lz_dropping (vn_scopes v ! s)) \<Longrightarrow> vstep (Drop s e) v (do_drop s e v)"
| unreserve: "s < length (vn_scopes v) \<Longrightarrow> lz_ending (vn_scopes v ! s) \<Longrightarrow> lz_dropping (vn_scopes v ! s) = []
     \<Longrightarrow> vstep (Unreserve s) v (at_scope s ((vn_scopes v ! s)\<lparr>lz_ending := False\<rparr>) (unreserve s (vn_reg v)) v)"
| expire: "e < rg_next (vn_reg v) \<Longrightarrow> vstep (Expire e gen) v (go e (expire e gen (vn_reg v)) v)"
| give: "e \<in> set (vn_giving v) \<Longrightarrow> vstep (Give e) v (do_give e v)"
| give_end: "e \<in> set (vn_giving v) \<Longrightarrow> \<not> en_release (rg_entries (vn_reg v) e)
     \<Longrightarrow> vstep (GiveEnd e) v (v\<lparr>vn_reg := giveBack_end e (vn_reg v), vn_giving := remove1 e (vn_giving v)\<rparr>)"
| close: "\<not> rg_closed (vn_reg v) \<Longrightarrow> vstep Close v (do_close (close_registry (vn_reg v)) v)"
| close_rest: "rg_closed (vn_reg v) \<Longrightarrow> vstep CloseRest v (do_close (giveBackHeld (vn_reg v)) v)"

inductive_cases vstepE: "vstep ev v v'"

text \<open>
  A process starts with an empty registry and the scopes it will open. What \<^verbatim>\<open>ParseWorker\<close>
  checks of a mapping: only a launch is exclusive, and its cap is not negative. A registry of one
  scope's own serves no other.
\<close>

definition worker_ok :: "worker \<Rightarrow> bool" where
  "worker_ok w \<longleftrightarrow> (w_Exclusive w \<longrightarrow> w_Rung w = RungLaunch \<and> 0 \<le> w_Max w)"

definition vinit :: "venue \<Rightarrow> bool" where
  "vinit v \<longleftrightarrow>
     vn_reg v = NewRegistryWith \<and> vn_giving v = [] \<and> vn_released v = []
     \<and> (\<forall>l \<in> set (vn_scopes v). l = Leases (lz_own l) (lz_rides l) (lz_source l)
          \<and> (\<forall>tag w. lz_source l tag = Some w \<longrightarrow> worker_ok w)
          \<and> (lz_own l \<longrightarrow> length (vn_scopes v) = 1))"

end
