(* ===== verification/MachineSteps.thy ===== *)
theory MachineSteps
  imports MachineScopes
begin

text \<open>
  The invariant of a process's machines over its steps: the registry's counts are the holds of the
  scopes, a tag a scope waits a turn for is held by nothing yet, and an entry is on its way back exactly
  while it is \<open>Leaving\<close>.
\<close>

subsection \<open>The holds of the scopes\<close>

definition scope_holds :: "leases \<Rightarrow> nat list" where
  "scope_holds l = map snd (lz_held l) @ lz_retired l @ lz_dropping l"

definition uses_by :: "nat \<Rightarrow> leases \<Rightarrow> (nat \<times> nat) multiset" where
  "uses_by s l = image_mset (Pair s) (mset (scope_holds l))"

definition scope_uses :: "leases list \<Rightarrow> (nat \<times> nat) multiset" where
  "scope_uses ls = (\<Sum>s < length ls. uses_by s (ls ! s))"

lemma scope_uses_split:
  assumes "s < length ls"
  shows "\<exists>rest. scope_uses ls = rest + uses_by s (ls ! s) \<and> (\<forall>l. scope_uses (ls[s := l]) = rest + uses_by s l)"
proof (intro exI conjI allI)
  let ?rest = "\<Sum>i \<in> {..<length ls} - {s}. uses_by i (ls ! i)"
  have f: "finite {..<length ls}" "s \<in> {..<length ls}" using assms by simp_all
  show "scope_uses ls = ?rest + uses_by s (ls ! s)"
    unfolding scope_uses_def using sum.remove [OF f, of "\<lambda>i. uses_by i (ls ! i)"] by (simp add: add.commute)
  show "scope_uses (ls[s := l]) = ?rest + uses_by s l" for l
  proof -
    have "(\<Sum>i \<in> {..<length ls} - {s}. uses_by i (ls[s := l] ! i)) = ?rest"
      by (rule sum.cong) auto
    then show ?thesis
      unfolding scope_uses_def using sum.remove [OF f, of "\<lambda>i. uses_by i (ls[s := l] ! i)"] assms
      by (simp add: add.commute)
  qed
qed

lemma scope_uses_mem:
  assumes "s < length ls" "e \<in> set (scope_holds (ls ! s))"
  shows "(s, e) \<in># scope_uses ls"
  using scope_uses_split [OF assms(1)] assms(2) by (auto simp: uses_by_def)

definition rides_of :: "venue \<Rightarrow> nat \<Rightarrow> bool" where
  "rides_of v s \<longleftrightarrow> s < length (vn_scopes v) \<and> lz_rides (vn_scopes v ! s)"

definition scope_ok :: "nat \<Rightarrow> leases \<Rightarrow> bool" where
  "scope_ok s l \<longleftrightarrow>
     (\<forall>tag w. lz_source l tag = Some w \<longrightarrow> worker_ok w)
     \<and> distinct (map fst (lz_held l))
     \<and> (\<forall>(n, tag, key) \<in> set (lz_waits l). wt_scope n = s \<and> tag \<notin> fst ` set (lz_held l)
          \<and> (\<exists>w. lz_source l tag = Some w \<and> w_Exclusive w \<and> key = registryKey w))
     \<and> distinct (map (\<lambda>x. snd (snd x)) (lz_waits l))"

definition giving_ok :: "venue \<Rightarrow> bool" where
  "giving_ok v \<longleftrightarrow>
     distinct (vn_giving v)
     \<and> (\<forall>e. e \<in> set (vn_giving v) \<longleftrightarrow> en_gone (rg_entries (vn_reg v) e) = Leaving)"

definition released_ok :: "venue \<Rightarrow> bool" where
  "released_ok v \<longleftrightarrow>
     (\<not> rg_closed (vn_reg v) \<longrightarrow>
        distinct (vn_released v)
        \<and> (\<forall>e \<in> set (vn_released v). en_gone (rg_entries (vn_reg v) e) \<noteq> Serving \<and> \<not> en_release (rg_entries (vn_reg v) e)))"

definition venue_inv :: "venue \<Rightarrow> bool" where
  "venue_inv v \<longleftrightarrow>
     reg_ok (rides_of v) (scope_uses (vn_scopes v)) {} (vn_reg v)
     \<and> (\<forall>s < length (vn_scopes v). scope_ok s (vn_scopes v ! s))
     \<and> giving_ok v \<and> released_ok v"

subsection \<open>Updates of one scope\<close>

lemma at_scope_simps [simp, pool_simps]:
  "vn_reg (at_scope s l r v) = r" "vn_scopes (at_scope s l r v) = (vn_scopes v)[s := l]"
  "vn_giving (at_scope s l r v) = vn_giving v" "vn_released (at_scope s l r v) = vn_released v"
  by (simp_all add: at_scope_def)

lemma all_nth_update:
  "\<forall>i < length xs. P i (xs ! i) \<Longrightarrow> P s l \<Longrightarrow> i < length xs \<Longrightarrow> P i (xs[s := l] ! i)"
  by (cases "i = s") simp_all

lemma rides_of_at_scope:
  assumes "lz_rides l = lz_rides (vn_scopes v ! s)"
  shows "rides_of (at_scope s l r v) = rides_of v"
proof
  show "rides_of (at_scope s l r v) i = rides_of v i" for i
    using assms by (cases "i = s") (auto simp: rides_of_def)
qed

lemma fresh_serving: "reg_ok R S X r \<Longrightarrow> rg_next r \<le> e \<Longrightarrow> en_gone (rg_entries r e) = Serving"
  by (simp add: reg_ok_def entries_ok_def)

lemma keeps_gone:
  assumes "keeps r r'" "reg_ok R S X r"
  shows "en_gone (rg_entries r' e) = en_gone (rg_entries r e)"
  using assms by (auto simp: keeps_def reg_ok_def entries_ok_def)

text \<open>A step of one scope that keeps every entry in its state of service.\<close>

lemma at_scope_inv:
  assumes inv: "venue_inv v" and s: "s < length (vn_scopes v)"
    and l: "lz_rides l = lz_rides (vn_scopes v ! s)" "scope_ok s l"
    and r: "\<And>S. scope_uses (vn_scopes v) = S + uses_by s (vn_scopes v ! s)
       \<Longrightarrow> reg_ok (rides_of v) (S + uses_by s l) {} r"
    and gone: "\<And>e. en_gone (rg_entries r e) = en_gone (rg_entries (vn_reg v) e)"
    and rel: "\<And>e. \<not> rg_closed r \<Longrightarrow> en_gone (rg_entries (vn_reg v) e) \<noteq> Serving
       \<Longrightarrow> en_release (rg_entries r e) = en_release (rg_entries (vn_reg v) e)"
    and closed: "rg_closed r = rg_closed (vn_reg v)"
  shows "venue_inv (at_scope s l r v)"
proof -
  obtain rest where rest: "scope_uses (vn_scopes v) = rest + uses_by s (vn_scopes v ! s)"
    "\<And>l. scope_uses ((vn_scopes v)[s := l]) = rest + uses_by s l"
    using scope_uses_split [OF s] by metis
  have "scope_ok i ((vn_scopes v)[s := l] ! i)" if "i < length (vn_scopes v)" for i
    using inv that l(2) by (simp add: venue_inv_def all_nth_update)
  moreover have "giving_ok (at_scope s l r v)" "released_ok (at_scope s l r v)"
    using inv gone rel closed unfolding venue_inv_def giving_ok_def released_ok_def by auto
  ultimately show ?thesis
    using r [OF rest(1)] unfolding venue_inv_def rides_of_at_scope [OF l(1)] by (simp add: rest(2))
qed

lemma venue_invD:
  assumes "venue_inv v"
  shows "reg_ok (rides_of v) (scope_uses (vn_scopes v)) {} (vn_reg v)" "giving_ok v" "released_ok v"
    "s < length (vn_scopes v) \<Longrightarrow> scope_ok s (vn_scopes v ! s)"
  using assms by (simp_all add: venue_inv_def)

lemma keeps_release:
  assumes "keeps r r'" "reg_ok R S X r" "en_gone (rg_entries r e) \<noteq> Serving"
  shows "en_release (rg_entries r' e) = en_release (rg_entries r e)"
proof -
  have "e < rg_next r" using assms(2,3) by (auto simp: reg_ok_def entries_ok_def not_le [symmetric])
  then show ?thesis using keepsD(5) [OF assms(1)] by simp
qed

lemma at_scope_keeps_inv:
  assumes inv: "venue_inv v" and s: "s < length (vn_scopes v)"
    and l: "lz_rides l = lz_rides (vn_scopes v ! s)" "scope_ok s l" and k: "keeps (vn_reg v) r"
    and r: "\<And>S. scope_uses (vn_scopes v) = S + uses_by s (vn_scopes v ! s)
       \<Longrightarrow> reg_ok (rides_of v) (S + uses_by s l) {} r"
  shows "venue_inv (at_scope s l r v)"
proof (rule at_scope_inv [OF inv s l r])
  note ok = venue_invD(1) [OF inv]
  show "en_gone (rg_entries r e) = en_gone (rg_entries (vn_reg v) e)" for e by (rule keeps_gone [OF k ok])
  show "en_release (rg_entries r e) = en_release (rg_entries (vn_reg v) e)" if "en_gone (rg_entries (vn_reg v) e) \<noteq> Serving" for e
    by (rule keeps_release [OF k ok that])
  show "rg_closed r = rg_closed (vn_reg v)" using k by (simp add: keeps_def)
qed

text \<open>A step of one scope on its own books: the same holds, under other names.\<close>

lemma at_scope_same_inv:
  assumes "venue_inv v" "s < length (vn_scopes v)" "lz_rides l = lz_rides (vn_scopes v ! s)" "scope_ok s l"
    and "mset (scope_holds l) = mset (scope_holds (vn_scopes v ! s))"
  shows "venue_inv (at_scope s l (vn_reg v) v)"
  using assms venue_invD(1) [OF assms(1)]
  by (intro at_scope_keeps_inv) (simp_all add: uses_by_def)

subsection \<open>Claims\<close>

lemma set_aside_simps [simp]:
  "lz_rides (set_aside tag l r) = lz_rides l" "lz_source (set_aside tag l r) = lz_source l"
  "lz_waits (set_aside tag l r) = lz_waits l" "lz_own (set_aside tag l r) = lz_own l"
  "lz_dropping (set_aside tag l r) = lz_dropping l" "lz_ending (set_aside tag l r) = lz_ending l"
  by (auto simp: set_aside_def unheld_def split: option.split)

lemma mset_unheld:
  assumes "distinct (map fst xs)" "map_of xs tag = Some e"
  shows "mset (map snd xs) = add_mset e (mset (map snd (filter (\<lambda>x. fst x \<noteq> tag) xs)))"
  using assms
proof (induction xs)
  case Nil
  then show ?case by simp
next
  case (Cons x xs)
  have "tag \<notin> fst ` set xs \<Longrightarrow> filter (\<lambda>x. fst x \<noteq> tag) xs = xs" by (rule filter_True) auto
  with Cons show ?case by (cases x) (auto simp del: mset_filter)
qed

lemma set_aside_ok:
  assumes ok: "scope_ok s l"
  shows "scope_ok s (set_aside tag l r)" "mset (scope_holds (set_aside tag l r)) = mset (scope_holds l)"
    and "map_of (lz_held (set_aside tag l r)) tag = None \<or> map_of (lz_held (set_aside tag l r)) tag = map_of (lz_held l) tag"
proof -
  have d: "distinct (map fst (lz_held l))" using ok by (simp add: scope_ok_def)
  show "mset (scope_holds (set_aside tag l r)) = mset (scope_holds l)"
    using mset_unheld [OF d, of tag]
    by (auto simp: set_aside_def scope_holds_def unheld_def simp del: mset_filter split: option.split)
  show "scope_ok s (set_aside tag l r)"
    using ok by (auto simp: set_aside_def scope_ok_def unheld_def distinct_map_filter split: option.split)
  show "map_of (lz_held (set_aside tag l r)) tag = None \<or> map_of (lz_held (set_aside tag l r)) tag = map_of (lz_held l) tag"
    by (auto simp: set_aside_def unheld_def map_of_eq_None_iff split: option.split)
qed

lemma hold_as_simps [simp]:
  "lz_rides (hold_as tag e warm l) = lz_rides l" "lz_source (hold_as tag e warm l) = lz_source l"
  "lz_waits (hold_as tag e warm l) = lz_waits l" "lz_own (hold_as tag e warm l) = lz_own l"
  "lz_dropping (hold_as tag e warm l) = lz_dropping l" "lz_ending (hold_as tag e warm l) = lz_ending l"
  "lz_retired (hold_as tag e warm l) = lz_retired l"
  by (simp_all add: hold_as_def unheld_def)

lemma hold_as_ok:
  assumes ok: "scope_ok s l" and t: "map_of (lz_held l) tag = None" "\<forall>x \<in> set (lz_waits l). fst (snd x) \<noteq> tag"
  shows "scope_ok s (hold_as tag e warm l)" "uses_by s (hold_as tag e warm l) = add_mset (s, e) (uses_by s l)"
proof -
  have "tag \<notin> fst ` set (lz_held l)" using t(1) by (simp add: map_of_eq_None_iff)
  then have f: "filter (\<lambda>x. fst x \<noteq> tag) (lz_held l) = lz_held l" by (intro filter_True) auto
  then have h: "lz_held (hold_as tag e warm l) = (tag, e) # lz_held l" by (simp add: hold_as_def unheld_def)
  show "uses_by s (hold_as tag e warm l) = add_mset (s, e) (uses_by s l)"
    by (simp add: uses_by_def scope_holds_def h)
  show "scope_ok s (hold_as tag e warm l)"
    using ok t \<open>tag \<notin> fst ` set (lz_held l)\<close> unfolding scope_ok_def h by (auto simp: case_prod_beta)
qed

lemma find_SomeD: "find P xs = Some x \<Longrightarrow> P x \<and> x \<in> set xs"
  by (induction xs) (auto split: if_splits)

lemma queued_scope: "pool_take s rides w r = (Queued n, r') \<Longrightarrow> wt_scope n = s"
  unfolding pool_take_def take_ride_def take_job_def enqueue_def
  by (auto simp: Let_def split: option.splits prod.splits if_splits)

lemma claimPool_ok:
  assumes ok: "scope_ok s l" and src: "lz_source l tag = Some w" "w_Exclusive w" and t: "map_of (lz_held l) tag = None"
    and R: "R s = lz_rides l" and r: "reg_ok R (S + uses_by s l) {} r"
    and c: "claimPool s tag w l r = (c, l', r')"
  shows "scope_ok s l' \<and> lz_rides l' = lz_rides l \<and> keeps r r' \<and> reg_ok R (S + uses_by s l') {} r'"
proof (cases "claiming l (registryKey w)")
  case True
  then show ?thesis using c ok r by (simp add: claimPool_def)
next
  case False
  let ?key = "registryKey w"
  have nt: "\<forall>x \<in> set (lz_waits l). fst (snd x) \<noteq> tag"
    using ok False src(1) unfolding scope_ok_def claiming_def by fastforce
  have wl: "w_Rung w = RungLaunch" using ok src by (auto simp: scope_ok_def worker_ok_def)
  note held = hold_as_ok [OF ok t nt]
  let ?find = "find (\<lambda>e. en_key (rg_entries r e) = ?key \<and> fst (share e w s (lz_rides l) r)) (map snd (lz_held l))"
  show ?thesis
  proof (cases ?find)
    case (Some e)
    have l': "l' = hold_as tag e False l" and r': "share e w s (lz_rides l) r = (True, r')"
      using c False Some find_SomeD [OF Some] by (auto simp: claimPool_def prod_eq_iff)
    have "(s, e) \<in># S + uses_by s l"
      using find_SomeD [OF Some] by (auto simp: uses_by_def scope_holds_def)
    from share_ok [OF r this] r' R have "reg_ok R (add_mset (s, e) (S + uses_by s l)) {} r'" by simp
    then show ?thesis using held r' share_keeps [OF r'] by (simp add: l')
  next
    case None
    obtain t' r'' where p: "pool_take s (lz_rides l) w r = (t', r'')" by (cases "pool_take s (lz_rides l) w r")
    have po: "reg_ok R (takes s t' (S + uses_by s l)) {} r''" and k: "keeps r r''"
      using pool_take_ok [OF r wl, of s] pool_take_keeps [of r s "lz_rides l" w] p R by simp_all
    show ?thesis
    proof (cases t')
      case (Taken e warm)
      then have "l' = hold_as tag e warm l" "r' = r''" using c False None p by (simp_all add: claimPool_def)
      then show ?thesis using po k held Taken by (simp add: takes_def)
    next
      case (Queued n)
      then have l': "l' = l\<lparr>lz_waits := (n, tag, ?key) # lz_waits l\<rparr>" and r': "r' = r''"
        using c False None p by (simp_all add: claimPool_def)
      have "scope_ok s l'"
        using ok False src t queued_scope [of s "lz_rides l" w r n r''] p Queued
        unfolding l' scope_ok_def claiming_def by (auto simp: map_of_eq_None_iff image_iff)
      moreover have "uses_by s l' = uses_by s l" by (simp add: l' uses_by_def scope_holds_def)
      ultimately show ?thesis using po k Queued r' by (simp add: takes_def l')
    qed
  qed
qed

lemma claim_ok:
  assumes ok: "scope_ok s l0" and src: "lz_source l0 tag = Some w"
    and R: "R s = lz_rides l0" and r: "reg_ok R (S + uses_by s l0) {} r"
    and c: "claim s tag w l0 r = (c, l', r')"
  shows "scope_ok s l' \<and> lz_rides l' = lz_rides l0 \<and> keeps r r' \<and> reg_ok R (S + uses_by s l') {} r'"
proof -
  let ?l = "set_aside tag l0 r"
  have ok': "scope_ok s ?l" by (rule set_aside_ok(1) [OF ok])
  have u: "uses_by s ?l = uses_by s l0" using set_aside_ok(2) [OF ok] by (simp add: uses_by_def)
  have r': "reg_ok R (S + uses_by s ?l) {} r" using r by (simp add: u)
  show ?thesis
  proof (cases "map_of (lz_held ?l) tag")
    case (Some e)
    then have "l' = ?l" "r' = r" using c by (auto simp: claim_def Let_def)
    then show ?thesis using ok' r' by simp
  next
    case None
    show ?thesis
    proof (cases "w_Exclusive w")
      case True
      then have "claimPool s tag w ?l r = (c, l', r')" using c None by (simp add: claim_def Let_def)
      from claimPool_ok [OF ok' _ True None _ r' this] src R show ?thesis by simp
    next
      case False
      have nt: "\<forall>x \<in> set (lz_waits ?l). fst (snd x) \<noteq> tag"
        using ok src False unfolding scope_ok_def by fastforce
      note held = hold_as_ok [OF ok' None nt]
      obtain h r'' where h: "hold_shared w r = (h, r'')" by (cases "hold_shared w r")
      show ?thesis
      proof (cases h)
        case (HeldEntry e warm)
        have "reg_ok R (add_mset (s, e) (S + uses_by s ?l)) {} r''"
          using hold_shared_ok [OF r'] h HeldEntry by simp
        moreover have "l' = hold_as tag e warm ?l" "r' = r''"
          using c None False h HeldEntry by (simp_all add: claim_def Let_def)
        ultimately show ?thesis using held hold_shared_keeps [OF h] by simp
      next
        case (Landing e)
        then have "r'' = r" using hold_shared_landing h by simp
        moreover have "l' = ?l" "r' = r''"
          using c None False h Landing by (simp_all add: claim_def Let_def)
        ultimately show ?thesis using ok' r' by simp
      qed
    qed
  qed
qed

lemma rides_of_scope: "s < length (vn_scopes v) \<Longrightarrow> rides_of v s = lz_rides (vn_scopes v ! s)"
  by (simp add: rides_of_def)

lemma do_claim_inv:
  assumes inv: "venue_inv v" and s: "s < length (vn_scopes v)" "lz_source (vn_scopes v ! s) tag = Some w"
  shows "venue_inv (do_claim s tag w v)"
proof -
  obtain c l r where c: "claim s tag w (vn_scopes v ! s) (vn_reg v) = (c, l, r)"
    by (cases "claim s tag w (vn_scopes v ! s) (vn_reg v)")
  obtain rest where rest: "scope_uses (vn_scopes v) = rest + uses_by s (vn_scopes v ! s)"
    using scope_uses_split [OF s(1)] by blast
  have claim: "scope_ok s l \<and> lz_rides l = lz_rides (vn_scopes v ! s) \<and> keeps (vn_reg v) r
      \<and> reg_ok (rides_of v) (S + uses_by s l) {} r"
    if "scope_uses (vn_scopes v) = S + uses_by s (vn_scopes v ! s)" for S
    using claim_ok [where R = "rides_of v" and S = S, OF venue_invD(4) [OF inv s(1)] s(2) rides_of_scope [OF s(1)] _ c]
      venue_invD(1) [OF inv] that by simp
  note ok = claim [OF rest]
  have "reg_ok (rides_of v) (S + uses_by s l) {} r" if "scope_uses (vn_scopes v) = S + uses_by s (vn_scopes v ! s)" for S
    using claim [OF that] by simp
  with ok show ?thesis
    unfolding do_claim_def c by (simp add: at_scope_keeps_inv [OF inv s(1)])
qed

subsection \<open>Handovers, evictions, ends of scopes\<close>

lemma adopt_ok:
  assumes ok: "scope_ok s l" and n: "(n, tag, key) \<in> set (lz_waits l)"
  shows "scope_ok s (adopt n tag key got l)" "lz_rides (adopt n tag key got l) = lz_rides l"
    and "uses_by s (adopt n tag key got l) = (case got of Some e \<Rightarrow> add_mset (s, e) (uses_by s l) | None \<Rightarrow> uses_by s l)"
proof -
  let ?l = "l\<lparr>lz_waits := remove1 (n, tag, key) (lz_waits l)\<rparr>"
  have d: "distinct (map (\<lambda>x. snd (snd x)) (lz_waits l))" using ok by (simp add: scope_ok_def)
  have sub: "x \<in> set (remove1 (n, tag, key) (lz_waits l)) \<Longrightarrow> x \<in> set (lz_waits l)" for x
    by (meson notin_set_remove1)
  have keys: "x \<in> set (remove1 (n, tag, key) (lz_waits l)) \<Longrightarrow> snd (snd x) \<noteq> key" for x
    using d n by (auto dest: sub simp: distinct_map inj_on_def)
  have "distinct (map (\<lambda>x. snd (snd x)) (remove1 y xs))" if "distinct (map (\<lambda>x. snd (snd x)) xs)" for y and xs :: "(waiter \<times> string \<times> string) list"
    using that unfolding distinct_map by (auto simp: inj_on_def)
  then have l: "scope_ok s ?l" using ok d sub by (auto simp: scope_ok_def)
  have "\<forall>x \<in> set (lz_waits ?l). fst (snd x) \<noteq> tag"
  proof
    fix x
    assume x: "x \<in> set (lz_waits ?l)"
    obtain m t k where m: "x = (m, t, k)" by (cases x)
    have "k \<noteq> key" using keys [of x] x m by simp
    moreover have "\<exists>w. lz_source l t = Some w \<and> k = registryKey w" "\<exists>w. lz_source l tag = Some w \<and> key = registryKey w"
      using ok n sub [of x] x m unfolding scope_ok_def by fastforce+
    ultimately show "fst (snd x) \<noteq> tag" using m by auto
  qed
  moreover have "map_of (lz_held ?l) tag = None"
    using ok n unfolding scope_ok_def by (fastforce simp: map_of_eq_None_iff)
  ultimately have h: "scope_ok s (hold_as tag e False ?l)" "uses_by s (hold_as tag e False ?l) = add_mset (s, e) (uses_by s ?l)" for e
    using hold_as_ok [OF l] by blast+
  have u: "uses_by s ?l = uses_by s l" by (simp add: uses_by_def scope_holds_def)
  show "scope_ok s (adopt n tag key got l)" "lz_rides (adopt n tag key got l) = lz_rides l"
    and "uses_by s (adopt n tag key got l) = (case got of Some e \<Rightarrow> add_mset (s, e) (uses_by s l) | None \<Rightarrow> uses_by s l)"
    using l h u by (simp_all add: adopt_def Let_def split: option.split)
qed

lemma wait_scope: "scope_ok s l \<Longrightarrow> (n, tag, key) \<in> set (lz_waits l) \<Longrightarrow> wt_scope n = s"
  by (auto simp: scope_ok_def)

lemma handover_inv:
  assumes inv: "venue_inv v" and s: "s < length (vn_scopes v)" "(n, tag, key) \<in> set (lz_waits (vn_scopes v ! s))"
    and k: "keeps (vn_reg v) r"
    and r: "\<And>S. reg_ok (rides_of v) S {} (vn_reg v)
      \<Longrightarrow> reg_ok (rides_of v) (case got of Some e \<Rightarrow> add_mset (s, e) S | None \<Rightarrow> S) {} r"
  shows "venue_inv (at_scope s (adopt n tag key got (vn_scopes v ! s)) r v)"
proof (rule at_scope_keeps_inv [OF inv s(1) _ _ k])
  note a = adopt_ok [OF venue_invD(4) [OF inv s(1)] s(2), of got]
  show "lz_rides (adopt n tag key got (vn_scopes v ! s)) = lz_rides (vn_scopes v ! s)" by (rule a(2))
  show "scope_ok s (adopt n tag key got (vn_scopes v ! s))" by (rule a(1))
  show "reg_ok (rides_of v) (S + uses_by s (adopt n tag key got (vn_scopes v ! s))) {} r"
    if "scope_uses (vn_scopes v) = S + uses_by s (vn_scopes v ! s)" for S
    using r [of "S + uses_by s (vn_scopes v ! s)"] venue_invD(1) [OF inv] that a(3) by (simp split: option.splits)
qed

lemma do_receive_inv:
  assumes inv: "venue_inv v" and s: "s < length (vn_scopes v)" "(n, tag, key) \<in> set (lz_waits (vn_scopes v ! s))"
  shows "venue_inv (do_receive s n tag key v)"
proof -
  obtain got r where g: "receive_handed n (vn_reg v) = (got, r)" by (cases "receive_handed n (vn_reg v)")
  have "wt_scope n = s" by (rule wait_scope [OF venue_invD(4) [OF inv s(1)] s(2)])
  then have "reg_ok (rides_of v) (case got of Some e \<Rightarrow> add_mset (s, e) S | None \<Rightarrow> S) {} r"
    if "reg_ok (rides_of v) S {} (vn_reg v)" for S
    using receive_ok [OF that, of n] receive_none [of n "vn_reg v" r] g that by (cases got) auto
  then have "venue_inv (at_scope s (adopt n tag key got (vn_scopes v ! s)) r v)"
    by (rule handover_inv [OF inv s receive_keeps [OF g]])
  then show ?thesis by (simp add: do_receive_def g)
qed

lemma do_abort_inv:
  assumes inv: "venue_inv v" and s: "s < length (vn_scopes v)" "(n, tag, key) \<in> set (lz_waits (vn_scopes v ! s))"
  shows "venue_inv (do_abort s n tag key v)"
proof (cases "n \<in> set (pl_waiters (rg_pools (vn_reg v) (wt_pool n)))")
  case False
  then have "do_abort s n tag key v = do_receive s n tag key v"
    by (simp add: do_abort_def do_receive_def leave_def)
  with do_receive_inv [OF assms] show ?thesis by simp
next
  case True
  let ?r = "upd_pool (wt_pool n) (\<lambda>p. p\<lparr>pl_waiters := remove1 n (pl_waiters p)\<rparr>) (vn_reg v)"
  have "venue_inv (at_scope s (adopt n tag key None (vn_scopes v ! s)) ?r v)"
    by (rule handover_inv [OF inv s]) (simp_all add: leave_queue_ok)
  with True show ?thesis by (simp add: do_abort_def leave_def)
qed

lemma uses_pos_serving:
  assumes "venue_inv v" "\<not> rg_closed (vn_reg v)" "s < length (vn_scopes v)" "e \<in> set (scope_holds (vn_scopes v ! s))"
  shows "en_gone (rg_entries (vn_reg v) e) = Serving"
proof (rule ccontr)
  let ?U = "scope_uses (vn_scopes v) + handed_uses (vn_reg v)"
  assume "en_gone (rg_entries (vn_reg v) e) \<noteq> Serving"
  then have "uses_of e ?U = 0"
    using reg_okD(1) [OF venue_invD(1) [OF assms(1)]] assms(2) by (simp add: entries_ok_def)
  moreover have "(s, e) \<in># ?U" using scope_uses_mem [OF assms(3,4)] by simp
  ultimately show False using uses_of_zeroD by blast
qed

lemma resolve_inv:
  assumes inv: "venue_inv v" and s: "s < length (vn_scopes v)" "e \<in> set (scope_holds (vn_scopes v ! s))"
  shows "venue_inv (v\<lparr>vn_reg := resolve_lease m rel err ended e (vn_reg v)\<rparr>)"
proof -
  have "reg_ok (rides_of v) (scope_uses (vn_scopes v)) {} (resolve_lease m rel err ended e (vn_reg v))"
    unfolding resolve_lease_def by (rule reg_ok_quiet [OF venue_invD(1) [OF inv]]) (simp_all add: Let_def)
  moreover have "en_gone (rg_entries (resolve_lease m rel err ended e (vn_reg v)) x) = en_gone (rg_entries (vn_reg v) x)" for x
    by (simp add: resolve_lease_def Let_def)
  moreover have "en_release (rg_entries (resolve_lease m rel err ended e (vn_reg v)) x) = en_release (rg_entries (vn_reg v) x)"
    if "x \<noteq> e" for x using that by (simp add: resolve_lease_def)
  moreover have "\<not> rg_closed (vn_reg v) \<Longrightarrow> en_gone (rg_entries (vn_reg v) e) = Serving"
    by (rule uses_pos_serving [OF inv _ s])
  moreover have "rg_closed (resolve_lease m rel err ended e (vn_reg v)) = rg_closed (vn_reg v)"
    by (simp add: resolve_lease_def)
  moreover have "rides_of (v\<lparr>vn_reg := r\<rparr>) = rides_of v" for r by (simp add: rides_of_def fun_eq_iff)
  ultimately show ?thesis
    using inv unfolding venue_inv_def giving_ok_def released_ok_def by (simp; metis)
qed

lemma Answered_simps [simp]:
  "scope_holds (Answered tag l) = scope_holds l" "lz_rides (Answered tag l) = lz_rides l"
  "scope_ok s (Answered tag l) = scope_ok s l" "uses_by s (Answered tag l) = uses_by s l"
  by (simp_all add: Answered_def scope_holds_def scope_ok_def uses_by_def)

lemma held_holds: "map_of (lz_held l) tag = Some e \<Longrightarrow> e \<in> set (scope_holds l)"
  by (auto simp: scope_holds_def image_iff dest!: map_of_SomeD) force

lemma retire_keeps_release:
  assumes "x < rg_next r"
  shows "en_release (rg_entries (retire e r) x) = en_release (rg_entries r x)"
  using assms keepsD(5) [OF forget_keeps, of x "upd_entry e (\<lambda>h. h\<lparr>en_retired := True\<rparr>) (reserveFor e r)" e]
  by (auto simp: retire_def)

lemma do_abandon_inv:
  assumes inv: "venue_inv v" and s: "s < length (vn_scopes v)" "map_of (lz_held (vn_scopes v ! s)) tag = Some e"
  shows "venue_inv (do_abandon s tag url dialed e spelling v)"
proof -
  let ?l = "Answered tag (vn_scopes v ! s)"
  obtain b r where a: "abandonIf url dialed spelling e (vn_reg v) = (b, r)" by (cases "abandonIf url dialed spelling e (vn_reg v)")
  note ok = venue_invD(1) [OF inv]
  have q: "keeps (vn_reg v) (upd_entry e (\<lambda>h. h\<lparr>en_acquired := False, en_machine := noWorker\<rparr>) (vn_reg v))"
    by (rule keeps_quiet) simp_all
  have e: "e < rg_next (vn_reg v)"
    by (rule held_in_range [OF ok scope_uses_mem [OF s(1) held_holds [OF s(2)]]])
  have r: "reg_ok (rides_of v) (scope_uses (vn_scopes v)) {} r" "keeps (vn_reg v) r"
    using a ok q reg_ok_quiet [OF ok, of "\<lambda>h. h\<lparr>en_acquired := False, en_machine := noWorker\<rparr>" e]
    by (auto simp: abandonIf_def Let_def split: if_splits)
  let ?r = "if parked (rg_entries r e) then r else retire e r"
  have e': "e < rg_next r" by (rule keepsD(6) [OF r(2) e])
  have service: "en_gone (rg_entries ?r x) = en_gone (rg_entries (vn_reg v) x)" for x
    using keeps_gone [OF r(2) ok, of x] retire_keeps_service [of r x e] fresh_serving [OF r(1), of x] by simp
  have "venue_inv (at_scope s ?l ?r v)"
  proof (rule at_scope_inv [OF inv s(1) _ _ _ service])
    show "reg_ok (rides_of v) (S + uses_by s ?l) {} ?r" if "scope_uses (vn_scopes v) = S + uses_by s (vn_scopes v ! s)" for S
      using r(1) retire_ok [OF r(1) e'] that by simp
    show "en_release (rg_entries ?r x) = en_release (rg_entries (vn_reg v) x)" if "en_gone (rg_entries (vn_reg v) x) \<noteq> Serving" for x
    proof -
      have x: "x < rg_next (vn_reg v)" using that ok by (auto simp: reg_ok_def entries_ok_def not_le [symmetric])
      show ?thesis using keepsD(5,6) [OF r(2) x] retire_keeps_release [of x r e] by simp
    qed
    show "rg_closed ?r = rg_closed (vn_reg v)"
      using keepsD(7) [OF r(2) e] forget_keeps [of "upd_entry e (\<lambda>h. h\<lparr>en_retired := True\<rparr>) (reserveFor e r)" e]
      by (auto simp: retire_def keeps_def)
  qed (use venue_invD(4) [OF inv s(1)] in simp_all)
  then show ?thesis using inv by (cases b) (simp_all add: do_abandon_def a)
qed

lemma aside_inv:
  assumes "venue_inv v" "s < length (vn_scopes v)"
  shows "venue_inv (at_scope s (set_aside tag (vn_scopes v ! s) (vn_reg v)) (vn_reg v) v)"
  using set_aside_ok [OF venue_invD(4) [OF assms]] by (intro at_scope_same_inv [OF assms]) simp_all

lemma answer_inv:
  assumes "venue_inv v" "s < length (vn_scopes v)"
  shows "venue_inv (at_scope s (Answered tag (vn_scopes v ! s)) (vn_reg v) v)"
  using venue_invD(4) [OF assms] by (intro at_scope_same_inv [OF assms]) simp_all

lemma release_inv:
  assumes "venue_inv v" "s < length (vn_scopes v)"
  shows "venue_inv (at_scope s (ReleaseAll (vn_scopes v ! s)) (vn_reg v) v)"
  using venue_invD(4) [OF assms]
  by (intro at_scope_same_inv [OF assms]) (auto simp: ReleaseAll_def scope_holds_def scope_ok_def)

lemma unreserve_inv:
  assumes inv: "venue_inv v" and s: "s < length (vn_scopes v)"
  shows "venue_inv (at_scope s ((vn_scopes v ! s)\<lparr>lz_ending := False\<rparr>) (unreserve s (vn_reg v)) v)"
proof (rule at_scope_keeps_inv [OF inv s])
  let ?l = "(vn_scopes v ! s)\<lparr>lz_ending := False\<rparr>"
  have u: "uses_by s ?l = uses_by s (vn_scopes v ! s)" by (simp add: uses_by_def scope_holds_def)
  show "reg_ok (rides_of v) (S + uses_by s ?l) {} (unreserve s (vn_reg v))"
    if "scope_uses (vn_scopes v) = S + uses_by s (vn_scopes v ! s)" for S
    using unreserve_ok [OF venue_invD(1) [OF inv]] that u by simp
  show "scope_ok s ?l" using venue_invD(4) [OF inv s] by (simp add: scope_ok_def)
qed (simp_all add: unreserve_keeps)

subsection \<open>Going back\<close>

text \<open>What an operation that may take \<open>e\<close> out of service answers.\<close>

definition takes_out :: "nat \<Rightarrow> registry \<Rightarrow> bool \<times> registry \<Rightarrow> bool" where
  "takes_out e r x \<longleftrightarrow>
     (fst x \<longrightarrow> en_gone (rg_entries r e) = Serving \<and> en_gone (rg_entries (snd x) e) = Leaving)
     \<and> (\<forall>y. (fst x \<longrightarrow> y \<noteq> e) \<longrightarrow> en_gone (rg_entries (snd x) y) = en_gone (rg_entries r y))
     \<and> (\<forall>y < rg_next r. en_release (rg_entries (snd x) y) = en_release (rg_entries r y))
     \<and> rg_closed (snd x) = rg_closed r"

lemma takes_outD:
  assumes "takes_out e r x"
  shows "fst x \<Longrightarrow> en_gone (rg_entries r e) = Serving" "fst x \<Longrightarrow> en_gone (rg_entries (snd x) e) = Leaving"
    "(fst x \<longrightarrow> y \<noteq> e) \<Longrightarrow> en_gone (rg_entries (snd x) y) = en_gone (rg_entries r y)"
    "y < rg_next r \<Longrightarrow> en_release (rg_entries (snd x) y) = en_release (rg_entries r y)"
    "rg_closed (snd x) = rg_closed r"
  using assms by (simp_all add: takes_out_def)

lemma takeOut_release:
  assumes "y < rg_next r"
  shows "en_release (rg_entries (takeOut e r) y) = en_release (rg_entries r y)"
  using assms keepsD(5) [OF forget_keeps, of y "upd_entry e (\<lambda>h. h\<lparr>en_gone := Leaving\<rparr>) r" e]
  by (auto simp: takeOut_def Let_def)

lemma takeOut_takes_out:
  assumes "e < rg_next r" "en_gone (rg_entries r e) = Serving" "\<And>y. rg_next r \<le> y \<Longrightarrow> en_gone (rg_entries r y) = Serving"
  shows "takes_out e r (True, takeOut e r)"
  using assms takeOut_gone [where e = e and r = r] takeOut_release [of _ r e] by (auto simp: takes_out_def)

lemma unhold_gone:
  assumes "\<And>y. rg_next r \<le> y \<Longrightarrow> en_gone (rg_entries r y) = Serving"
  shows "en_gone (rg_entries (unhold own rides e r) y) = en_gone (rg_entries r y)"
    "rg_next r \<le> rg_next (unhold own rides e r)" "rg_closed (unhold own rides e r) = rg_closed r"
    "y < rg_next r \<Longrightarrow> en_release (rg_entries (unhold own rides e r) y) = en_release (rg_entries r y)"
  using assms letGo_keeps [of "upd_entry e (\<lambda>h. h\<lparr>en_refs := en_refs h - 1\<rparr>) r" e own]
  by (auto simp: unhold_def Let_def keeps_def)

lemma lease_drop_takes_out:
  assumes e: "e < rg_next r" and fresh: "\<And>y. rg_next r \<le> y \<Longrightarrow> en_gone (rg_entries r y) = Serving"
  shows "takes_out e r (lease_drop own rides e r)"
proof -
  let ?u = "unhold own rides e r"
  have g: "en_gone (rg_entries ?u y) = en_gone (rg_entries r y)" for y by (rule unhold_gone(1) [OF fresh])
  have n: "rg_next r \<le> rg_next ?u" and c: "rg_closed ?u = rg_closed r"
    by (rule unhold_gone(2,3) [OF fresh]; assumption)+
  have rel: "y < rg_next r \<Longrightarrow> en_release (rg_entries ?u y) = en_release (rg_entries r y)" for y
    by (rule unhold_gone(4) [OF fresh])
  have fr: "rg_next ?u \<le> y \<Longrightarrow> en_gone (rg_entries ?u y) = Serving" for y using g fresh n by simp
  have t: "takes_out e r (True, takeOut e ?u)" if "en_gone (rg_entries ?u e) = Serving"
    using takeOut_takes_out [of e ?u, OF _ that fr] e n g rel c by (auto simp: takes_out_def)
  show ?thesis
    unfolding lease_drop_unhold using t g rel c by (auto simp: Let_def takes_out_def)
qed

lemma expire_takes_out:
  assumes e: "e < rg_next r" and fresh: "\<And>y. rg_next r \<le> y \<Longrightarrow> en_gone (rg_entries r y) = Serving"
  shows "takes_out e r (expire e gen r)"
proof (cases "en_refs (rg_entries r e) > 0 \<or> en_gen (rg_entries r e) \<noteq> gen \<or> en_gone (rg_entries r e) \<noteq> Serving")
  case True
  then show ?thesis by (simp add: expire_def Let_def takes_out_def)
next
  case False
  let ?r = "upd_entry e (\<lambda>h. h\<lparr>en_idle := False\<rparr>) r"
  have "takes_out e ?r (True, takeOut e ?r)"
    using False fresh e by (intro takeOut_takes_out) auto
  then have "takes_out e r (True, takeOut e ?r)" by (auto simp: takes_out_def)
  with False show ?thesis by (simp add: expire_def Let_def)
qed

lemma go_inv:
  assumes ok: "reg_ok (rides_of v) (scope_uses (vn_scopes v)) {} (snd x)"
    and sc: "\<forall>s < length (vn_scopes v). scope_ok s (vn_scopes v ! s)"
    and g: "giving_ok v" "released_ok v" and t: "takes_out e (vn_reg v) x"
    and fresh: "\<And>y. rg_next (vn_reg v) \<le> y \<Longrightarrow> en_gone (rg_entries (vn_reg v) y) = Serving"
  shows "venue_inv (go e x v)"
proof -
  have nv: "vn_scopes (go e x v) = vn_scopes v" "vn_reg (go e x v) = snd x" "vn_released (go e x v) = vn_released v"
    "vn_giving (go e x v) = (if fst x then e # vn_giving v else vn_giving v)"
    by (simp_all add: go_def)
  have "rides_of (go e x v) = rides_of v" by (simp add: rides_of_def fun_eq_iff nv)
  moreover have "giving_ok (go e x v)"
  proof (cases "fst x")
    case True
    have "e \<notin> set (vn_giving v)" using g(1) takes_outD(1) [OF t True] by (simp add: giving_ok_def)
    moreover have "y \<in> set (e # vn_giving v) \<longleftrightarrow> en_gone (rg_entries (snd x) y) = Leaving" for y
      using g(1) takes_outD(2) [OF t True] takes_outD(3) [OF t, of y] by (cases "y = e") (auto simp: giving_ok_def)
    ultimately show ?thesis using g(1) True by (simp add: giving_ok_def nv)
  next
    case False
    then show ?thesis using g(1) takes_outD(3) [OF t] by (simp add: giving_ok_def nv)
  qed
  moreover have "released_ok (go e x v)"
  proof -
    have "en_gone (rg_entries (snd x) y) \<noteq> Serving \<and> en_release (rg_entries (snd x) y) = en_release (rg_entries (vn_reg v) y)"
      if "en_gone (rg_entries (vn_reg v) y) \<noteq> Serving" for y
    proof -
      have "y < rg_next (vn_reg v)" using fresh [of y] that by (auto simp: not_le [symmetric])
      moreover have "fst x \<longrightarrow> y \<noteq> e" using that takes_outD(1) [OF t] by auto
      ultimately show ?thesis using that takes_outD(3,4) [OF t, of y] by simp
    qed
    then show ?thesis using g(2) takes_outD(5) [OF t] by (auto simp: released_ok_def nv)
  qed
  ultimately show ?thesis using ok sc by (simp add: venue_inv_def nv)
qed

lemma do_drop_inv:
  assumes inv: "venue_inv v" and s: "s < length (vn_scopes v)" "e \<in> set (lz_dropping (vn_scopes v ! s))"
  shows "venue_inv (do_drop s e v)"
proof -
  let ?old = "vn_scopes v ! s"
  let ?l = "?old\<lparr>lz_dropping := remove1 e (lz_dropping ?old)\<rparr>"
  let ?v = "at_scope s ?l (vn_reg v) v"
  note ok = venue_invD(1) [OF inv]
  obtain rest where rest: "scope_uses (vn_scopes v) = rest + uses_by s ?old"
    "\<And>l. scope_uses ((vn_scopes v)[s := l]) = rest + uses_by s l"
    using scope_uses_split [OF s(1)] by metis
  have "mset (lz_dropping ?old) = add_mset e (mset (remove1 e (lz_dropping ?old)))" using s(2) by simp
  then have u: "uses_by s ?old = add_mset (s, e) (uses_by s ?l)"
    by (simp add: uses_by_def scope_holds_def del: mset_remove1)
  have R: "rides_of ?v = rides_of v" by (rule rides_of_at_scope) simp
  have e: "e < rg_next (vn_reg v)"
    by (rule held_in_range [OF ok scope_uses_mem [OF s(1)]]) (use s(2) in \<open>simp add: scope_holds_def\<close>)
  have drop: "reg_ok (rides_of ?v) (scope_uses (vn_scopes ?v)) {} (snd (lease_drop (lz_own ?old) (lz_rides ?old) e (vn_reg v)))"
    using lease_drop_ok [of "rides_of v" s e "rest + uses_by s ?l" "vn_reg v" "lz_own ?old"] ok rest u
    unfolding R by (simp add: rides_of_scope [OF s(1)])
  have "scope_ok s ?l" using venue_invD(4) [OF inv s(1)] by (simp add: scope_ok_def)
  then have sc: "\<forall>i < length (vn_scopes ?v). scope_ok i (vn_scopes ?v ! i)"
    using inv by (simp add: venue_inv_def all_nth_update)
  have "giving_ok ?v" "released_ok ?v"
    using venue_invD(2,3) [OF inv] by (simp_all add: giving_ok_def released_ok_def)
  moreover have "takes_out e (vn_reg ?v) (lease_drop (lz_own ?old) (lz_rides ?old) e (vn_reg v))"
    using lease_drop_takes_out [OF e fresh_serving [OF ok]] by simp
  ultimately show ?thesis
    unfolding do_drop_def Let_def using go_inv [OF drop sc] fresh_serving [OF ok] by simp
qed

lemma expire_inv:
  assumes inv: "venue_inv v" and e: "e < rg_next (vn_reg v)"
  shows "venue_inv (go e (expire e gen (vn_reg v)) v)"
proof (rule go_inv)
  note ok = venue_invD(1) [OF inv]
  show "reg_ok (rides_of v) (scope_uses (vn_scopes v)) {} (snd (expire e gen (vn_reg v)))" by (rule expire_ok [OF ok e])
  show "takes_out e (vn_reg v) (expire e gen (vn_reg v))" by (rule expire_takes_out [OF e fresh_serving [OF ok]])
  show "rg_next (vn_reg v) \<le> y \<Longrightarrow> en_gone (rg_entries (vn_reg v) y) = Serving" for y by (rule fresh_serving [OF ok])
qed (use venue_invD [OF inv] in simp_all)

lemma give_inv:
  assumes inv: "venue_inv v" and e: "e \<in> set (vn_giving v)"
  shows "venue_inv (do_give e v)"
proof -
  let ?r = "upd_entry e (\<lambda>h. h\<lparr>en_release := False\<rparr>) (vn_reg v)"
  let ?rel = "if en_release (rg_entries (vn_reg v) e) then e # vn_released v else vn_released v"
  have ok: "reg_ok (rides_of v) (scope_uses (vn_scopes v)) {} ?r"
    by (rule reg_ok_quiet [OF venue_invD(1) [OF inv]]) simp_all
  have l: "en_gone (rg_entries (vn_reg v) e) = Leaving"
    using venue_invD(2) [OF inv] e by (simp add: giving_ok_def)
  have "do_give e v = v\<lparr>vn_reg := ?r, vn_released := ?rel\<rparr>" by (simp add: do_give_def give_def)
  moreover have "rides_of (v\<lparr>vn_reg := ?r, vn_released := ?rel\<rparr>) = rides_of v" by (simp add: rides_of_def fun_eq_iff)
  moreover have "giving_ok (v\<lparr>vn_reg := ?r, vn_released := ?rel\<rparr>)"
    using venue_invD(2) [OF inv] by (auto simp: giving_ok_def)
  moreover have "released_ok (v\<lparr>vn_reg := ?r, vn_released := ?rel\<rparr>)"
    using venue_invD(3) [OF inv] l by (auto simp: released_ok_def)
  ultimately show ?thesis using ok inv by (simp add: venue_inv_def)
qed

lemma give_end_inv:
  assumes inv: "venue_inv v" and e: "e \<in> set (vn_giving v)" "\<not> en_release (rg_entries (vn_reg v) e)"
  shows "venue_inv (v\<lparr>vn_reg := giveBack_end e (vn_reg v), vn_giving := remove1 e (vn_giving v)\<rparr>)"
proof -
  let ?r = "vn_reg v" and ?v = "v\<lparr>vn_reg := giveBack_end e (vn_reg v), vn_giving := remove1 e (vn_giving v)\<rparr>"
  note ok = venue_invD(1) [OF inv]
  have l: "en_gone (rg_entries ?r e) = Leaving" using venue_invD(2) [OF inv] e by (simp add: giving_ok_def)
  have lt: "e < rg_next ?r" using fresh_serving [OF ok, of e] l by (auto simp: not_le [symmetric])
  have g: "en_gone (rg_entries (giveBack_end e ?r) y) = (if y = e then Given else en_gone (rg_entries ?r y))" for y
    using keeps_gone [OF forget_keeps ok, of e y] by (simp add: giveBack_end_def Let_def)
  have rel: "en_release (rg_entries (giveBack_end e ?r) y) = en_release (rg_entries ?r y)" if "en_gone (rg_entries ?r y) \<noteq> Serving" for y
    using keeps_release [OF forget_keeps ok that, of e] by (auto simp: giveBack_end_def Let_def)
  have c: "rg_closed (giveBack_end e ?r) = rg_closed ?r"
    using forget_keeps [of ?r e] by (simp add: giveBack_end_def Let_def keeps_def)
  have "rides_of ?v = rides_of v" by (simp add: rides_of_def fun_eq_iff)
  moreover have "giving_ok ?v"
    using venue_invD(2) [OF inv] by (auto simp: giving_ok_def g)
  moreover have "released_ok ?v"
    using venue_invD(3) [OF inv] rel by (auto simp: released_ok_def g c)
  ultimately show ?thesis using inv giveBack_end_ok [OF ok lt l] by (simp add: venue_inv_def)
qed

subsection \<open>Closing\<close>

text \<open>Taking out a list of entries in service, of a closed registry.\<close>

lemma takeOuts_step:
  assumes pre: "reg_ok R S {} r" "rg_closed r" "e < rg_next r"
    and f: "f e r = takeOut e r \<or> f e r = takeOut e (stopIdle e r)"
  shows "reg_ok R S {} (f e r) \<and> rg_closed (f e r) \<and> rg_next r \<le> rg_next (f e r)
      \<and> (\<forall>y. en_gone (rg_entries (f e r) y) = (if y = e then Leaving else en_gone (rg_entries r y)))"
proof -
  have "reg_ok R S {} (takeOut e r')" if "reg_ok R S {e} r'" "rg_closed r'" "e < rg_next r'" for r'
    using takeOut_ok [OF that(1,3)] that(2) by simp
  moreover have "reg_ok R S {e} r" using pre(1) by (rule reg_ok_mono) simp
  moreover have "reg_ok R S {e} (stopIdle e r)"
    using pre(1) unfolding stopIdle_def reg_ok_def entries_ok_def resting_def by (auto intro!: lists_ok_upd_entry)
  moreover have "rg_closed (stopIdle e r)" "rg_next (stopIdle e r) = rg_next r"
    "en_gone (rg_entries (stopIdle e r) y) = en_gone (rg_entries r y)" for y
    using pre by (simp_all add: stopIdle_def)
  moreover have "en_gone (rg_entries (takeOut e r') y) = (if y = e then Leaving else en_gone (rg_entries r' y))"
    if "reg_ok R S {e} r'" "e < rg_next r'" for r' y
    using takeOut_gone(1) [of y e r'] takeOut_gone(2) [OF that(2)] fresh_serving [OF that(1), of y] by auto
  ultimately show ?thesis using f takeOut_gone(3,4) [where r = r and e = e]
    takeOut_gone(3,4) [where r = "stopIdle e r" and e = e] pre by auto
qed

lemma takeOuts_ok:
  assumes f: "\<And>e r. f e r = takeOut e r \<or> f e r = takeOut e (stopIdle e r)"
    and "reg_ok R S {} r" "rg_closed r" "\<forall>e \<in> set es. e < rg_next r \<and> en_gone (rg_entries r e) = Serving" "distinct es"
  shows "reg_ok R S {} (fold f es r) \<and> rg_closed (fold f es r)
     \<and> (\<forall>y. en_gone (rg_entries (fold f es r) y) = (if y \<in> set es then Leaving else en_gone (rg_entries r y)))"
  using assms(2-5)
proof (induction es arbitrary: r)
  case Nil
  then show ?case by simp
next
  case (Cons e es)
  have e: "e < rg_next r" using Cons.prems(3) by simp
  note s = takeOuts_step [where f = f, OF Cons.prems(1,2) e f]
  have "\<forall>x \<in> set es. x < rg_next (f e r) \<and> en_gone (rg_entries (f e r) x) = Serving"
    using s Cons.prems(3,4) by auto
  with Cons.IH [of "f e r"] s Cons.prems(4) show ?case by auto
qed

lemma reg_ok_close: "reg_ok R S {} r \<Longrightarrow> reg_ok R S {} (r\<lparr>rg_closed := True\<rparr>)"
  unfolding reg_ok_def entries_ok_def lists_ok_def resting_def handed_uses_def by simp

lemma do_close_inv:
  assumes inv: "venue_inv v" and ok: "reg_ok (rides_of v) (scope_uses (vn_scopes v)) {} r"
    and g: "distinct es" "\<And>e. e \<in> set es \<Longrightarrow> en_gone (rg_entries (vn_reg v) e) = Serving"
      "\<And>y. en_gone (rg_entries r y) = (if y \<in> set es then Leaving else en_gone (rg_entries (vn_reg v) y))"
    and c: "rg_closed r"
  shows "venue_inv (do_close (es, r) v)"
proof -
  have "rides_of (do_close (es, r) v) = rides_of v" by (simp add: rides_of_def fun_eq_iff do_close_def)
  moreover have "giving_ok (do_close (es, r) v)"
    using venue_invD(2) [OF inv] g unfolding giving_ok_def do_close_def by auto
  moreover have "released_ok (do_close (es, r) v)" using c by (simp add: released_ok_def do_close_def)
  ultimately show ?thesis using inv ok by (simp add: venue_inv_def do_close_def)
qed

lemma close_inv:
  assumes inv: "venue_inv v"
  shows "venue_inv (do_close (close_registry (vn_reg v)) v)"
proof -
  let ?r = "(vn_reg v)\<lparr>rg_closed := True\<rparr>"
  define es where "es = filter (\<lambda>e. in_service ?r e \<and> en_refs (rg_entries ?r e) = 0 \<and> en_gone (rg_entries ?r e) = Serving) [0..<rg_next ?r]"
  have es: "distinct es" "\<And>e. e \<in> set es \<Longrightarrow> e < rg_next ?r \<and> en_gone (rg_entries ?r e) = Serving"
    by (auto simp: es_def)
  have eq: "close_registry (vn_reg v) = (es, fold (\<lambda>e r. takeOut e (stopIdle e r)) es ?r)"
    by (simp add: close_registry_def es_def Let_def)
  have t: "reg_ok (rides_of v) (scope_uses (vn_scopes v)) {} (fold (\<lambda>e r. takeOut e (stopIdle e r)) es ?r)
     \<and> rg_closed (fold (\<lambda>e r. takeOut e (stopIdle e r)) es ?r)
     \<and> (\<forall>y. en_gone (rg_entries (fold (\<lambda>e r. takeOut e (stopIdle e r)) es ?r) y)
          = (if y \<in> set es then Leaving else en_gone (rg_entries ?r y)))"
    by (rule takeOuts_ok) (use es reg_ok_close [OF venue_invD(1) [OF inv]] in simp_all)
  show ?thesis
    unfolding eq by (rule do_close_inv [OF inv]) (use t es in \<open>simp_all\<close>)
qed

lemma close_rest_inv:
  assumes inv: "venue_inv v" and c: "rg_closed (vn_reg v)"
  shows "venue_inv (do_close (giveBackHeld (vn_reg v)) v)"
proof -
  let ?r = "vn_reg v"
  define es where "es = filter (\<lambda>e. rg_live ?r e \<and> en_gone (rg_entries ?r e) = Serving) [0..<rg_next ?r]"
  have es: "distinct es" "\<And>e. e \<in> set es \<Longrightarrow> e < rg_next ?r \<and> en_gone (rg_entries ?r e) = Serving"
    by (auto simp: es_def)
  have eq: "giveBackHeld ?r = (es, fold takeOut es ?r)"
    by (simp add: giveBackHeld_def es_def Let_def)
  have t: "reg_ok (rides_of v) (scope_uses (vn_scopes v)) {} (fold takeOut es ?r) \<and> rg_closed (fold takeOut es ?r)
     \<and> (\<forall>y. en_gone (rg_entries (fold takeOut es ?r) y) = (if y \<in> set es then Leaving else en_gone (rg_entries ?r y)))"
    by (rule takeOuts_ok) (use es c venue_invD(1) [OF inv] in simp_all)
  show ?thesis
    unfolding eq by (rule do_close_inv [OF inv]) (use t es in \<open>simp_all\<close>)
qed

subsection \<open>Every reachable state\<close>

lemma vstep_inv: "vstep ev v v' \<Longrightarrow> venue_inv v \<Longrightarrow> venue_inv v'"
proof (induction rule: vstep.induct)
  case (resolve s v tag e m rel err ended)
  then show ?case by (intro resolve_inv held_holds)
qed (simp_all add: do_claim_inv do_receive_inv do_abort_inv do_abandon_inv aside_inv answer_inv release_inv do_drop_inv
    unreserve_inv expire_inv give_inv give_end_inv close_inv close_rest_inv)

lemma vinit_inv:
  assumes "vinit v"
  shows "venue_inv v"
proof -
  have l: "l = Leases (lz_own l) (lz_rides l) (lz_source l)" "\<forall>tag w. lz_source l tag = Some w \<longrightarrow> worker_ok w"
    if "l \<in> set (vn_scopes v)" for l
    using assms that by (auto simp: vinit_def)
  have u: "uses_by s (vn_scopes v ! s) = {#}" if "s < length (vn_scopes v)" for s
  proof -
    have "scope_holds (Leases a b c) = []" for a b c by (simp add: Leases_def scope_holds_def)
    then show ?thesis using l(1) [of "vn_scopes v ! s"] that by (metis image_mset_empty mset.simps(1) nth_mem uses_by_def)
  qed
  have ok: "scope_ok s (vn_scopes v ! s)" if "s < length (vn_scopes v)" for s
  proof -
    have "scope_ok s (Leases a b c)" if "\<forall>tag w. c tag = Some w \<longrightarrow> worker_ok w" for a b c
      using that by (simp add: scope_ok_def Leases_def)
    then show ?thesis using l [of "vn_scopes v ! s"] that by (metis nth_mem)
  qed
  have "scope_uses (vn_scopes v) = {#}" using u by (simp add: scope_uses_def)
  moreover have "reg_ok R {#} {} NewRegistryWith" for R
    unfolding reg_ok_def entries_ok_def lists_ok_def resting_def handed_uses_def pool_ok_def
    by (simp add: NewRegistryWith_def uses_of_def jobs_of_def new_pool_def)
  ultimately show ?thesis
    using assms ok by (simp add: venue_inv_def vinit_def giving_ok_def released_ok_def)
      (simp add: NewRegistryWith_def)
qed

end
