(* ===== verification/MachineFair.thy ===== *)
theory MachineFair
  imports MachineSteps
begin

text \<open>
  The cap and the queue of a pool: its members and the places it keeps are at most \<^verbatim>\<open>?max=\<close>,
  and no job waits while a machine is free for it or there is room for a new one. Every operation of the
  registry keeps both, but for a check that launches a machine into an empty pool whose places are all
  kept.
\<close>

definition cap_ok :: "pool \<Rightarrow> bool" where
  "cap_ok p \<longleftrightarrow> pl_max p = 0 \<or> pool_size p \<le> pl_max p"

definition waits_ok :: "(nat \<Rightarrow> entry) \<Rightarrow> pool \<Rightarrow> bool" where
  "waits_ok h p \<longleftrightarrow> pl_waiters p = [] \<or> (warmest h True p = None \<and> \<not> room p)"

definition fair_at :: "registry \<Rightarrow> string \<Rightarrow> bool" where
  "fair_at r k \<longleftrightarrow> cap_ok (rg_pools r k) \<and> (rg_closed r \<or> waits_ok (rg_entries r) (rg_pools r k))"

definition fair :: "registry \<Rightarrow> bool" where
  "fair r \<longleftrightarrow> (\<forall>k. fair_at r k)"

lemma fairD: "fair r \<Longrightarrow> fair_at r k"
  by (simp add: fair_def)

lemma fairI: "fair_at r k \<Longrightarrow> (\<And>j. j \<noteq> k \<Longrightarrow> fair_at r j) \<Longrightarrow> fair r"
  unfolding fair_def by metis

text \<open>Machines that no new job may take stay so.\<close>

definition busier :: "registry \<Rightarrow> registry \<Rightarrow> bool" where
  "busier r r' \<longleftrightarrow>
     (\<forall>e < rg_next r. for_job_skips (rg_entries r) True e \<longrightarrow> for_job_skips (rg_entries r') True e)"

lemma fair_at_frame:
  assumes "fair_at r k" "lists_ok R r" "rg_pools r' k = rg_pools r k" "rg_closed r' = rg_closed r" "busier r r'"
  shows "fair_at r' k"
  using assms memberD(1) [OF assms(2), of _ k]
  by (auto simp: fair_at_def waits_ok_def warmest_None_iff busier_def)

lemma fair_frame:
  assumes "fair r" "lists_ok R r" "rg_pools r' = rg_pools r" "rg_closed r' = rg_closed r" "busier r r'"
  shows "fair r'"
  using assms fair_at_frame [of r _ R r'] by (simp add: fair_def)

lemma busier_refl [simp]: "busier r r"
  by (simp add: busier_def)

lemma skips_count:
  "for_job_skips (rg_entries r) True x \<Longrightarrow> for_job_skips (rg_entries (count_hold e w job r)) True x"
  by (auto simp: for_job_skips_def acq_failed_def)

lemma waits_ok_skips:
  "waits_ok h p \<Longrightarrow> (\<And>x. for_job_skips h True x \<Longrightarrow> for_job_skips h' True x) \<Longrightarrow> waits_ok h' p"
  by (auto simp: waits_ok_def warmest_None_iff)

lemma busier_count: "busier r (count_hold e w job r)"
  unfolding busier_def using skips_count by blast

lemma busier_upd_entry:
  assumes "en_jobs (rg_entries r e) > 0 \<Longrightarrow> en_jobs (f (rg_entries r e)) > 0"
    and "acq_failed (rg_entries r e) \<Longrightarrow> acq_failed (f (rg_entries r e))"
  shows "busier r (upd_entry e f r)"
  using assms by (auto simp: busier_def for_job_skips_def)

lemma fair_upd_entry:
  assumes "fair r" "lists_ok R r" "en_jobs (rg_entries r e) > 0 \<Longrightarrow> en_jobs (f (rg_entries r e)) > 0"
    "acq_failed (rg_entries r e) \<Longrightarrow> acq_failed (f (rg_entries r e))"
  shows "fair (upd_entry e f r)"
  using busier_upd_entry [where f = f, OF assms(3,4)] by (intro fair_frame [OF assms(1,2)]) simp_all

lemma fair_count: "fair r \<Longrightarrow> lists_ok R r \<Longrightarrow> fair (count_hold e w job r)"
  by (rule fair_frame [OF _ _ _ _ busier_count]) simp_all

lemma waits_ok_pool:
  assumes "lists_ok R r" "waits_ok (rg_entries r) p" "set (pl_members p) \<subseteq> set (pl_members (rg_pools r k))" "busier r r'"
  shows "waits_ok (rg_entries r') p"
  using assms memberD(1) [OF assms(1), of _ k] by (auto simp: waits_ok_def warmest_None_iff busier_def)

subsection \<open>Serving\<close>

lemma fair_at_member:
  assumes "fair_at r j" "j \<noteq> k" "lists_ok R r"
  shows "fair_at (snd (pool_member k w r)) j"
  using assms memberD(1) [OF assms(3), of _ j]
  by (auto simp: fair_at_def waits_ok_def warmest_None_iff for_job_skips_def)

lemma serve_loop_fair:
  "reg_ok R S X r \<Longrightarrow> pl_waiters (rg_pools r k) = ws \<Longrightarrow> cap_ok (rg_pools r k) \<Longrightarrow> \<forall>j. j \<noteq> k \<longrightarrow> fair_at r j
    \<Longrightarrow> fair (serve_loop k ws r)"
proof (induction ws arbitrary: r)
  case Nil
  have "fair_at r j" for j
    using Nil by (cases "j = k") (auto simp: fair_at_def waits_ok_def)
  then show ?case by (simp add: fair_def)
next
  case (Cons n rest)
  let ?free = "warmest (rg_entries r) True (rg_pools r k)"
  note ok = Cons.prems(1)
  note li = reg_okD(2) [OF ok]
  show ?case
  proof (cases "rg_closed r \<or> (?free = None \<and> \<not> room (rg_pools r k))")
    case True
    then have "fair_at r j" for j
      using Cons.prems by (cases "j = k") (auto simp: fair_at_def waits_ok_def)
    moreover have "serve_loop k (n # rest) r = r" using True by (auto simp: Let_def)
    ultimately show ?thesis by (simp add: fair_def)
  next
    case False
    obtain e r1 where e: "(e, r1) = (case ?free of Some e \<Rightarrow> (e, r) | None \<Rightarrow> pool_member k (wt_worker n) r)"
      by (metis surj_pair)
    let ?q = "upd_pool k (\<lambda>p. p\<lparr>pl_waiters := rest\<rparr>) r1"
    let ?r' = "count_hold e (wt_worker n) (Some (wt_scope n)) ?q"
    let ?r'' = "?r'\<lparr>rg_handed := rg_handed ?r' @ [(n, e)]\<rparr>"
    have r1: "r1 = (if ?free = None then snd (pool_member k (wt_worker n) r) else r)"
      using e by (cases ?free) (auto simp: prod_eq_iff)
    have next_ok: "reg_ok R S X ?r''" using Cons.prems e by (intro serve_one) simp_all
    have room: "room (rg_pools r k)" if "?free = None" using False that by simp
    have cap: "cap_ok (rg_pools r1 k)"
      using Cons.prems(3) room unfolding r1 by (auto simp: cap_ok_def room_def pool_size_def reserved_places_def)
    have len: "cap_ok (p\<lparr>pl_waiters := rest\<rparr>) = cap_ok p" for p
      by (simp add: cap_ok_def pool_size_def reserved_places_def)
    have cap': "cap_ok (rg_pools ?r'' k)" using cap len by simp
    have other: "fair_at ?r'' j" if "j \<noteq> k" for j
    proof -
      have "fair_at r1 j" using fair_at_member [OF _ that li] Cons.prems(4) that unfolding r1 by auto
      then have "fair_at ?q j" using that by (simp add: fair_at_def)
      then have "waits_ok (rg_entries ?r') (rg_pools ?q j) \<or> rg_closed ?q"
        using waits_ok_skips [OF _ skips_count] by (auto simp: fair_at_def simp del: upd_pool_simps count_hold_entries)
      with \<open>fair_at ?q j\<close> show ?thesis by (auto simp: fair_at_def simp del: count_hold_entries)
    qed
    have "serve_loop k (n # rest) r = serve_loop k rest ?r''"
      using False by (auto simp: Let_def e [symmetric] simp del: not_None_eq)
    then show ?thesis using Cons.IH [OF next_ok _ cap'] other by simp
  qed
qed

lemma serve_fair:
  assumes "reg_ok R S X r" "cap_ok (rg_pools r k)" "\<And>j. j \<noteq> k \<Longrightarrow> fair_at r j"
  shows "fair (serve k r)"
  unfolding serve_def using serve_loop_fair [OF assms(1) refl assms(2)] assms(3) by blast

lemma serve_fair': "reg_ok R S X r \<Longrightarrow> fair r \<Longrightarrow> fair (serve k r)"
  by (rule serve_fair) (simp_all add: fair_def fair_at_def)

subsection \<open>Leaving a pool\<close>

lemma pool_size_remove:
  assumes "e \<in> set (pl_members p)"
  shows "pool_size (p\<lparr>pl_members := remove1 e (pl_members p)\<rparr>) = pool_size p - 1"
proof -
  obtain n where "length (pl_members p) = Suc n" using assms by (cases "pl_members p") simp_all
  with assms show ?thesis by (simp add: pool_size_def reserved_places_def length_remove1)
qed

text \<open>Withdrawing a machine (\<open>f\<close> marks it) from a pool that may hold one place more than it may
  once the machine has left.\<close>

lemma serve_after_leaving:
  assumes ok: "reg_ok R S X r'" and q: "r' = upd_pool k (\<lambda>p. p\<lparr>pl_members := remove1 e (pl_members p)\<rparr>) (upd_entry e f r)"
    and li: "lists_ok R r" and e: "e \<in> set (pl_members (rg_pools r k))"
    and cap: "pl_max (rg_pools r k) = 0 \<or> pool_size (rg_pools r k) \<le> pl_max (rg_pools r k) + 1"
    and other: "\<And>j. j \<noteq> k \<Longrightarrow> fair_at r j"
  shows "fair (serve k r')"
proof (rule serve_fair [OF ok])
  have "rg_pools r' k = (rg_pools r k)\<lparr>pl_members := remove1 e (pl_members (rg_pools r k))\<rparr>" by (simp add: q)
  moreover have "pl_max (rg_pools r' k) = pl_max (rg_pools r k)" by (simp add: q)
  ultimately show "cap_ok (rg_pools r' k)"
    using cap pool_size_remove [OF e] by (auto simp: cap_ok_def)
  show "fair_at r' j" if "j \<noteq> k" for j
  proof -
    have "e \<notin> set (pl_members (rg_pools r j))"
      using memberD(2) [OF li e] memberD(2) [OF li, of e j] that by auto
    then show ?thesis
      using other [OF that] that by (auto simp: q fair_at_def waits_ok_def warmest_None_iff for_job_skips_def)
  qed
qed

lemma withdraw_fair:
  assumes ok: "reg_ok R S X r" and e: "e < rg_next r"
    and f: "en_refs (f (rg_entries r e)) = en_refs (rg_entries r e)" "en_pool (f (rg_entries r e)) = en_pool (rg_entries r e)"
      "en_source (f (rg_entries r e)) = en_source (rg_entries r e)"
      "en_jobs (f (rg_entries r e)) = en_jobs (rg_entries r e)" "en_holder (f (rg_entries r e)) = en_holder (rg_entries r e)"
      "acq_failed (f (rg_entries r e)) = acq_failed (rg_entries r e)"
    and gone: "en_gone (f (rg_entries r e)) = en_gone (rg_entries r e)
       \<or> (en_gone (f (rg_entries r e)) \<noteq> Serving \<and> (rg_closed r \<or> en_refs (rg_entries r e) = 0))"
    and idle: "en_idle (f (rg_entries r e)) = en_idle (rg_entries r e) \<or> en_gone (f (rg_entries r e)) \<noteq> Serving"
    and inside: "\<And>k. en_pool (rg_entries r e) = Some k \<Longrightarrow> e \<in> set (pl_members (rg_pools r k))
       \<Longrightarrow> (pl_max (rg_pools r k) = 0 \<or> pool_size (rg_pools r k) \<le> pl_max (rg_pools r k) + 1) \<and> (\<forall>j. j \<noteq> k \<longrightarrow> fair_at r j)"
    and outside: "(\<And>k. en_pool (rg_entries r e) = Some k \<Longrightarrow> e \<notin> set (pl_members (rg_pools r k))) \<Longrightarrow> fair r"
  shows "fair (forget e (upd_entry e f r))"
proof (cases "\<exists>k. en_pool (rg_entries r e) = Some k \<and> e \<in> set (pl_members (rg_pools r k))")
  case False
  then have "fair r" using outside by blast
  then have "fair (upd_entry e f r)"
    by (rule fair_upd_entry [OF _ reg_okD(2) [OF ok]]) (simp_all add: f)
  moreover have "rg_pools (forget e (upd_entry e f r)) = rg_pools (upd_entry e f r)"
    "rg_entries (forget e (upd_entry e f r)) = rg_entries (upd_entry e f r)"
    "rg_closed (forget e (upd_entry e f r)) = rg_closed (upd_entry e f r)"
    using False f by (auto simp: forget_def leavePool_def Let_def)
  ultimately show ?thesis by (simp add: fair_def fair_at_def)
next
  case True
  then obtain k where k: "en_pool (rg_entries r e) = Some k" "e \<in> set (pl_members (rg_pools r k))" by blast
  let ?r = "upd_pool k (\<lambda>p. p\<lparr>pl_members := remove1 e (pl_members p)\<rparr>) (upd_entry e f r)"
  have "forget e (upd_entry e f r) = serve k ?r"
    using k f(2) by (simp add: forget_def leavePool_def Let_def)
  moreover have "fair (serve k ?r)"
    using inside [OF k] serve_after_leaving [OF reg_ok_withdraw_pool(1) [where f = f, OF ok e k(1) f(1-5) gone idle k(2)] refl reg_okD(2) [OF ok] k(2)]
    by blast
  ultimately show ?thesis by simp
qed

lemma takeOut_fair:
  assumes ok: "reg_ok R S X r" and fa: "fair r" and e: "e < rg_next r" and z: "rg_closed r \<or> en_refs (rg_entries r e) = 0"
  shows "fair (takeOut e r)"
proof (cases "parked (rg_entries r e)")
  case True
  then have "takeOut e r = upd_entry e (\<lambda>h. h\<lparr>en_gone := Leaving\<rparr>) r" by (simp add: takeOut_def Let_def parked_def)
  moreover have "fair (upd_entry e (\<lambda>h. h\<lparr>en_gone := Leaving\<rparr>) r)"
    by (rule fair_upd_entry [OF fa reg_okD(2) [OF ok]]) (simp_all add: acq_failed_def)
  ultimately show ?thesis by simp
next
  case False
  then have "takeOut e r = forget e (upd_entry e (\<lambda>h. h\<lparr>en_gone := Leaving\<rparr>) r)" by (simp add: takeOut_def Let_def parked_def)
  moreover have "fair (forget e (upd_entry e (\<lambda>h. h\<lparr>en_gone := Leaving\<rparr>) r))"
  proof (rule withdraw_fair [OF ok e])
    show "(pl_max (rg_pools r k) = 0 \<or> pool_size (rg_pools r k) \<le> pl_max (rg_pools r k) + 1) \<and> (\<forall>j. j \<noteq> k \<longrightarrow> fair_at r j)" for k
      using fa by (auto simp: fair_def fair_at_def cap_ok_def)
  qed (use z fa in \<open>auto simp: acq_failed_def\<close>)
  ultimately show ?thesis by simp
qed

lemma forget_fair:
  assumes ok: "reg_ok R S X r" and fa: "fair r" and e: "e < rg_next r"
  shows "fair (forget e r)"
proof -
  have id: "upd_entry e (\<lambda>h. h) r = r" by (simp add: upd_entry_def)
  have "fair (forget e (upd_entry e (\<lambda>h. h) r))"
  proof (rule withdraw_fair [OF ok e])
    show "(pl_max (rg_pools r k) = 0 \<or> pool_size (rg_pools r k) \<le> pl_max (rg_pools r k) + 1) \<and> (\<forall>j. j \<noteq> k \<longrightarrow> fair_at r j)" for k
      using fa by (auto simp: fair_def fair_at_def cap_ok_def)
  qed (use fa in auto)
  then show ?thesis by (simp add: id)
qed

lemma reserve_place_size:
  assumes "distinct (map fst (pl_reserved p))"
  shows "pool_size (reserve_place s p) = pool_size p + 1" "pl_max (reserve_place s p) = pl_max p"
    "pl_members (reserve_place s p) = pl_members p" "pl_waiters (reserve_place s p) = pl_waiters p"
  using set_place_sum [OF assms, of s]
  by (auto simp: reserve_place_def pool_size_def reserved_places_def split: option.split)

text \<open>Retiring a machine keeps its job's place: the pool's size stays.\<close>

lemma retire_fair:
  assumes ok: "reg_ok R S {} r" and fa: "fair r" and e: "e < rg_next r"
  shows "fair (retire e r)"
proof -
  let ?r = "reserveFor e r"
  have d: "distinct (map fst (pl_reserved (rg_pools r k)))" for k
    using lists_okD [OF reg_okD(2) [OF ok], of k] by (simp add: pool_ok_def)
  have same: "?r = r \<or> (\<exists>k s. en_pool (rg_entries r e) = Some k \<and> e \<in> set (pl_members (rg_pools r k)) \<and> ?r = upd_pool k (reserve_place s) r)"
    by (auto simp: reserveFor_def split: option.split)
  have "fair (forget e (upd_entry e (\<lambda>h. h\<lparr>en_retired := True\<rparr>) ?r))"
  proof (rule withdraw_fair [OF reserveFor_ok [OF ok]])
    show "(pl_max (rg_pools ?r k) = 0 \<or> pool_size (rg_pools ?r k) \<le> pl_max (rg_pools ?r k) + 1) \<and> (\<forall>j. j \<noteq> k \<longrightarrow> fair_at ?r j)"
      if k: "en_pool (rg_entries ?r e) = Some k" for k
      using same fa k reserve_place_size [OF d] by (auto simp: fair_def fair_at_def cap_ok_def)
    show "fair ?r" if "\<And>k. en_pool (rg_entries ?r e) = Some k \<Longrightarrow> e \<notin> set (pl_members (rg_pools ?r k))"
      using same that fa reserve_place_size(3) [OF d] by auto
  qed (use e in \<open>auto simp: acq_failed_def\<close>)
  then show ?thesis by (simp add: retire_def)
qed

subsection \<open>Taking\<close>

lemma takeReserved_size:
  assumes "distinct (map fst (pl_reserved p))" "\<forall>x \<in> set (pl_reserved p). 1 \<le> snd x"
  shows "pool_size (snd (takeReserved s p)) = (if fst (takeReserved s p) then pool_size p - 1 else pool_size p)"
    "pl_max (snd (takeReserved s p)) = pl_max p" "pl_members (snd (takeReserved s p)) = pl_members p"
    "pl_waiters (snd (takeReserved s p)) = pl_waiters p" "\<not> fst (takeReserved s p) \<Longrightarrow> snd (takeReserved s p) = p"
proof -
  have one: "n = 1" if "map_of (pl_reserved p) s = Some n" "n \<le> 1" for n
    using that assms(2) by (auto dest!: map_of_SomeD)
  show "pool_size (snd (takeReserved s p)) = (if fst (takeReserved s p) then pool_size p - 1 else pool_size p)"
    using drop_place_sum [OF assms(1), of s] set_place_sum [OF assms(1), of s] one
    by (auto simp: takeReserved_def pool_size_def reserved_places_def split: option.split)
qed (auto simp: takeReserved_def split: option.split)

lemma pool_size_snoc: "pool_size (p\<lparr>pl_members := pl_members p @ [e]\<rparr>) = pool_size p + 1"
  by (simp add: pool_size_def reserved_places_def)

lemma fair_pool_of:
  assumes "fair r" "0 \<le> m"
  shows "fair (pool_of k m r)"
proof -
  have "pool_size (new_pool m) = 0" by (simp add: pool_size_def reserved_places_def)
  with assms show ?thesis
    by (auto simp: pool_of_def fair_def fair_at_def cap_ok_def waits_ok_def)
qed

text \<open>A new machine for a scope that counts toward it.\<close>

lemma fair_take_new:
  assumes ok: "reg_ok R S X r" and other: "\<And>j. j \<noteq> k \<Longrightarrow> fair_at r j"
    and cap: "pl_max (rg_pools r k) = 0 \<or> pool_size (rg_pools r k) < pl_max (rg_pools r k)"
    and q: "rg_closed r \<or> pl_waiters (rg_pools r k) = []
      \<or> (job \<noteq> None \<and> warmest (rg_entries r) True (rg_pools r k) = None \<and> pl_max (rg_pools r k) \<noteq> 0
         \<and> pool_size (rg_pools r k) + 1 \<ge> pl_max (rg_pools r k))"
  shows "fair (count_hold (rg_next r) w job (snd (pool_member k w r)))"
proof -
  let ?m = "snd (pool_member k w r)"
  let ?c = "count_hold (rg_next r) w job ?m"
  note li = reg_okD(2) [OF ok]
  have "fair_at ?c j" for j
  proof (cases "j = k")
    case False
    have "fair_at ?m j" by (rule fair_at_member [OF other [OF False] False li])
    then have "waits_ok (rg_entries ?c) (rg_pools ?m j) \<or> rg_closed ?m"
      using waits_ok_skips [OF _ skips_count] by (auto simp: fair_at_def simp del: pool_member_simps count_hold_entries)
    with \<open>fair_at ?m j\<close> show ?thesis by (auto simp: fair_at_def simp del: pool_member_simps count_hold_entries)
  next
    case True
    have p: "rg_pools ?c k = (rg_pools r k)\<lparr>pl_members := pl_members (rg_pools r k) @ [rg_next r]\<rparr>" by simp
    have "cap_ok (rg_pools ?c k)" using cap unfolding p cap_ok_def pool_size_snoc by auto
    moreover have "rg_closed ?c \<or> waits_ok (rg_entries ?c) (rg_pools ?c k)"
      using q
    proof (elim disjE conjE)
      assume "warmest (rg_entries r) True (rg_pools r k) = None" "job \<noteq> None" "pl_max (rg_pools r k) \<noteq> 0"
        "pool_size (rg_pools r k) + 1 \<ge> pl_max (rg_pools r k)"
      moreover have "x \<noteq> rg_next r" if "x \<in> set (pl_members (rg_pools r k))" for x
        using memberD(1) [OF li that] by simp
      ultimately have "warmest (rg_entries ?c) True (rg_pools ?c k) = None" "\<not> room (rg_pools ?c k)"
        unfolding p warmest_None_iff room_def pool_size_snoc by (auto simp: for_job_skips_def)
      then show ?thesis by (simp add: waits_ok_def)
    qed (simp_all add: waits_ok_def)
    ultimately show ?thesis using True by (simp add: fair_at_def)
  qed
  then show ?thesis by (simp add: fair_def)
qed

lemma take_ride_fair:
  assumes ok: "reg_ok R S {} r" and fa: "fair r" and fits: "pl_members (rg_pools r k) \<noteq> [] \<or> room (rg_pools r k)"
  shows "fair (snd (take_ride k w r))"
proof (cases "warmest (rg_entries r) False (rg_pools r k)")
  case (Some e)
  then show ?thesis using fair_count [OF fa reg_okD(2) [OF ok]] by (simp add: take_ride_def)
next
  case None
  then have "pl_members (rg_pools r k) = []"
    by (simp add: warmest_None_iff for_job_skips_def)
  with fits have "room (rg_pools r k)" by simp
  moreover from this have "rg_closed r \<or> pl_waiters (rg_pools r k) = []"
    using fairD [OF fa, of k] by (auto simp: fair_at_def waits_ok_def)
  ultimately have "fair (count_hold (rg_next r) w None (snd (pool_member k w r)))"
    by (intro fair_take_new [OF ok fairD [OF fa]]) (auto simp: room_def)
  with None show ?thesis by (simp add: take_ride_def split_def)
qed

lemma take_job_fair:
  assumes ok: "reg_ok R S {} r" and fa: "fair r"
  shows "fair (snd (take_job s k w r))"
proof -
  let ?p0 = "rg_pools r k"
  obtain reserved p where p: "takeReserved s ?p0 = (reserved, p)" by (cases "takeReserved s ?p0")
  let ?r = "upd_pool k (\<lambda>_. p) r"
  note li = reg_okD(2) [OF ok]
  have res: "distinct (map fst (pl_reserved ?p0))" "\<forall>x \<in> set (pl_reserved ?p0). 1 \<le> snd x"
    using lists_okD [OF li, of k] by (simp_all add: pool_ok_def)
  have size: "pool_size p = (if reserved then pool_size ?p0 - 1 else pool_size ?p0)" "pl_max p = pl_max ?p0"
    "pl_members p = pl_members ?p0" "pl_waiters p = pl_waiters ?p0" "\<not> reserved \<Longrightarrow> p = ?p0"
    using takeReserved_size [OF res, of s] p by simp_all
  have warm: "warmest h b p = warmest h b ?p0" for h b by (simp add: warmest_def size(3))
  have cap: "cap_ok ?p0" and wait: "rg_closed r \<or> waits_ok (rg_entries r) ?p0"
    using fairD [OF fa, of k] by (simp_all add: fair_at_def)
  have r: "reg_ok R S {} ?r"
    using takeReserved_ok [OF lists_okD [OF li], of k s] p by (intro reg_ok_pool [OF ok]) simp
  have other: "fair_at ?r j" if "j \<noteq> k" for j
    using fairD [OF fa, of j] that by (simp add: fair_at_def)
  have cap': "cap_ok p" using cap size by (auto simp: cap_ok_def)
  have busy: "fair (count_hold e w (Some s) ?r)" if e: "warmest (rg_entries ?r) True p = Some e" for e
  proof (rule fair_count [OF _ reg_okD(2) [OF r]])
    have "rg_closed r \<or> pl_waiters p = []" using wait e size(4) warm by (auto simp: waits_ok_def)
    then have "fair_at ?r k" using cap' by (auto simp: fair_at_def waits_ok_def)
    then show "fair ?r" by (rule fairI) (rule other)
  qed
  have new: "fair (count_hold (rg_next ?r) w (Some s) (snd (pool_member k w ?r)))"
    if n: "warmest (rg_entries ?r) True p = None" and m: "reserved \<or> (pl_waiters p = [] \<and> room p)"
  proof (rule fair_take_new [OF r other])
    show "pl_max (rg_pools ?r k) = 0 \<or> pool_size (rg_pools ?r k) < pl_max (rg_pools ?r k)"
      using m cap size by (auto simp: room_def cap_ok_def)
    show "rg_closed ?r \<or> pl_waiters (rg_pools ?r k) = []
      \<or> (Some s \<noteq> None \<and> warmest (rg_entries ?r) True (rg_pools ?r k) = None \<and> pl_max (rg_pools ?r k) \<noteq> 0
         \<and> pool_size (rg_pools ?r k) + 1 \<ge> pl_max (rg_pools ?r k))"
      using m wait n size by (auto simp: waits_ok_def room_def)
  qed
  have queue: "fair (snd (enqueue s k w ?r))"
    if c: "\<not> reserved" "pl_waiters p \<noteq> [] \<or> (warmest (rg_entries ?r) True p = None \<and> \<not> room p)"
  proof -
    have pp: "p = ?p0" by (rule size(5) [OF c(1)])
    have full: "rg_closed r \<or> (warmest (rg_entries r) True ?p0 = None \<and> \<not> room ?p0)"
      using c(2) wait pp by (auto simp: waits_ok_def)
    have "fair_at (snd (enqueue s k w ?r)) j" for j
    proof (cases "j = k")
      case False
      then show ?thesis using other [OF False] by (simp add: enqueue_def Let_def fair_at_def)
    next
      case True
      have "cap_ok (q\<lparr>pl_waiters := ws\<rparr>) = cap_ok q" "warmest h b (q\<lparr>pl_waiters := ws\<rparr>) = warmest h b q"
        "room (q\<lparr>pl_waiters := ws\<rparr>) = room q" for q ws h b
        by (simp_all add: cap_ok_def pool_size_def reserved_places_def warmest_def room_def)
      then show ?thesis using True full cap pp by (auto simp: enqueue_def Let_def fair_at_def waits_ok_def)
    qed
    then show ?thesis by (simp add: fair_def)
  qed
  show ?thesis
    unfolding take_job_def p using busy new queue
    by (auto simp: Let_def split_def split: option.split simp del: upd_pool_simps)
qed

subsection \<open>Dropping and closing\<close>

lemma if_cases: "P b \<Longrightarrow> (c \<Longrightarrow> P a) \<Longrightarrow> P (if c then a else b)"
  by simp

lemma letGo_fair:
  assumes ok: "reg_ok R S X (upd_entry e (\<lambda>h. h\<lparr>en_jobs := en_jobs h - 1, en_holder := None, en_used := u\<rparr>) r)"
    and fa: "fair r" and li: "lists_ok R r" and k: "en_pool (rg_entries r e) = Some k"
    and small: "en_jobs (rg_entries r e) \<le> 1" and u: "u = pl_used (rg_pools r k) + 1"
  shows "fair (letGo e False r)"
proof -
  let ?f = "\<lambda>h. h\<lparr>en_jobs := en_jobs h - 1, en_holder := None, en_used := u\<rparr>"
  let ?r = "upd_pool k (\<lambda>p. p\<lparr>pl_used := u\<rparr>) (upd_entry e ?f r)"
  have "pool_ok R (rg_entries (upd_entry e ?f r)) (rg_next (upd_entry e ?f r)) (rg_tickets (upd_entry e ?f r)) k
      ((rg_pools (upd_entry e ?f r) k)\<lparr>pl_used := u\<rparr>)"
    using lists_okD [OF reg_okD(2) [OF ok], of k] by (simp add: pool_ok_def)
  then have r: "reg_ok R S X ?r" by (rule reg_ok_pool [where g = "\<lambda>p. p\<lparr>pl_used := u\<rparr>", OF ok])
  have used: "cap_ok (p\<lparr>pl_used := u\<rparr>) = cap_ok p" "room (p\<lparr>pl_used := u\<rparr>) = room p" for p
    by (simp_all add: cap_ok_def pool_size_def reserved_places_def room_def)
  have cap: "cap_ok (rg_pools ?r k)" using fairD [OF fa, of k] by (simp add: fair_at_def used)
  have not_in: "e \<notin> set (pl_members (rg_pools r j))" if "j \<noteq> k" for j
    using memberD(2) [OF li, of e j] k that by auto
  have other: "fair_at ?r j" if "j \<noteq> k" for j
    using fairD [OF fa, of j] not_in [OF that] that
    by (auto simp: fair_at_def waits_ok_def warmest_None_iff for_job_skips_def)
  have eq: "letGo e False r = (if e \<notin> set (pl_members (rg_pools r k)) then ?r else serve k ?r)"
    using k small u by (simp add: letGo_def Let_def upd_entry_twice)
  have "fair ?r" if "e \<notin> set (pl_members (rg_pools r k))"
  proof -
    have "fair_at ?r k"
      using fairD [OF fa, of k] that used
      by (auto simp: fair_at_def waits_ok_def warmest_None_iff for_job_skips_def)
    then show ?thesis by (rule fairI) (rule other)
  qed
  with serve_fair [OF r cap other] show ?thesis unfolding eq by (rule if_cases [where P = fair])
qed

lemma unhold_fair:
  assumes ok: "reg_ok R (add_mset (s, e) S) X r" and fa: "fair r"
  shows "fair (unhold False (R s) e r)"
proof -
  let ?r1 = "upd_entry e (\<lambda>h. h\<lparr>en_refs := en_refs h - 1\<rparr>) r"
  have li: "lists_ok R r" by (rule reg_okD(2) [OF ok])
  have li1: "lists_ok R ?r1" by (rule lists_ok_upd_entry [OF li]) simp_all
  have r1: "fair ?r1" by (rule fair_upd_entry [OF fa li]) (simp_all add: acq_failed_def)
  show ?thesis
  proof (cases "en_pool (rg_entries r e) \<noteq> None \<and> \<not> R s")
    case False
    then show ?thesis using r1 by (auto simp: unhold_def)
  next
    case True
    then obtain k where k: "en_pool (rg_entries r e) = Some k" by auto
    show ?thesis
    proof (cases "1 < en_jobs (rg_entries r e)")
      case big: True
      have "fair (upd_entry e (\<lambda>h. h\<lparr>en_jobs := en_jobs h - 1\<rparr>) ?r1)"
        by (rule fair_upd_entry [OF r1 li1]) (use big in \<open>simp_all add: acq_failed_def\<close>)
      with True big show ?thesis by (simp add: unhold_def letGo_def Let_def)
    next
      case small: False
      define u where "u = pl_used (rg_pools r k) + 1"
      have "reg_ok R S (insert e X) (upd_entry e (\<lambda>h. h\<lparr>en_refs := en_refs h - 1, en_jobs := en_jobs h - 1, en_holder := None, en_used := u\<rparr>) r)"
        by (rule reg_ok_release [OF ok]) (use True small in auto)
      then have "fair (letGo e False ?r1)"
        using small by (intro letGo_fair [where u = u, OF _ r1 li1]) (simp_all add: upd_entry_twice k u_def)
      with True show ?thesis by (simp add: unhold_def)
    qed
  qed
qed

lemma lease_drop_fair:
  assumes ok: "reg_ok R (add_mset (s, e) S) {} r" and fa: "fair r"
  shows "fair (snd (lease_drop False (R s) e r))"
proof -
  let ?u = "unhold False (R s) e r"
  have u: "reg_ok R S {e} ?u" by (rule unhold_ok [OF ok])
  have f: "fair ?u" by (rule unhold_fair [OF ok fa])
  have "e < rg_next r" by (rule held_in_range [OF ok, of s]) simp
  then have e: "e < rg_next ?u"
    using unhold_gone(2) [OF fresh_serving [OF ok], of False "R s" e] by simp
  have "fair (takeOut e ?u)" if "\<not> 0 < en_refs (rg_entries ?u e)"
    using takeOut_fair [OF u f e] that refs_nonneg [OF reg_okD(1) [OF u], of e] by simp
  moreover have "fair (upd_entry e (\<lambda>h. h\<lparr>en_gen := en_gen h + 1, en_idle := True\<rparr>) ?u)"
    by (rule fair_upd_entry [OF f reg_okD(2) [OF u]]) (simp_all add: acq_failed_def)
  ultimately show ?thesis
    unfolding lease_drop_unhold using f by (auto simp: Let_def simp del: upd_entry_simps)
qed

lemma expire_fair:
  assumes ok: "reg_ok R S {} r" and fa: "fair r" and e: "e < rg_next r"
  shows "fair (snd (expire e gen r))"
proof (cases "en_refs (rg_entries r e) > 0 \<or> en_gen (rg_entries r e) \<noteq> gen \<or> en_gone (rg_entries r e) \<noteq> Serving")
  case True
  then show ?thesis using fa by (simp add: expire_def Let_def)
next
  case False
  let ?r = "upd_entry e (\<lambda>h. h\<lparr>en_idle := False\<rparr>) r"
  have "reg_ok R S {e} ?r"
    using ok unfolding reg_ok_def entries_ok_def resting_def by (auto intro!: lists_ok_upd_entry)
  moreover have "fair ?r" by (rule fair_upd_entry [OF fa reg_okD(2) [OF ok]]) (simp_all add: acq_failed_def)
  moreover have "en_refs (rg_entries ?r e) = 0" using False refs_nonneg [OF reg_okD(1) [OF ok], of e] by simp
  ultimately have "fair (takeOut e ?r)" using takeOut_fair e by simp
  with False show ?thesis by (simp add: expire_def Let_def)
qed

lemma unreserve_in_fair:
  assumes ok: "reg_ok R S X r" and fa: "fair r"
  shows "fair (unreserve_in s k r)"
proof (cases "map_of (pl_reserved (rg_pools r k)) s")
  case None
  with fa show ?thesis by (simp add: unreserve_in_def)
next
  case (Some n)
  let ?d = "\<lambda>p. p\<lparr>pl_reserved := filter (\<lambda>x. fst x \<noteq> s) (pl_reserved p)\<rparr>"
  have p: "distinct (map fst (pl_reserved (rg_pools r k)))" "\<forall>x \<in> set (pl_reserved (rg_pools r k)). 1 \<le> snd x"
    using lists_okD [OF reg_okD(2) [OF ok], of k] by (simp_all add: pool_ok_def)
  have d: "reg_ok R S X (upd_pool k ?d r)"
    using lists_okD [OF reg_okD(2) [OF ok], of k]
    by (intro reg_ok_pool [OF ok]) (auto simp: pool_ok_def distinct_map_filter)
  have "1 \<le> n" using p(2) map_of_SomeD [OF Some] by auto
  then have "cap_ok (rg_pools (upd_pool k ?d r) k)"
    using drop_place_sum [OF p(1) Some] fairD [OF fa, of k]
    by (auto simp: fair_at_def cap_ok_def pool_size_def reserved_places_def)
  then have "fair (serve k (upd_pool k ?d r))"
    by (rule serve_fair [OF d]) (use fairD [OF fa] in \<open>simp add: fair_at_def\<close>)
  with Some show ?thesis by (simp add: unreserve_in_def)
qed

lemma unreserve_fair: "reg_ok R S X r \<Longrightarrow> fair r \<Longrightarrow> fair (unreserve s r)"
proof -
  have "reg_ok R S X r \<Longrightarrow> fair r \<Longrightarrow> fair (fold (unreserve_in s) ks r)" for ks
    by (induction ks arbitrary: r) (simp_all add: unreserve_in_ok unreserve_in_fair)
  then show "reg_ok R S X r \<Longrightarrow> fair r \<Longrightarrow> fair (unreserve s r)" by (simp add: unreserve_def)
qed

lemma takeOuts_fair:
  assumes f: "\<And>e r. f e r = takeOut e r \<or> f e r = takeOut e (stopIdle e r)"
    and "reg_ok R S {} r" "rg_closed r" "fair r" "\<forall>e \<in> set es. e < rg_next r"
  shows "fair (fold f es r)"
  using assms(2-5)
proof (induction es arbitrary: r)
  case Nil
  then show ?case by simp
next
  case (Cons e es)
  have e: "e < rg_next r" using Cons.prems(4) by simp
  note s = takeOuts_step [where f = f, OF Cons.prems(1,2) e f]
  have st: "reg_ok R S {e} (stopIdle e r)" "fair (stopIdle e r)"
    using Cons.prems(1) fair_upd_entry [OF Cons.prems(3) reg_okD(2) [OF Cons.prems(1)], of e "\<lambda>h. h\<lparr>en_idle := False\<rparr>"]
    unfolding stopIdle_def reg_ok_def entries_ok_def resting_def
    by (auto intro!: lists_ok_upd_entry simp: acq_failed_def)
  have "fair (takeOut e r)" "fair (takeOut e (stopIdle e r))"
    using takeOut_fair [OF Cons.prems(1,3) e] takeOut_fair [OF st] Cons.prems(2) e by (simp_all add: stopIdle_def)
  then have "fair (f e r)" using f [of e r] by auto
  moreover have "\<forall>x \<in> set es. x < rg_next (f e r)" using s Cons.prems(4) by auto
  ultimately show ?case using Cons.IH [of "f e r"] s by simp
qed

end
