(* ===== verification/MachineProps.thy ===== *)
theory MachineProps
  imports MachineFair
begin

text \<open>
  What a process's machines promise: a pool machine serves one job at a time, its counts are its users
  and nothing unused is left running, the cap and the queue of a pool. The last two properties tell when
  the cap holds and the run in which a check's machine breaks it.
\<close>

definition venue_step :: "venue \<Rightarrow> venue \<Rightarrow> bool" where
  "venue_step v v' \<longleftrightarrow> (\<exists>ev. vstep ev v v')"

interpretation process: invariant_system vinit venue_step venue_inv
  by unfold_locales (auto simp: venue_step_def intro: vinit_inv vstep_inv)

text \<open>A check claims a machine of a pool that has one already, or has room.\<close>

definition check_fits :: "venue \<Rightarrow> event \<Rightarrow> bool" where
  "check_fits v ev =
     (case ev of
        Claim s tag \<Rightarrow>
          (case lz_source (vn_scopes v ! s) tag of
             Some w \<Rightarrow>
               (lz_rides (vn_scopes v ! s) \<and> w_Exclusive w \<longrightarrow>
                  pl_members (rg_pools (pool_of (registryKey w) (w_Max w) (vn_reg v)) (registryKey w)) \<noteq> []
                  \<or> room (rg_pools (pool_of (registryKey w) (w_Max w) (vn_reg v)) (registryKey w)))
           | None \<Rightarrow> True)
      | _ \<Rightarrow> True)"

definition mild_step :: "venue \<Rightarrow> venue \<Rightarrow> bool" where
  "mild_step v v' \<longleftrightarrow> (\<exists>ev. check_fits v ev \<and> vstep ev v v')"

definition vfair :: "venue \<Rightarrow> bool" where
  "vfair v \<longleftrightarrow> venue_inv v \<and> fair (vn_reg v) \<and> (\<forall>l \<in> set (vn_scopes v). \<not> lz_own l)"

subsection \<open>Running a process\<close>

text \<open>The steps as a function of the state; an event that cannot happen is \<open>None\<close>.\<close>

definition vexec :: "event \<Rightarrow> venue \<Rightarrow> venue option" where
  "vexec ev v =
     (let at = (\<lambda>s f. if s < length (vn_scopes v) then f (vn_scopes v ! s) else None) in
      case ev of
        Claim s tag \<Rightarrow> at s (\<lambda>l. case lz_source l tag of
            Some w \<Rightarrow> if needsAcquisition w then Some (do_claim s tag w v) else None | None \<Rightarrow> None)
      | Receive s n tag key \<Rightarrow> at s (\<lambda>l. if (n, tag, key) \<in> set (lz_waits l) \<and> map_of (rg_handed (vn_reg v)) n \<noteq> None
            then Some (do_receive s n tag key v) else None)
      | Abort s n tag key \<Rightarrow> at s (\<lambda>l. if (n, tag, key) \<in> set (lz_waits l) then Some (do_abort s n tag key v) else None)
      | Resolve s tag m rel err ended \<Rightarrow> at s (\<lambda>l. case map_of (lz_held l) tag of
            Some e \<Rightarrow> Some (v\<lparr>vn_reg := resolve_lease m rel err ended e (vn_reg v)\<rparr>) | None \<Rightarrow> None)
      | Abandon s tag url dialed \<Rightarrow> at s (\<lambda>l. case (map_of (lz_held l) tag, lz_source l tag) of
            (Some e, Some w) \<Rightarrow> Some (do_abandon s tag url dialed e w v) | _ \<Rightarrow> None)
      | SetAside s tag \<Rightarrow> at s (\<lambda>l. Some (at_scope s (set_aside tag l (vn_reg v)) (vn_reg v) v))
      | Answer s tag \<Rightarrow> at s (\<lambda>l. Some (at_scope s (Answered tag l) (vn_reg v) v))
      | Release s \<Rightarrow> at s (\<lambda>l. Some (at_scope s (ReleaseAll l) (vn_reg v) v))
      | Drop s e \<Rightarrow> at s (\<lambda>l. if e \<in> set (lz_dropping l) then Some (do_drop s e v) else None)
      | Unreserve s \<Rightarrow> at s (\<lambda>l. if lz_ending l \<and> lz_dropping l = []
            then Some (at_scope s (l\<lparr>lz_ending := False\<rparr>) (unreserve s (vn_reg v)) v) else None)
      | Expire e gen \<Rightarrow> if e < rg_next (vn_reg v) then Some (go e (expire e gen (vn_reg v)) v) else None
      | Give e \<Rightarrow> if e \<in> set (vn_giving v) then Some (do_give e v) else None
      | GiveEnd e \<Rightarrow> if e \<in> set (vn_giving v) \<and> \<not> en_release (rg_entries (vn_reg v) e)
            then Some (v\<lparr>vn_reg := giveBack_end e (vn_reg v), vn_giving := remove1 e (vn_giving v)\<rparr>) else None
      | Close \<Rightarrow> if \<not> rg_closed (vn_reg v) then Some (do_close (close_registry (vn_reg v)) v) else None
      | CloseRest \<Rightarrow> if rg_closed (vn_reg v) then Some (do_close (giveBackHeld (vn_reg v)) v) else None)"

lemma vexec_vstep: "vexec ev v = Some v' \<Longrightarrow> vstep ev v v'"
  by (cases ev)
    (auto simp: vexec_def Let_def intro: vstep.intros split: if_splits option.splits)

fun run :: "event list \<Rightarrow> venue \<Rightarrow> venue" where
  "run [] v = v"
| "run (ev # evs) v = run evs (case vexec ev v of Some v' \<Rightarrow> v' | None \<Rightarrow> v)"

lemma run_reaches: "venue_step\<^sup>*\<^sup>* v (run evs v)"
proof (induction evs arbitrary: v)
  case Nil
  then show ?case by simp
next
  case (Cons ev evs)
  show ?case
  proof (cases "vexec ev v")
    case None
    with Cons show ?thesis by simp
  next
    case (Some v')
    then have "venue_step v v'" using vexec_vstep unfolding venue_step_def by blast
    with Cons.IH [of v'] Some show ?thesis by (simp add: converse_rtranclp_into_rtranclp)
  qed
qed

fun mild_run :: "event list \<Rightarrow> venue \<Rightarrow> bool" where
  "mild_run [] v \<longleftrightarrow> True"
| "mild_run (ev # evs) v \<longleftrightarrow> check_fits v ev \<and> mild_run evs (case vexec ev v of Some v' \<Rightarrow> v' | None \<Rightarrow> v)"

lemma mild_run_reaches: "mild_run evs v \<Longrightarrow> mild_step\<^sup>*\<^sup>* v (run evs v)"
proof (induction evs arbitrary: v)
  case Nil
  then show ?case by simp
next
  case (Cons ev evs)
  show ?case
  proof (cases "vexec ev v")
    case None
    with Cons show ?thesis by simp
  next
    case (Some v')
    then have "mild_step v v'" using vexec_vstep Cons.prems unfolding mild_step_def by auto
    with Cons Some show ?thesis by (simp add: converse_rtranclp_into_rtranclp)
  qed
qed

subsection \<open>Fair steps\<close>

lemma pool_take_fair:
  assumes ok: "reg_ok R S {} r" and fa: "fair r" and w: "0 \<le> w_Max w"
    and fits: "rides \<Longrightarrow> pl_members (rg_pools (pool_of (registryKey w) (w_Max w) r) (registryKey w)) \<noteq> []
      \<or> room (rg_pools (pool_of (registryKey w) (w_Max w) r) (registryKey w))"
  shows "fair (snd (pool_take s rides w r))"
  using take_ride_fair [OF lists_ok_pool_of [OF ok] fair_pool_of [OF fa w]] take_job_fair [OF lists_ok_pool_of [OF ok] fair_pool_of [OF fa w]] fits
  by (simp add: pool_take_def Let_def)

lemma hold_shared_fair:
  assumes ok: "reg_ok R S {} r" and fa: "fair r" and h: "hold_shared w r = (a, r')"
  shows "fair r'"
proof (cases "rg_current r (registryKey w)")
  case (Some e)
  then show ?thesis using h fa fair_count [OF fa reg_okD(2) [OF ok]] by (auto simp: hold_shared_def Let_def split: if_splits)
next
  case None
  let ?e = "rg_next r"
  let ?r1 = "r\<lparr>rg_entries := (rg_entries r)(?e := new_entry w (registryKey w) None), rg_next := Suc ?e,
                rg_current := (rg_current r)(registryKey w := Some ?e), rg_live := (rg_live r)(?e := True)\<rparr>"
  have "r' = count_hold ?e w None ?r1" using h None by (auto simp: hold_shared_def Let_def)
  then show ?thesis
    by (intro fair_frame [OF fa reg_okD(2) [OF ok]]) (auto simp: busier_def for_job_skips_def)
qed

lemma claimPool_fair:
  assumes ok: "reg_ok R S {} r" and fa: "fair r" and w: "0 \<le> w_Max w"
    and fits: "lz_rides l \<Longrightarrow> pl_members (rg_pools (pool_of (registryKey w) (w_Max w) r) (registryKey w)) \<noteq> []
      \<or> room (rg_pools (pool_of (registryKey w) (w_Max w) r) (registryKey w))"
    and c: "claimPool s tag w l r = (c, l', r')"
  shows "fair r'"
proof -
  have sh: "fair (snd (share e w s b r))" for e b
    using fa fair_count [OF fa reg_okD(2) [OF ok]] by (simp add: share_def)
  obtain t q where p: "pool_take s (lz_rides l) w r = (t, q)" by (cases "pool_take s (lz_rides l) w r")
  have "fair q" using pool_take_fair [where rides = "lz_rides l" and s = s, OF ok fa w fits] p by simp
  with sh fa c p show ?thesis by (auto simp: claimPool_def Let_def split: if_splits option.splits taken.splits)
qed

lemma claim_fair:
  assumes ok: "reg_ok R S {} r" and fa: "fair r" and w: "w_Exclusive w \<Longrightarrow> 0 \<le> w_Max w"
    and fits: "lz_rides l0 \<Longrightarrow> w_Exclusive w \<Longrightarrow> pl_members (rg_pools (pool_of (registryKey w) (w_Max w) r) (registryKey w)) \<noteq> []
      \<or> room (rg_pools (pool_of (registryKey w) (w_Max w) r) (registryKey w))"
    and c: "claim s tag w l0 r = (c, l', r')"
  shows "fair r'"
proof -
  let ?l = "set_aside tag l0 r"
  have a: "fair r'" if "w_Exclusive w" "claimPool s tag w ?l r = (c, l', r')"
    using claimPool_fair [OF ok fa w [OF that(1)] _ that(2)] fits that(1) by simp
  obtain h q where h: "hold_shared w r = (h, q)" by (cases "hold_shared w r")
  have "fair q" by (rule hold_shared_fair [OF ok fa h])
  with a fa c h show ?thesis
    by (auto simp: claim_def Let_def split: option.splits if_splits held_as.splits)
qed

lemma resolve_fair:
  assumes "lists_ok R r" "fair r"
  shows "fair (resolve_lease m rel err ended e r)"
  unfolding resolve_lease_def
  by (rule fair_upd_entry [OF assms(2,1)]) (simp_all add: acq_failed_def Let_def)

lemma giveBack_end_fair:
  assumes "reg_ok R S {} r" "fair r" "e < rg_next r"
  shows "fair (giveBack_end e r)"
proof -
  have f: "fair (forget e r)" by (rule forget_fair [OF assms])
  let ?l = "(forget e r)\<lparr>rg_live := (rg_live (forget e r))(e := False)\<rparr>"
  have "reg_ok R S {} ?l" by (rule reg_ok_same [OF forget_ok [OF assms(1,3)]]) simp_all
  moreover have "fair ?l" using f by (simp add: fair_def fair_at_def)
  ultimately have "fair (upd_entry e (\<lambda>h. h\<lparr>en_gone := Given\<rparr>) ?l)"
    by (intro fair_upd_entry [OF _ reg_okD(2)]) (simp_all add: acq_failed_def)
  then show ?thesis by (simp add: giveBack_end_def Let_def)
qed

lemma leave_fair:
  assumes "fair r" "leave n r = (a, r')"
  shows "fair r'"
proof -
  have "waits_ok h (p\<lparr>pl_waiters := remove1 n (pl_waiters p)\<rparr>)" if "waits_ok h p" for h p
    using that by (auto simp: waits_ok_def warmest_def room_def pool_size_def reserved_places_def)
  moreover have "cap_ok (p\<lparr>pl_waiters := ws\<rparr>) = cap_ok p" for p ws
    by (simp add: cap_ok_def pool_size_def reserved_places_def)
  ultimately have "fair_at (upd_pool (wt_pool n) (\<lambda>p. p\<lparr>pl_waiters := remove1 n (pl_waiters p)\<rparr>) r) (wt_pool n)"
    using fairD [OF assms(1), of "wt_pool n"] by (simp add: fair_at_def) blast
  then have "fair (upd_pool (wt_pool n) (\<lambda>p. p\<lparr>pl_waiters := remove1 n (pl_waiters p)\<rparr>) r)"
    by (rule fairI) (use fairD [OF assms(1)] in \<open>simp add: fair_at_def\<close>)
  then show ?thesis
    using assms by (auto simp: leave_def receive_handed_def fair_def fair_at_def split: if_splits option.splits)
qed

lemma at_scope_own: "(\<forall>l \<in> set (vn_scopes v). \<not> lz_own l) \<Longrightarrow> \<not> lz_own l \<Longrightarrow> \<forall>x \<in> set (vn_scopes (at_scope s l r v)). \<not> lz_own x"
  using set_update_subset_insert [of "vn_scopes v" s l] by auto

lemma claim_own: "claim s tag w l r = (c, l', r') \<Longrightarrow> lz_own l' = lz_own l"
  by (auto simp: claim_def claimPool_def Let_def split: option.splits if_splits held_as.splits taken.splits prod.splits)

lemma adopt_own: "lz_own (adopt n tag key got l) = lz_own l"
  by (simp add: adopt_def Let_def split: option.split)

lemma own_reg_step:
  assumes "vstep ev v v'" "vfair v" "check_fits v ev"
  shows "fair (vn_reg v') \<and> (\<forall>l \<in> set (vn_scopes v'). \<not> lz_own l)"
  using assms
proof (induction rule: vstep.induct)
  case (claim s v tag w)
  let ?l = "vn_scopes v ! s"
  obtain c l r where c: "claim s tag w ?l (vn_reg v) = (c, l, r)" by (cases "claim s tag w ?l (vn_reg v)")
  have inv: "venue_inv v" "fair (vn_reg v)" and own: "\<forall>l \<in> set (vn_scopes v). \<not> lz_own l"
    using claim.prems by (simp_all add: vfair_def)
  have "worker_ok w" using venue_invD(4) [OF inv(1) claim(1)] claim(2) by (simp add: scope_ok_def)
  then have "fair r"
    using claim.prems(2) claim(2) by (intro claim_fair [OF venue_invD(1) [OF inv(1)] inv(2) _ _ c]) (auto simp: worker_ok_def check_fits_def)
  moreover have "\<not> lz_own l" using claim_own [OF c] own claim(1) by simp
  ultimately show ?case using at_scope_own [OF own] by (simp add: do_claim_def c)
next
  case (receive s v n tag key)
  obtain got r where g: "receive_handed n (vn_reg v) = (got, r)" by (cases "receive_handed n (vn_reg v)")
  have "fair r" using receive.prems g by (auto simp: vfair_def fair_def fair_at_def receive_handed_def split: option.splits)
  with receive show ?case
    using at_scope_own [of v "adopt n tag key got (vn_scopes v ! s)" s r] by (simp add: do_receive_def g adopt_own vfair_def)
next
  case (abort s v n tag key)
  obtain got r where g: "leave n (vn_reg v) = (got, r)" by (cases "leave n (vn_reg v)")
  have "fair r" using abort.prems leave_fair [OF _ g] by (simp add: vfair_def)
  with abort show ?case
    using at_scope_own [of v "adopt n tag key got (vn_scopes v ! s)" s r] by (simp add: do_abort_def g adopt_own vfair_def)
next
  case (resolve s v tag e m rel err ended)
  then show ?case using resolve_fair [OF reg_okD(2) [OF venue_invD(1)]] by (auto simp: vfair_def)
next
  case (abandon s v tag e spelling url dialed)
  obtain b r where a: "abandonIf url dialed spelling e (vn_reg v) = (b, r)" by (cases "abandonIf url dialed spelling e (vn_reg v)")
  have inv: "venue_inv v" "fair (vn_reg v)" and own: "\<forall>l \<in> set (vn_scopes v). \<not> lz_own l"
    using abandon.prems by (simp_all add: vfair_def)
  note ok = venue_invD(1) [OF inv(1)]
  let ?f = "\<lambda>h. h\<lparr>en_acquired := False, en_machine := noWorker\<rparr>"
  have e: "e < rg_next (vn_reg v)"
    by (rule held_in_range [OF ok scope_uses_mem [OF abandon(1) held_holds [OF abandon(2)]]])
  have r: "r = vn_reg v \<or> (en_err (rg_entries (vn_reg v) e) = None \<and> r = upd_entry e ?f (vn_reg v))"
    using a by (auto simp: abandonIf_def Let_def split: if_splits)
  have okr: "reg_ok (rides_of v) (scope_uses (vn_scopes v)) {} r"
    using r ok reg_ok_quiet [OF ok, of ?f e] by auto
  have "fair r" "e < rg_next r"
    using r inv(2) e fair_upd_entry [OF inv(2) reg_okD(2) [OF ok], of e ?f] by (auto simp: acq_failed_def)
  then have "fair (if parked (rg_entries r e) then r else retire e r)" using retire_fair [OF okr] by simp
  moreover have "\<not> lz_own (Answered tag (vn_scopes v ! s))" using own abandon(1) by (simp add: Answered_def)
  ultimately show ?case using inv(2) own at_scope_own [OF own] by (cases b) (simp_all add: do_abandon_def a)
next
  case (aside s v tag)
  then show ?case
    using at_scope_own [of v "set_aside tag (vn_scopes v ! s) (vn_reg v)" s "vn_reg v"] by (simp add: vfair_def)
next
  case (answer s v tag)
  then show ?case
    using at_scope_own [of v "Answered tag (vn_scopes v ! s)" s "vn_reg v"] by (simp add: vfair_def Answered_def)
next
  case (release s v)
  then show ?case
    using at_scope_own [of v "ReleaseAll (vn_scopes v ! s)" s "vn_reg v"] by (simp add: vfair_def ReleaseAll_def)
next
  case (drop s v e)
  let ?old = "vn_scopes v ! s"
  let ?l = "?old\<lparr>lz_dropping := remove1 e (lz_dropping ?old)\<rparr>"
  have inv: "venue_inv v" "fair (vn_reg v)" and own: "\<forall>l \<in> set (vn_scopes v). \<not> lz_own l"
    using drop.prems by (simp_all add: vfair_def)
  have n: "\<not> lz_own ?old" using own drop(1) by simp
  obtain rest where rest: "scope_uses (vn_scopes v) = rest + uses_by s ?old"
    using scope_uses_split [OF drop(1)] by metis
  have "mset (lz_dropping ?old) = add_mset e (mset (remove1 e (lz_dropping ?old)))" using drop(2) by simp
  then have u: "uses_by s ?old = add_mset (s, e) (uses_by s ?l)"
    by (simp add: uses_by_def scope_holds_def del: mset_remove1)
  have "fair (snd (lease_drop False (rides_of v s) e (vn_reg v)))"
    using lease_drop_fair [of "rides_of v" s e "rest + uses_by s ?l" "vn_reg v"] venue_invD(1) [OF inv(1)] inv(2) rest u by simp
  moreover have "vn_reg (do_drop s e v) = snd (lease_drop False (rides_of v s) e (vn_reg v))"
    using n by (simp add: do_drop_def Let_def go_def rides_of_scope [OF drop(1)])
  moreover have "vn_scopes (do_drop s e v) = (vn_scopes v)[s := ?l]"
    by (simp add: do_drop_def Let_def go_def)
  moreover have "\<forall>x \<in> set ((vn_scopes v)[s := ?l]). \<not> lz_own x"
    using at_scope_own [OF own, of ?l s "vn_reg v"] n by simp
  ultimately show ?case by (simp only: simp_thms)
next
  case (unreserve s v)
  then show ?case
    using at_scope_own [of v "(vn_scopes v ! s)\<lparr>lz_ending := False\<rparr>" s "unreserve s (vn_reg v)"] unreserve_fair [OF venue_invD(1)]
    by (simp add: vfair_def)
next
  case (expire e v gen)
  then show ?case using expire_fair [OF venue_invD(1)] by (simp add: go_def vfair_def)
next
  case (give e v)
  then have "fair (upd_entry e (\<lambda>h. h\<lparr>en_release := False\<rparr>) (vn_reg v))"
    by (intro fair_upd_entry [OF _ reg_okD(2) [OF venue_invD(1)]]) (simp_all add: acq_failed_def vfair_def)
  with give show ?case by (simp add: do_give_def give_def vfair_def)
next
  case (give_end e v)
  have inv: "venue_inv v" using give_end.prems by (simp add: vfair_def)
  have "en_gone (rg_entries (vn_reg v) e) = Leaving" using venue_invD(2) [OF inv] give_end(1) by (simp add: giving_ok_def)
  then have "e < rg_next (vn_reg v)" using fresh_serving [OF venue_invD(1) [OF inv], of e] by (auto simp: not_le [symmetric])
  with give_end show ?case using giveBack_end_fair [OF venue_invD(1) [OF inv]] by (simp add: vfair_def)
next
  case (close v)
  let ?r = "(vn_reg v)\<lparr>rg_closed := True\<rparr>"
  have inv: "venue_inv v" "fair (vn_reg v)" using close.prems by (simp_all add: vfair_def)
  have "fair ?r" using inv(2) by (simp add: fair_def fair_at_def)
  then have "fair (fold (\<lambda>e r. takeOut e (stopIdle e r)) es ?r)" if "\<forall>e \<in> set es. e < rg_next ?r" for es
    using that by (intro takeOuts_fair [OF _ reg_ok_close [OF venue_invD(1) [OF inv(1)]]]) simp_all
  with close show ?case by (simp add: do_close_def close_registry_def Let_def vfair_def)
next
  case (close_rest v)
  have inv: "venue_inv v" "fair (vn_reg v)" using close_rest.prems by (simp_all add: vfair_def)
  have "fair (fold takeOut es (vn_reg v))" if "\<forall>e \<in> set es. e < rg_next (vn_reg v)" for es
    using that inv close_rest(1) by (intro takeOuts_fair [OF _ venue_invD(1) [OF inv(1)]]) simp_all
  with close_rest show ?case by (simp add: do_close_def giveBackHeld_def Let_def vfair_def)
qed

lemma fair_start:
  assumes "vinit v" "\<forall>l \<in> set (vn_scopes v). \<not> lz_own l"
  shows "vfair v"
proof -
  have "fair NewRegistryWith"
    by (simp add: fair_def fair_at_def cap_ok_def waits_ok_def NewRegistryWith_def new_pool_def)
  then show ?thesis using assms vinit_inv [OF assms(1)] by (simp add: vfair_def vinit_def)
qed

definition shared_start :: "venue \<Rightarrow> bool" where
  "shared_start v \<longleftrightarrow> vinit v \<and> (\<forall>l \<in> set (vn_scopes v). \<not> lz_own l)"

interpretation mild: invariant_system shared_start mild_step vfair
proof
  show "vfair v" if "shared_start v" for v using that fair_start by (simp add: shared_start_def)
  show "vfair v'" if "mild_step v v'" "vfair v" for v v'
    using that own_reg_step vstep_inv unfolding mild_step_def vfair_def by blast
qed

subsection \<open>A small process\<close>

text \<open>A launch mapping of one machine at a time, two jobs and a check, and an acquirer that answers with
  an instance.\<close>

definition sole :: worker where
  "sole = noWorker\<lparr>w_URL := ''aws://launch/lt?exclusive&max=1'', w_Scheme := ''aws'', w_Rung := RungLaunch,
     w_Template := ''lt'', w_Exclusive := True, w_Max := 1\<rparr>"

definition mapping :: "string \<Rightarrow> worker option" where
  "mapping tag = (if tag = ''big'' then Some sole else None)"

definition two_jobs :: venue where
  "two_jobs = \<lparr>vn_reg = NewRegistryWith,
     vn_scopes = [Leases False False mapping, Leases False True mapping, Leases False False mapping],
     vn_giving = [], vn_released = []\<rparr>"

definition instance_of :: "string \<Rightarrow> worker" where
  "instance_of i = asStatic [] sole i"

lemma two_jobs_init: "vinit two_jobs" "shared_start two_jobs"
  by (auto simp: vinit_def shared_start_def two_jobs_def Leases_def mapping_def sole_def worker_ok_def)

lemma two_jobs_reaches: "venue_step\<^sup>*\<^sup>* two_jobs (run evs two_jobs)"
  by (rule run_reaches)

text \<open>Runs are evaluated by the simplifier, the registry key left as it is.\<close>

lemma sole_simps:
  "w_Exclusive sole" "w_Rung sole = RungLaunch" "w_Max sole = 1" "w_Idle sole = 0" "needsAcquisition sole"
  by (simp_all add: sole_def noWorker_def needsAcquisition_def)

lemma mapping_simps: "mapping ''big'' = Some sole" by (simp add: mapping_def)

lemma instance_same: "SameMachine (dialOf [] sole (instance_of ''i-1'')) (instance_of ''i-1'')"
  by (simp add: SameMachine_def dialKey_def dialOf_def sole_def instance_of_def asStatic_def noWorker_def)

lemmas machine_eval = sole_simps mapping_simps instance_same vexec_def Let_def two_jobs_def Leases_def do_claim_def claim_def set_aside_def
  claimPool_def claiming_def pool_take_def pool_of_def take_ride_def take_job_def takeReserved_def warmest_def
  for_job_skips_def acq_failed_def room_def pool_size_def reserved_places_def pool_member_def count_hold_def stopIdle_def
  hold_as_def unheld_def enqueue_def share_def at_scope_def do_abandon_def abandonIf_def parked_def retire_def reserveFor_def
  forget_def leavePool_def serve_def reserve_place_def set_place_def resolve_lease_def Answered_def NewRegistryWith_def new_pool_def
  do_drop_def go_def lease_drop_def letGo_def holding_def takeOut_def ReleaseAll_def do_give_def give_def giveBack_end_def
  upd_entry_def upd_pool_def new_entry_def counted_def scope_holds_def

subsection \<open>Properties\<close>

text \<open>C35: a pool machine serves one job at a time: in every reachable state, two scopes that do not ride
  along and hold the same machine of an exclusive pool are the same job.\<close>

theorem one_job_per_machine:
  assumes "vinit v0" "venue_step\<^sup>*\<^sup>* v0 v"
    and "s < length (vn_scopes v)" "\<not> lz_rides (vn_scopes v ! s)" "e \<in> set (scope_holds (vn_scopes v ! s))"
    and "t < length (vn_scopes v)" "\<not> lz_rides (vn_scopes v ! t)" "e \<in> set (scope_holds (vn_scopes v ! t))"
    and "en_pool (rg_entries (vn_reg v) e) \<noteq> None"
  shows "s = t"
proof -
  have inv: "venue_inv v" by (rule process.reachable_inv [OF assms(1,2)])
  note en = reg_okD(1) [OF venue_invD(1) [OF inv]]
  have "en_holder (rg_entries (vn_reg v) e) = Some s"
    using holderD [OF en, of s e] scope_uses_mem [OF assms(3,5)] assms(3,4,9) by (simp add: rides_of_def)
  moreover have "en_holder (rg_entries (vn_reg v) e) = Some t"
    using holderD [OF en, of t e] scope_uses_mem [OF assms(6,8)] assms(6,7,9) by (simp add: rides_of_def)
  ultimately show ?thesis by simp
qed

theorem one_job_per_machine_witness:
  "0 \<in> set (scope_holds (vn_scopes (run [Claim 0 ''big'', Claim 2 ''big''] two_jobs) ! 0)) \<and> (0 :: nat) = 0"
proof -
  let ?v = "run [Claim 0 ''big'', Claim 2 ''big''] two_jobs"
  have h: "0 < length (vn_scopes ?v)" "\<not> lz_rides (vn_scopes ?v ! 0)" "0 \<in> set (scope_holds (vn_scopes ?v ! 0))"
    "en_pool (rg_entries (vn_reg ?v) 0) \<noteq> None"
    by (simp_all add: machine_eval)
  show ?thesis
    using one_job_per_machine [OF two_jobs_init(1) two_jobs_reaches h(1-3) h(1-3) h(4)] h(3) by blast
qed




text \<open>C37: the cap and the queue: in every state a shared registry reaches by steps in which no check
  launches a machine into a pool whose places are all kept, a capped pool's members and kept places are
  at most its \<^verbatim>\<open>?max=\<close>, and, until the process closes, a job waits only while no machine is free
  for it and there is no room.\<close>

theorem cap_and_queue_hold:
  assumes "shared_start v0" "mild_step\<^sup>*\<^sup>* v0 v"
  shows "(pl_max (rg_pools (vn_reg v) k) \<noteq> 0
      \<longrightarrow> int (length (pl_members (rg_pools (vn_reg v) k))) + reserved_places (rg_pools (vn_reg v) k) \<le> pl_max (rg_pools (vn_reg v) k))
    \<and> (\<not> rg_closed (vn_reg v) \<longrightarrow> pl_waiters (rg_pools (vn_reg v) k) \<noteq> []
      \<longrightarrow> warmest (rg_entries (vn_reg v)) True (rg_pools (vn_reg v) k) = None \<and> \<not> room (rg_pools (vn_reg v) k))"
proof -
  have "vfair v" by (rule mild.reachable_inv [OF assms])
  then have "fair_at (vn_reg v) k" unfolding vfair_def by (blast intro: fairD)
  then show ?thesis by (auto simp: fair_at_def cap_ok_def waits_ok_def pool_size_def)
qed

theorem cap_and_queue_hold_witness:
  "length (pl_waiters (rg_pools (vn_reg (run [Claim 0 ''big'', Claim 2 ''big''] two_jobs)) (registryKey sole))) = 1
   \<and> \<not> room (rg_pools (vn_reg (run [Claim 0 ''big'', Claim 2 ''big''] two_jobs)) (registryKey sole))"
proof -
  let ?evs = "[Claim 0 ''big'', Claim 2 ''big'']"
  have m: "mild_run ?evs two_jobs" by (simp add: machine_eval check_fits_def)
  have c: "\<not> rg_closed (vn_reg (run ?evs two_jobs))"
    "length (pl_waiters (rg_pools (vn_reg (run ?evs two_jobs)) (registryKey sole))) = 1"
    by (simp_all add: machine_eval)
  then have "pl_waiters (rg_pools (vn_reg (run ?evs two_jobs)) (registryKey sole)) \<noteq> []" by (metis length_0_conv zero_neq_one)
  then show ?thesis
    using cap_and_queue_hold [OF two_jobs_init(2) mild_run_reaches [OF m], of "registryKey sole"] c by blast
qed



text \<open>Waiters are served in the order they came: serving hands machines to a prefix of the queue.\<close>

lemma serve_in_order:
  "\<exists>n. map fst (rg_handed (serve k r)) = map fst (rg_handed r) @ take n (pl_waiters (rg_pools r k))
     \<and> pl_waiters (rg_pools (serve k r) k) = List.drop n (pl_waiters (rg_pools r k))"
proof -
  have "pl_waiters (rg_pools r k) = ws \<Longrightarrow>
      \<exists>n. map fst (rg_handed (serve_loop k ws r)) = map fst (rg_handed r) @ take n ws
        \<and> pl_waiters (rg_pools (serve_loop k ws r) k) = List.drop n ws" for ws
  proof (induction ws arbitrary: r)
    case Nil
    then show ?case by simp
  next
    case (Cons w rest)
    let ?free = "warmest (rg_entries r) True (rg_pools r k)"
    show ?case
    proof (cases "rg_closed r \<or> (?free = None \<and> \<not> room (rg_pools r k))")
      case True
      then have "serve_loop k (w # rest) r = r" by (auto simp: Let_def)
      then show ?thesis using Cons.prems by (intro exI [of _ 0]) simp
    next
      case False
      obtain e r1 where e: "(e, r1) = (case ?free of Some e \<Rightarrow> (e, r) | None \<Rightarrow> pool_member k (wt_worker w) r)"
        by (metis surj_pair)
      let ?r' = "count_hold e (wt_worker w) (Some (wt_scope w)) (upd_pool k (\<lambda>p. p\<lparr>pl_waiters := rest\<rparr>) r1)"
      let ?r'' = "?r'\<lparr>rg_handed := rg_handed ?r' @ [(w, e)]\<rparr>"
      have h: "rg_handed r1 = rg_handed r" using e by (cases ?free) (auto simp: prod_eq_iff)
      have eq: "serve_loop k (w # rest) r = serve_loop k rest ?r''"
        using False by (auto simp: Let_def e [symmetric] simp del: not_None_eq)
      obtain n where "map fst (rg_handed (serve_loop k rest ?r'')) = map fst (rg_handed ?r'') @ take n rest"
        "pl_waiters (rg_pools (serve_loop k rest ?r'') k) = List.drop n rest"
        using Cons.IH [of ?r''] by auto
      then show ?thesis unfolding eq by (intro exI [of _ "Suc n"]) (simp add: h)
    qed
  qed
  then show ?thesis by (simp add: serve_def)
qed

end
