(* ===== verification/EditFile.thy ===== *)
theory EditFile
  imports Complex_Main "HOL-Library.Sublist" Prelude
begin

text \<open>
  The matching engine of the agent's \<^verbatim>\<open>edit_file\<close> tool
  (\<^verbatim>\<open>internal/agent/editfile.go\<close>): the chain of matching strategies, the guard against
  disproportionate matches, the edit distance that judges a block, and the tool around it. Strings are
  byte sequences, as Go's are; the pieces of \<^verbatim>\<open>strings\<close> and of UTF-8 the code uses are
  written out, and \<^verbatim>\<open>float64\<close> values are rationals rounded to 53 bits after every operation.
\<close>

subsection \<open>strings\<close>

fun Index :: "string \<Rightarrow> string \<Rightarrow> nat option" where
  "Index [] p = (if p = [] then Some 0 else None)"
| "Index (c # cs) p = (if prefix p (c # cs) then Some 0 else map_option Suc (Index cs p))"

fun LastIndex :: "string \<Rightarrow> string \<Rightarrow> nat option" where
  "LastIndex [] p = (if p = [] then Some 0 else None)"
| "LastIndex (c # cs) p =
     (case LastIndex cs p of Some n \<Rightarrow> Some (Suc n) | None \<Rightarrow> if prefix p (c # cs) then Some 0 else None)"

text \<open>The length of the rune a string starts with: an invalid byte is a rune of its own.\<close>

definition second_range :: "nat \<Rightarrow> nat \<times> nat" where
  "second_range b0 =
     (if b0 = 0xE0 then (0xA0, 0xBF) else if b0 = 0xED then (0x80, 0x9F)
      else if b0 = 0xF0 then (0x90, 0xBF) else if b0 = 0xF4 then (0x80, 0x8F) else (0x80, 0xBF))"

definition rune_width :: "nat \<Rightarrow> nat" where
  "rune_width b0 =
     (if 0xC2 \<le> b0 \<and> b0 \<le> 0xDF then 2 else if 0xE0 \<le> b0 \<and> b0 \<le> 0xEF then 3
      else if 0xF0 \<le> b0 \<and> b0 \<le> 0xF4 then 4 else 1)"

definition rune_size :: "string \<Rightarrow> nat" where
  "rune_size s =
     (case map of_char s of
        [] \<Rightarrow> 1
      | b0 # bs \<Rightarrow>
          let n = rune_width b0; (lo, hi) = second_range b0; rest = take (n - 1) bs
          in if length rest = n - 1 \<and> (rest \<noteq> [] \<longrightarrow> lo \<le> hd rest \<and> hd rest \<le> hi)
                \<and> list_all (\<lambda>b. 0x80 \<le> b \<and> b \<le> (0xBF :: nat)) (tl rest)
             then n else 1)"

lemma rune_size_pos: "0 < rune_size s"
  by (simp add: rune_size_def Let_def rune_width_def split: list.split prod.split)

function RuneCount :: "string \<Rightarrow> nat" where
  "RuneCount [] = 0"
| "RuneCount (c # cs) = 1 + RuneCount (drop (rune_size (c # cs)) (c # cs))"
  by pat_completeness auto
termination
  using rune_size_pos by (relation "measure length") auto

function count_from :: "string \<Rightarrow> string \<Rightarrow> nat" where
  "count_from p [] = 0"
| "count_from p (c # cs) =
     (if p \<noteq> [] \<and> prefix p (c # cs) then 1 + count_from p (drop (length p) (c # cs)) else count_from p cs)"
  by pat_completeness auto
termination
  by (relation "measure (\<lambda>(p, s). length s)") (auto simp: less_eq_Suc_le [symmetric] diff_less_Suc)

definition Count :: "string \<Rightarrow> string \<Rightarrow> nat" where
  "Count s p = (if p = [] then RuneCount s + 1 else count_from p s)"

fun split_lines :: "string \<Rightarrow> string list" where
  "split_lines [] = [[]]"
| "split_lines (c # cs) =
     (if c = CHR 0x0A then [] # split_lines cs
      else case split_lines cs of [] \<Rightarrow> [[c]] | l # ls \<Rightarrow> (c # l) # ls)"

fun join_lines :: "string list \<Rightarrow> string" where
  "join_lines [] = []"
| "join_lines [l] = l"
| "join_lines (l # ls) = l @ CHR 0x0A # join_lines ls"

text \<open>\<^verbatim>\<open>strings.TrimSpace\<close>: the encodings of the Unicode space characters, stripped off both
  ends. \<^verbatim>\<open>DecodeLastRune\<close> reads a suffix that is one of them as that rune.\<close>

definition space_seqs :: "string list" where
  "space_seqs =
     [[CHR 0x09], [CHR 0x0A], [CHR 0x0B], [CHR 0x0C], [CHR 0x0D], [CHR 0x20],
      [CHR 0xC2, CHR 0x85], [CHR 0xC2, CHR 0xA0], [CHR 0xE1, CHR 0x9A, CHR 0x80],
      [CHR 0xE2, CHR 0x80, CHR 0x80], [CHR 0xE2, CHR 0x80, CHR 0x81], [CHR 0xE2, CHR 0x80, CHR 0x82],
      [CHR 0xE2, CHR 0x80, CHR 0x83], [CHR 0xE2, CHR 0x80, CHR 0x84], [CHR 0xE2, CHR 0x80, CHR 0x85],
      [CHR 0xE2, CHR 0x80, CHR 0x86], [CHR 0xE2, CHR 0x80, CHR 0x87], [CHR 0xE2, CHR 0x80, CHR 0x88],
      [CHR 0xE2, CHR 0x80, CHR 0x89], [CHR 0xE2, CHR 0x80, CHR 0x8A], [CHR 0xE2, CHR 0x80, CHR 0xA8],
      [CHR 0xE2, CHR 0x80, CHR 0xA9], [CHR 0xE2, CHR 0x80, CHR 0xAF], [CHR 0xE2, CHR 0x81, CHR 0x9F],
      [CHR 0xE3, CHR 0x80, CHR 0x80]]"

function strip :: "string list \<Rightarrow> string \<Rightarrow> string" where
  "strip seqs s =
     (case find (\<lambda>q. q \<noteq> [] \<and> prefix q s) seqs of
        None \<Rightarrow> s
      | Some q \<Rightarrow> strip seqs (drop (length q) s))"
  by pat_completeness auto
termination
  by (relation "measure (\<lambda>(seqs, s). length s)")
    (auto simp: find_Some_iff prefix_def)

declare strip.simps [simp del]

definition TrimSpace :: "string \<Rightarrow> string" where
  "TrimSpace s = rev (strip (map rev space_seqs) (rev (strip space_seqs s)))"

text \<open>
  \<^verbatim>\<open>NewReplacer\<close> with one replacement for every pattern: at each place the first pattern in
  argument order that starts there, the empty one not twice at a place.
\<close>

function replace_all :: "string list \<Rightarrow> string \<Rightarrow> bool \<Rightarrow> string \<Rightarrow> string" where
  "replace_all ps new was_empty s =
     (case find (\<lambda>p. prefix p s \<and> \<not> (was_empty \<and> p = [])) ps of
        Some p \<Rightarrow> new @ replace_all ps new (p = []) (drop (length p) s)
      | None \<Rightarrow> (case s of [] \<Rightarrow> [] | c # cs \<Rightarrow> c # replace_all ps new False cs))"
  by pat_completeness auto
termination
  by (relation "measure (\<lambda>(ps, new, e, s). 2 * length s + (if e then 0 else 1))")
    (auto simp: find_Some_iff prefix_def neq_Nil_conv)

declare replace_all.simps [simp del]

subsection \<open>float64\<close>

definition pow2 :: "int \<Rightarrow> rat" where
  "pow2 k = (if 0 \<le> k then 2 ^ nat k else 1 / 2 ^ nat (- k))"

fun bit_len :: "nat \<Rightarrow> nat" where
  "bit_len n = (if n = 0 then 0 else Suc (bit_len (n div 2)))"

declare bit_len.simps [simp del]

text \<open>Rounding a value of \<open>[0, 2)\<close> to the nearest \<^verbatim>\<open>float64\<close>, ties to even.\<close>

definition round64 :: "rat \<Rightarrow> rat" where
  "round64 q =
     (if q \<le> 0 then q
      else let (n, d) = quotient_of q;
               e0 = int (bit_len (nat n)) - int (bit_len (nat d));
               e = (if q < pow2 e0 then e0 - 1 else e0);
               m = q * pow2 (52 - e); r = \<lfloor>m\<rfloor>; f = m - of_int r;
               r' = (if f < 1 / 2 \<or> (f = 1 / 2 \<and> even r) then r else r + 1)
           in of_int r' / pow2 (52 - e))"

definition fdiv :: "rat \<Rightarrow> rat \<Rightarrow> rat" where
  "fdiv a b = round64 (a / b)"

subsection \<open>Edit distance\<close>

text \<open>One row of the table from the row before: \<open>left\<close> is the cell last written.\<close>

fun lev_cells :: "char \<Rightarrow> string \<Rightarrow> nat list \<Rightarrow> nat \<Rightarrow> nat list" where
  "lev_cells x (y # ys) (p0 # p1 # ps) left =
     (let c = min (min (left + 1) (p1 + 1)) (p0 + (if x \<noteq> y then 1 else 0))
      in c # lev_cells x ys (p1 # ps) c)"
| "lev_cells x _ _ left = []"

definition lev_row :: "nat \<Rightarrow> char \<Rightarrow> string \<Rightarrow> nat list \<Rightarrow> nat list" where
  "lev_row i x b previous = i # lev_cells x b previous i"

fun lev_rows :: "nat \<Rightarrow> string \<Rightarrow> string \<Rightarrow> nat list \<Rightarrow> nat list" where
  "lev_rows i [] b previous = previous"
| "lev_rows i (x # xs) b previous = lev_rows (Suc i) xs b (lev_row i x b previous)"

definition levenshtein :: "string \<Rightarrow> string \<Rightarrow> nat" where
  "levenshtein a b = lev_rows 1 a b [0..<length b + 1] ! length b"

definition maxLevenshteinProduct :: int where
  "maxLevenshteinProduct = 2 ^ 20"

definition lineSimilarity :: "string \<Rightarrow> string \<Rightarrow> rat" where
  "lineSimilarity a b =
     (if a = b then 1
      else let longest = max (length a) (length b)
           in if longest = 0 then 1
              else if int (length a * length b) > maxLevenshteinProduct then 0
              else round64 (1 - fdiv (of_nat (levenshtein a b)) (of_nat longest)))"

subsection \<open>Strategies\<close>

definition exactSpans :: "string \<Rightarrow> string \<Rightarrow> string list" where
  "exactSpans content old = [old]"

definition dropTrailingEmptyLine :: "string list \<Rightarrow> string list" where
  "dropTrailingEmptyLine ls = (if ls \<noteq> [] \<and> last ls = [] then butlast ls else ls)"

definition lineTrimmedSpans :: "string \<Rightarrow> string \<Rightarrow> string list" where
  "lineTrimmedSpans content old =
     (let original = split_lines content; search = dropTrailingEmptyLine (split_lines old); n = length search
      in map (\<lambda>i. join_lines (take n (drop i original)))
           (filter (\<lambda>i. list_all (\<lambda>j. TrimSpace (original ! (i + j)) = TrimSpace (search ! j)) [0..<n])
              [0..<length original + 1 - n]))"

definition maxLineDelta :: "nat \<Rightarrow> int" where
  "maxLineDelta n = max 1 (int (n div 4))"

text \<open>The first closing anchor from line \<open>j\<close> on.\<close>

definition closing_anchor :: "string list \<Rightarrow> string \<Rightarrow> nat \<Rightarrow> nat option" where
  "closing_anchor original lastAnchor j =
     find (\<lambda>j. TrimSpace (original ! j) = lastAnchor) [j..<length original]"

definition blockAnchorCandidates :: "string list \<Rightarrow> string list \<Rightarrow> (nat \<times> nat) list" where
  "blockAnchorCandidates original search =
     (let firstAnchor = TrimSpace (search ! 0); lastAnchor = TrimSpace (search ! (length search - 1));
          n = int (length search)
      in concat (map (\<lambda>i.
           if TrimSpace (original ! i) \<noteq> firstAnchor then []
           else case closing_anchor original lastAnchor (i + 2) of
                  None \<Rightarrow> []
                | Some j \<Rightarrow>
                    let actual = int (j - i + 1)
                    in if actual - n \<le> maxLineDelta (length search) \<and> n - actual \<le> maxLineDelta (length search)
                       then [(i, j)] else []) [0..<length original]))"

definition anchorSimilarity :: "string list \<Rightarrow> string list \<Rightarrow> nat \<times> nat \<Rightarrow> rat" where
  "anchorSimilarity original search c =
     (let actual = int (snd c - fst c + 1);
          n = min (int (length search) - 2) (actual - 2)
      in if n \<le> 0 then 1
         else fold (\<lambda>j total. round64 (total
                + fdiv (lineSimilarity (TrimSpace (original ! (fst c + j))) (TrimSpace (search ! j))) (of_int n)))
              [1..<nat n + 1] 0)"

definition similarity_threshold :: rat where
  "similarity_threshold = round64 (65 / 100)"

fun best_candidate :: "((nat \<times> nat) \<Rightarrow> rat) \<Rightarrow> rat \<times> (nat \<times> nat) \<Rightarrow> (nat \<times> nat) list \<Rightarrow> rat \<times> (nat \<times> nat)" where
  "best_candidate sim best [] = best"
| "best_candidate sim best (c # cs) = best_candidate sim (if sim c > fst best then (sim c, c) else best) cs"

definition anchor_span :: "string list \<Rightarrow> nat \<times> nat \<Rightarrow> string" where
  "anchor_span original c = join_lines (take (snd c + 1 - fst c) (drop (fst c) original))"

definition blockAnchorSpans :: "string \<Rightarrow> string \<Rightarrow> string list" where
  "blockAnchorSpans content old =
     (let search = dropTrailingEmptyLine (split_lines old) in
      if length search < 3 then []
      else let original = split_lines content; candidates = blockAnchorCandidates original search in
        case candidates of
          [] \<Rightarrow> []
        | [c] \<Rightarrow> if anchorSimilarity original search c \<ge> similarity_threshold then [anchor_span original c] else []
        | _ \<Rightarrow> let (best, c) = best_candidate (anchorSimilarity original search) (-1, (0, 0)) candidates
              in if best \<ge> similarity_threshold then [anchor_span original c] else [])"

definition isDisproportionateMatch :: "string \<Rightarrow> string \<Rightarrow> bool" where
  "isDisproportionateMatch sp old =
     (let oldLines = Count old [CHR 0x0A] + 1; spanLines = Count sp [CHR 0x0A] + 1
      in if spanLines \<ge> max (oldLines + 3) (oldLines * 2) then True
         else if oldLines = 1 then False
         else let spanTrimmed = length (TrimSpace sp); findTrimmed = length (TrimSpace old)
              in spanTrimmed > max (findTrimmed + 500) (findTrimmed * 4))"

subsection \<open>The chain\<close>

datatype edit_error = EditNotFound | EditDisproportionate | EditAmbiguous nat

record edit_outcome =
  eo_updated :: string
  eo_index :: nat
  eo_replacements :: nat
  eo_mode :: string

type_synonym replacer = "string \<times> (string \<Rightarrow> string \<Rightarrow> string list)"

definition editReplacers :: "replacer list" where
  "editReplacers = [(''exact'', exactSpans), (''line-trimmed'', lineTrimmedSpans), (''block-anchor'', blockAnchorSpans)]"

fun distinct_from :: "string \<Rightarrow> string \<Rightarrow> string list \<Rightarrow> string list \<Rightarrow> edit_error + string list" where
  "distinct_from content old seen [] = Inr (rev seen)"
| "distinct_from content old seen (sp # rest) =
     (if sp \<in> set seen \<or> Index content sp = None then distinct_from content old seen rest
      else if isDisproportionateMatch sp old then Inl EditDisproportionate
      else distinct_from content old (sp # seen) rest)"

definition distinctSpans :: "replacer \<Rightarrow> string \<Rightarrow> string \<Rightarrow> edit_error + string list" where
  "distinctSpans r content old = distinct_from content old [] (snd r content old)"

definition replaceEverySpan :: "string \<Rightarrow> string \<Rightarrow> string \<Rightarrow> string list \<Rightarrow> edit_outcome" where
  "replaceEverySpan content new mode spans =
     \<lparr>eo_updated = replace_all spans new False content,
      eo_index = fold (\<lambda>sp first. min first (case Index content sp of Some i \<Rightarrow> i | None \<Rightarrow> first)) spans (length content),
      eo_replacements = sum_list (map (Count content) spans), eo_mode = mode\<rparr>"

fun replace_chain :: "replacer list \<Rightarrow> string \<Rightarrow> string \<Rightarrow> string \<Rightarrow> bool \<Rightarrow> edit_error + edit_outcome" where
  "replace_chain [] content old new all = Inl EditNotFound"
| "replace_chain (r # rs) content old new all =
     (case distinctSpans r content old of
        Inl e \<Rightarrow> Inl e
      | Inr [] \<Rightarrow> replace_chain rs content old new all
      | Inr (sp # sps) \<Rightarrow>
          if all then Inr (replaceEverySpan content new (fst r) (sp # sps))
          else let index = the (Index content sp)
               in if sps \<noteq> [] \<or> Index content sp \<noteq> LastIndex content sp
                  then Inl (EditAmbiguous (sum_list (map (Count content) (sp # sps))))
                  else Inr \<lparr>eo_updated = take index content @ new @ drop (index + length sp) content,
                            eo_index = index, eo_replacements = 1, eo_mode = fst r\<rparr>)"

definition replaceEditSpan :: "string \<Rightarrow> string \<Rightarrow> string \<Rightarrow> bool \<Rightarrow> edit_error + edit_outcome" where
  "replaceEditSpan content old new all = replace_chain editReplacers content old new all"

subsection \<open>The tool\<close>

text \<open>
  The workspace's answers are arguments: the path \<^verbatim>\<open>ResolveWrite\<close> allows or its refusal, what
  \<^verbatim>\<open>Stat\<close> finds there, the bytes read and whether the write fails. A result is the value the
  model sees; the text written is beside it.
\<close>

datatype stat_answer = StatMissing | StatFailed string | StatDir | StatFile int

datatype edit_result =
    NoPath | NoOld | NoNew | NothingToDo | Refused string | NotThere | IsDirectory | TooBig int
  | NotFound | Ambiguous nat | Disproportionate
  | Edited string nat nat string

definition maxEditFileBytes :: int where
  "maxEditFileBytes = 10 * 2 ^ 20"

definition readEditTarget :: "stat_answer \<Rightarrow> string + string \<Rightarrow> edit_result + string" where
  "readEditTarget st bytes =
     (case st of
        StatMissing \<Rightarrow> Inl NotThere
      | StatFailed e \<Rightarrow> Inl (Refused e)
      | StatDir \<Rightarrow> Inl IsDirectory
      | StatFile n \<Rightarrow>
          if n > maxEditFileBytes then Inl (TooBig n)
          else case bytes of Inl e \<Rightarrow> Inl (Refused e) | Inr data \<Rightarrow> Inr data)"

definition editFailureAdvice :: "edit_error \<Rightarrow> edit_result" where
  "editFailureAdvice e =
     (case e of EditNotFound \<Rightarrow> NotFound | EditAmbiguous n \<Rightarrow> Ambiguous n | EditDisproportionate \<Rightarrow> Disproportionate)"

definition applyEdit :: "stat_answer \<Rightarrow> string + string \<Rightarrow> string option \<Rightarrow> string \<Rightarrow> string \<Rightarrow> string \<Rightarrow> bool
    \<Rightarrow> edit_result \<times> string option" where
  "applyEdit st bytes write_fails rel old new all =
     (case readEditTarget st bytes of
        Inl e \<Rightarrow> (e, None)
      | Inr content \<Rightarrow>
          (case replaceEditSpan content old new all of
             Inl e \<Rightarrow> (editFailureAdvice e, None)
           | Inr out \<Rightarrow>
               (case write_fails of
                  Some e \<Rightarrow> (Refused e, None)
                | None \<Rightarrow> (Edited rel (eo_replacements out) (1 + Count (take (eo_index out) content) [CHR 0x0A]) (eo_mode out),
                          Some (eo_updated out)))))"

definition execEditFile :: "(string \<Rightarrow> string + string) \<Rightarrow> (string \<Rightarrow> stat_answer) \<Rightarrow> (string \<Rightarrow> string + string) \<Rightarrow> string option
    \<Rightarrow> string \<Rightarrow> string \<Rightarrow> string option \<Rightarrow> bool \<Rightarrow> edit_result \<times> string option" where
  "execEditFile resolve stat read write_fails path old new all =
     (if path = [] then (NoPath, None)
      else if old = [] then (NoOld, None)
      else case new of
             None \<Rightarrow> (NoNew, None)
           | Some n \<Rightarrow>
               if old = n then (NothingToDo, None)
               else case resolve path of
                      Inl e \<Rightarrow> (Refused e, None)
                    | Inr resolved \<Rightarrow> applyEdit (stat resolved) (read resolved) write_fails path old n all)"

end
