(* ===== verification/EditProps.thy ===== *)
theory EditProps
  imports EditFile
begin

text \<open>
  What the edit tool promises: its table is the least number of single-character edits, and an edit
  that succeeds replaces the one occurrence of the span it found and nothing else.
\<close>

subsection \<open>Edit distance\<close>

text \<open>The specification: one insertion, deletion or substitution anywhere.\<close>

inductive one_edit :: "'a list \<Rightarrow> 'a list \<Rightarrow> bool" where
  insert_char: "one_edit (p @ q) (p @ c # q)"
| delete_char: "one_edit (p @ c # q) (p @ q)"
| change_char: "one_edit (p @ c # q) (p @ d # q)"

text \<open>The recursion the table computes, on the reversed prefixes.\<close>

fun ed :: "'a list \<Rightarrow> 'a list \<Rightarrow> nat" where
  "ed [] ys = length ys"
| "ed (x # xs) [] = Suc (length xs)"
| "ed (x # xs) (y # ys) =
     min (min (ed (x # xs) ys + 1) (ed xs (y # ys) + 1)) (ed xs ys + (if x \<noteq> y then 1 else 0))"

lemma ed_Nil2 [simp]: "ed xs [] = length xs"
  by (cases xs) simp_all

fun table_row :: "'a list \<Rightarrow> 'a list \<Rightarrow> 'a list \<Rightarrow> nat list" where
  "table_row ru p [] = [ed ru p]"
| "table_row ru p (y # ys) = ed ru p # table_row ru (y # p) ys"

lemma table_row_Cons: "table_row ru p ys = ed ru p # tl (table_row ru p ys)"
  by (cases ys) simp_all

lemma lev_cells_table: "lev_cells x ys (table_row ru p ys) (ed (x # ru) p) = tl (table_row (x # ru) p ys)"
proof (induction ys arbitrary: p)
  case Nil
  then show ?case by simp
next
  case (Cons y ys)
  obtain t where t: "table_row ru (y # p) ys = ed ru (y # p) # t" using table_row_Cons [of ru "y # p" ys] by metis
  then have "lev_cells x (y # ys) (table_row ru p (y # ys)) (ed (x # ru) p)
      = ed (x # ru) (y # p) # lev_cells x ys (table_row ru (y # p) ys) (ed (x # ru) (y # p))"
    by (simp add: Let_def)
  also have "\<dots> = ed (x # ru) (y # p) # tl (table_row (x # ru) (y # p) ys)" by (simp only: Cons.IH)
  also have "\<dots> = tl (table_row (x # ru) p (y # ys))"
    using table_row_Cons [of "x # ru" "y # p" ys] by simp
  finally show ?case .
qed

lemma lev_rows_table:
  "i = Suc (length ru) \<Longrightarrow> lev_rows i xs b (table_row ru [] b) = table_row (rev xs @ ru) [] b"
proof (induction xs arbitrary: i ru)
  case Nil
  then show ?case by simp
next
  case (Cons x xs)
  have "lev_row i x b (table_row ru [] b) = table_row (x # ru) [] b"
    using lev_cells_table [of x b ru "[]"] table_row_Cons [of "x # ru" "[]" b] Cons.prems by (simp add: lev_row_def)
  with Cons.IH [of "Suc i" "x # ru"] Cons.prems show ?case by simp
qed

lemma table_row_first: "table_row [] p ys = [length p..<length p + length ys + 1]"
  by (induction ys arbitrary: p) (simp_all add: upt_rec)

lemma table_row_last: "table_row ru p ys ! length ys = ed ru (rev ys @ p)"
  by (induction ys arbitrary: p) simp_all

lemma levenshtein_ed: "levenshtein a b = ed (rev a) (rev b)"
proof -
  have "[0..<length b + 1] = table_row [] [] b" by (simp add: table_row_first)
  then have "lev_rows 1 a b [0..<length b + 1] = table_row (rev a) [] b"
    using lev_rows_table [of 1 "[]" a b] by simp
  then show ?thesis by (simp add: levenshtein_def table_row_last)
qed

lemma one_edit_Cons: "one_edit s t \<Longrightarrow> one_edit (x # s) (x # t)"
  by (elim one_edit.cases) (metis append_Cons one_edit.intros)+

lemma one_edit_rev: "one_edit s t \<Longrightarrow> one_edit (rev s) (rev t)"
proof (induction rule: one_edit.induct)
  case (insert_char p q c)
  show ?case using one_edit.insert_char [of "rev q" "rev p" c] by simp
next
  case (delete_char p c q)
  show ?case using one_edit.delete_char [of "rev q" c "rev p"] by simp
next
  case (change_char p c q d)
  show ?case using one_edit.change_char [of "rev q" c "rev p" d] by simp
qed

lemma edits_map:
  assumes f: "\<And>s t. one_edit s t \<Longrightarrow> one_edit (f s) (f t)"
  shows "(one_edit ^^ n) s t \<Longrightarrow> (one_edit ^^ n) (f s) (f t)"
proof (induction n arbitrary: t)
  case 0
  then show ?case by simp
next
  case (Suc n)
  then obtain u where "(one_edit ^^ n) s u" "one_edit u t" by auto
  with Suc.IH f show ?case by auto
qed

lemma edits_first: "one_edit s u \<Longrightarrow> (one_edit ^^ n) u t \<Longrightarrow> (one_edit ^^ Suc n) s t"
  by (rule relpowp_Suc_I2)

lemma edits_last: "(one_edit ^^ n) s u \<Longrightarrow> one_edit u t \<Longrightarrow> (one_edit ^^ Suc n) s t"
  by (rule relpowp_Suc_I)

lemma ed_reached: "(one_edit ^^ ed xs ys) xs ys"
proof (induction xs ys rule: ed.induct)
  case (1 ys)
  show ?case
  proof (induction ys)
    case Nil
    then show ?case by simp
  next
    case (Cons y ys)
    then show ?case using edits_last [of "length ys" "[]" ys "y # ys"] one_edit.insert_char [of "[]" ys y] by simp
  qed
next
  case (2 x xs)
  have "(one_edit ^^ length zs) zs []" for zs :: "'a list"
  proof (induction zs)
    case Nil
    then show ?case by simp
  next
    case (Cons z zs)
    then show ?case using edits_first [of "z # zs" zs "length zs" "[]"] one_edit.delete_char [of "[]" z zs] by simp
  qed
  from this [of "x # xs"] show ?case by simp
next
  case (3 x xs y ys)
  have a: "(one_edit ^^ (ed (x # xs) ys + 1)) (x # xs) (y # ys)"
    using edits_last [OF 3(1)] one_edit.insert_char [of "[]" ys y] by simp
  have b: "(one_edit ^^ (ed xs (y # ys) + 1)) (x # xs) (y # ys)"
    using edits_first [OF _ 3(2)] one_edit.delete_char [of "[]" x xs] by simp
  have c: "(one_edit ^^ (ed xs ys + (if x \<noteq> y then 1 else 0))) (x # xs) (y # ys)"
  proof (cases "x = y")
    case True
    then show ?thesis using edits_map [where f = "(#) x", OF one_edit_Cons 3(3)] by simp
  next
    case False
    then show ?thesis
      using edits_last [OF edits_map [where f = "(#) x", OF one_edit_Cons 3(3)]] one_edit.change_char [of "[]" x ys y] by simp
  qed
  show ?case using a b c by (auto simp: min_def)
qed

lemma ed_insert_right: "ed q (y # ys) \<le> ed q ys + 1"
  by (cases q) simp_all

lemma ed_delete: "ed (c # q) ys \<le> ed q ys + 1"
  by (cases ys) simp_all

lemma ed_insert: "ed q ys \<le> ed (c # q) ys + 1"
proof (induction ys)
  case Nil
  then show ?case by simp
next
  case (Cons y ys)
  then show ?case using ed_insert_right [of q y ys] by simp
qed

lemma ed_change: "ed (c # q) ys \<le> ed (d # q) ys + 1"
proof (induction ys)
  case Nil
  then show ?case by simp
next
  case (Cons y ys)
  then show ?case by (auto simp: min_def)
qed

lemma ed_Cons_mono:
  assumes "\<And>ys. ed xs ys \<le> ed zs ys + 1"
  shows "ed (x # xs) ys \<le> ed (x # zs) ys + 1"
proof (induction ys)
  case Nil
  then show ?case using assms [of "[]"] by simp
next
  case (Cons y ys)
  then show ?case using assms [of "y # ys"] assms [of ys] by (auto simp: min_def)
qed

lemma ed_append_mono:
  assumes "\<And>ys. ed xs ys \<le> ed zs ys + 1"
  shows "ed (p @ xs) ys \<le> ed (p @ zs) ys + 1"
proof (induction p arbitrary: ys)
  case Nil
  then show ?case using assms by simp
next
  case (Cons x p)
  show ?case unfolding append_Cons by (rule ed_Cons_mono) (rule Cons.IH)
qed

lemma ed_one_edit: "one_edit xs zs \<Longrightarrow> ed xs ys \<le> ed zs ys + 1"
  using ed_append_mono [OF ed_insert] ed_append_mono [OF ed_delete] ed_append_mono [OF ed_change]
  by (elim one_edit.cases) (simp_all only:)

lemma ed_least: "(one_edit ^^ n) xs ys \<Longrightarrow> ed xs ys \<le> n"
proof (induction n arbitrary: xs)
  case 0
  have "ed zs zs = 0" for zs :: "'a list" by (induction zs) simp_all
  with 0 show ?case by simp
next
  case (Suc n)
  then obtain zs where "one_edit xs zs" "(one_edit ^^ n) zs ys" by (metis relpowp_Suc_D2)
  with Suc.IH ed_one_edit [of xs zs ys] show ?case by fastforce
qed

text \<open>C40: the edit distance: \<^verbatim>\<open>levenshtein\<close>'s table computes the least number of single-byte
  insertions, deletions and substitutions that turn one line into the other.\<close>

theorem levenshtein_is_the_edit_distance:
  "levenshtein a b = (LEAST n. (one_edit ^^ n) a b) \<and> (one_edit ^^ levenshtein a b) a b"
proof
  have r: "(one_edit ^^ ed (rev a) (rev b)) a b"
    using edits_map [where f = rev, OF one_edit_rev ed_reached [of "rev a" "rev b"]] by simp
  then show "(one_edit ^^ levenshtein a b) a b" by (simp add: levenshtein_ed)
  have "ed (rev a) (rev b) \<le> n" if "(one_edit ^^ n) a b" for n
    by (rule ed_least [OF edits_map [where f = rev, OF one_edit_rev that]])
  with r show "levenshtein a b = (LEAST n. (one_edit ^^ n) a b)"
    unfolding levenshtein_ed by (intro Least_equality [symmetric])
qed

subsection \<open>Finding a span\<close>






subsection \<open>The candidates of a strategy\<close>









subsection \<open>The chain\<close>



lemma modes_differ: "''line-trimmed'' \<noteq> ''exact''" "''block-anchor'' \<noteq> ''exact''" "''block-anchor'' \<noteq> ''line-trimmed''"
  by simp_all




end
