(* ===== verification/Spec2Isabelle.thy ===== *)
theory Spec2Isabelle
  imports Outcome ActorId JobQueueSteps SsmChannelInv IapChannel InputSetsRun PlanWalkProps MachineProps EditProps
begin

text \<open>
  Header under construction.
\<close>

end
